theory Spec2Isabelle
  imports Main "HOL-Library.Word"
begin

section \<open>The entropy source \<open>ggentropy\<close> (src/ggentropy.c)\<close>

text \<open>
  \<open>ggentropy(buf, n)\<close> fills \<open>n \<le> 256\<close> bytes at \<open>buf\<close> from an operating-system
  entropy facility and returns a boolean. One of three bodies is compiled in: Windows
  (\<open>BCryptGenRandom\<close>), Linux (getrandom, then /dev/urandom, then sysctl) and the
  arc4random platforms.

  The operating system is the environment. For Linux it is a script: for each primitive the
  list of answers the kernel gives to the successive calls of that primitive. A primitive
  called on an empty script has no answer, and the run is then \<open>None\<close>: the code has made
  every call the script answers and is blocked in one more call. \<open>Some\<close> is a run that
  returned. Every call is appended to \<open>trace\<close>, with its arguments and its outcome.
\<close>

subsection \<open>Data\<close>

type_synonym byte = "8 word"
type_synonym addr = nat
type_synonym memory = "addr \<Rightarrow> byte"

text \<open>
  The values of \<open>errno\<close>: zero (\<open>EOK\<close>), the error numbers the source names, some of
  those the calls can set, and any other number.
\<close>

datatype errno = EOK | EINTR | EAGAIN | ENOSYS | EIO | ENOENT | EACCES | EMFILE | ENFILE
  | ELOOP | EPERM | EFAULT | EINVAL | ENOTTY | EBADF | EOTHER nat

text \<open>The flags of \<open>open\<close>, and the calls of the trace with their outcomes.\<close>

datatype open_flag = O_RDONLY | O_NOFOLLOW | O_CLOEXEC

type_synonym mode_t = "32 word"

datatype event =
    Ev_getrandom addr nat "errno + byte list"
  | Ev_open string "open_flag list" "errno + nat"
  | Ev_fstat int "errno + mode_t"
  | Ev_ioctl int "errno + int"
  | Ev_read int addr nat "errno + byte list"
  | Ev_close int
  | Ev_sysctl addr nat "errno + byte list"

text \<open>
  The process state: the memory, the C variable \<open>errno\<close>, the function-local static
  \<open>getrandom_available\<close> of \<open>ggentropy\<close> (line 75), the trace of the calls made so far and
  the kernel's remaining answers.
\<close>

record state =
  mem :: memory
  errno :: errno
  getrandom_available :: bool
  trace :: "event list"
  getrandom_rs :: "(errno + byte list) list"
  open_rs :: "(errno + nat) list"
  fstat_rs :: "(errno + mode_t) list"
  ioctl_rs :: "(errno + int) list"
  read_rs :: "(errno + byte list) list"
  sysctl_rs :: "(errno + byte list) list"

text \<open>Which of the two optional syscall numbers the system headers define (lines 62, 66).\<close>

record config =
  SYS_getrandom :: bool
  SYS__sysctl :: bool

text \<open>
  \<open>assert(n <= 256)\<close> is compiled in: the source includes assert.h and does not define
  \<open>NDEBUG\<close>. A failed assertion ends the process.
\<close>

datatype abort = Assertion_failed

text \<open>
  A fresh process: \<open>static bool getrandom_available = true\<close>, \<open>errno\<close> is zero, no call
  has been made. The kernel's answers are put in with record updates.
\<close>

definition initial_state :: "memory \<Rightarrow> state" where
  "initial_state m =
     \<lparr>mem = m, errno = EOK, getrandom_available = True, trace = [],
      getrandom_rs = [], open_rs = [], fstat_rs = [], ioctl_rs = [], read_rs = [],
      sysctl_rs = []\<rparr>"

subsection \<open>Memory\<close>

text \<open>The kernel copies \<open>bs\<close> to the addresses \<open>p, p + 1, ...\<close>.\<close>

definition store_bytes :: "memory \<Rightarrow> addr \<Rightarrow> byte list \<Rightarrow> memory" where
  "store_bytes m p bs = (\<lambda>a. if p \<le> a \<and> a < p + length bs then bs ! (a - p) else m a)"

definition load_bytes :: "memory \<Rightarrow> addr \<Rightarrow> nat \<Rightarrow> byte list" where
  "load_bytes m p n = map m [p ..< p + n]"

subsection \<open>The kernel primitives\<close>

text \<open>
  Each primitive takes the next answer of its script. A failure \<open>Inl e\<close> returns \<open>-1\<close> and
  sets \<open>errno\<close>; a success leaves \<open>errno\<close> alone. The kernel never writes more than the
  count it was asked for, so a longer answer is cut to that count; the event records the
  bytes written.
\<close>

definition sys_getrandom :: "addr \<Rightarrow> nat \<Rightarrow> state \<Rightarrow> (int \<times> state) option" where
  "sys_getrandom p buflen s =
     (case getrandom_rs s of
        [] \<Rightarrow> None
      | Inl e # rs \<Rightarrow>
          Some (- 1, s\<lparr>errno := e, getrandom_rs := rs,
                       trace := trace s @ [Ev_getrandom p buflen (Inl e)]\<rparr>)
      | Inr bs # rs \<Rightarrow>
          (let w = take buflen bs in
           Some (int (length w), s\<lparr>mem := store_bytes (mem s) p w, getrandom_rs := rs,
                                   trace := trace s @ [Ev_getrandom p buflen (Inr w)]\<rparr>)))"

definition sys_open :: "string \<Rightarrow> open_flag list \<Rightarrow> state \<Rightarrow> (int \<times> state) option" where
  "sys_open path flags s =
     (case open_rs s of
        [] \<Rightarrow> None
      | Inl e # rs \<Rightarrow>
          Some (- 1, s\<lparr>errno := e, open_rs := rs,
                       trace := trace s @ [Ev_open path flags (Inl e)]\<rparr>)
      | Inr fd # rs \<Rightarrow>
          Some (int fd, s\<lparr>open_rs := rs, trace := trace s @ [Ev_open path flags (Inr fd)]\<rparr>))"

text \<open>\<open>fstat\<close> returns its status and the \<open>st_mode\<close> it stored (meaningful on success).\<close>

definition sys_fstat :: "int \<Rightarrow> state \<Rightarrow> ((int \<times> mode_t) \<times> state) option" where
  "sys_fstat fd s =
     (case fstat_rs s of
        [] \<Rightarrow> None
      | Inl e # rs \<Rightarrow>
          Some ((- 1, 0), s\<lparr>errno := e, fstat_rs := rs,
                            trace := trace s @ [Ev_fstat fd (Inl e)]\<rparr>)
      | Inr m # rs \<Rightarrow>
          Some ((0, m), s\<lparr>fstat_rs := rs, trace := trace s @ [Ev_fstat fd (Inr m)]\<rparr>))"

text \<open>\<open>ioctl(fd, RNDGETENTCNT, &cnt)\<close>; the count is not used by the caller.\<close>

definition sys_ioctl_RNDGETENTCNT :: "int \<Rightarrow> state \<Rightarrow> (int \<times> state) option" where
  "sys_ioctl_RNDGETENTCNT fd s =
     (case ioctl_rs s of
        [] \<Rightarrow> None
      | Inl e # rs \<Rightarrow>
          Some (- 1, s\<lparr>errno := e, ioctl_rs := rs,
                       trace := trace s @ [Ev_ioctl fd (Inl e)]\<rparr>)
      | Inr cnt # rs \<Rightarrow>
          Some (0, s\<lparr>ioctl_rs := rs, trace := trace s @ [Ev_ioctl fd (Inr cnt)]\<rparr>))"

definition sys_read :: "int \<Rightarrow> addr \<Rightarrow> nat \<Rightarrow> state \<Rightarrow> (int \<times> state) option" where
  "sys_read fd p count s =
     (case read_rs s of
        [] \<Rightarrow> None
      | Inl e # rs \<Rightarrow>
          Some (- 1, s\<lparr>errno := e, read_rs := rs,
                       trace := trace s @ [Ev_read fd p count (Inl e)]\<rparr>)
      | Inr bs # rs \<Rightarrow>
          (let w = take count bs in
           Some (int (length w), s\<lparr>mem := store_bytes (mem s) p w, read_rs := rs,
                                   trace := trace s @ [Ev_read fd p count (Inr w)]\<rparr>)))"

text \<open>The result of \<open>close\<close> is ignored by every caller.\<close>

definition sys_close :: "int \<Rightarrow> state \<Rightarrow> state" where
  "sys_close fd s = s\<lparr>trace := trace s @ [Ev_close fd]\<rparr>"

text \<open>
  \<open>syscall(SYS__sysctl, &args)\<close> with \<open>oldval = p\<close> and \<open>*oldlenp = chunk\<close>: returns the
  status and the new value of \<open>*oldlenp\<close>, the number of bytes stored.
\<close>

definition sys_sysctl :: "addr \<Rightarrow> nat \<Rightarrow> state \<Rightarrow> ((int \<times> nat) \<times> state) option" where
  "sys_sysctl p chunk s =
     (case sysctl_rs s of
        [] \<Rightarrow> None
      | Inl e # rs \<Rightarrow>
          Some ((- 1, chunk), s\<lparr>errno := e, sysctl_rs := rs,
                                trace := trace s @ [Ev_sysctl p chunk (Inl e)]\<rparr>)
      | Inr bs # rs \<Rightarrow>
          (let w = take chunk bs in
           Some ((0, length w), s\<lparr>mem := store_bytes (mem s) p w, sysctl_rs := rs,
                                  trace := trace s @ [Ev_sysctl p chunk (Inr w)]\<rparr>)))"

text \<open>
  Modelled from the spec: the macros \<open>S_ISCHR\<close> (of sys/stat.h) and \<open>min\<close> are used by the
  source and defined nowhere in it. \<open>S_ISCHR\<close> tests for "a character special device",
  here with the Linux encoding of \<open>st_mode\<close>; \<open>min\<close> bounds a chunk to "at most 16 bytes
  per call".
\<close>

definition S_ISCHR :: "mode_t \<Rightarrow> bool" where
  "S_ISCHR m = (and m 0xF000 = 0x2000)"

definition min_sz :: "nat \<Rightarrow> nat \<Rightarrow> nat" where
  "min_sz a b = (if a < b then a else b)"

subsection \<open>Step A: \<open>getentropy_getrandom\<close> (lines 132-154)\<close>

text \<open>
  The \<open>while (left > 0)\<close> loop. \<open>Inl\<close> is the \<open>return -1\<close> inside the loop, \<open>Inr\<close> the loop
  running to its end. \<open>left\<close> is the C \<open>int\<close>; the only caller has asserted
  \<open>len \<le> 256\<close>, so no conversion wraps.
\<close>

function getrandom_loop :: "addr \<Rightarrow> int \<Rightarrow> state \<Rightarrow> (state + state) option" where
  "getrandom_loop p left s =
     (if left > 0 then
        (case sys_getrandom p (nat left) s of
           None \<Rightarrow> None
         | Some (ret, s') \<Rightarrow>
             if ret = - 1 then
               (if errno s' = EINTR then getrandom_loop p left s' else Some (Inl s'))
             else getrandom_loop (p + nat ret) (left - ret) s')
      else Some (Inr s))"
  by pat_completeness auto
termination
  by (relation "measure (\<lambda>(p, left, s). length (getrandom_rs s))")
     (auto simp: sys_getrandom_def Let_def split: list.splits sum.splits)

definition getentropy_getrandom :: "addr \<Rightarrow> nat \<Rightarrow> state \<Rightarrow> (int \<times> state) option" where
  "getentropy_getrandom buf len s =
     (let pre_errno = errno s in
      case getrandom_loop buf (int len) s of
        None \<Rightarrow> None
      | Some (Inl s') \<Rightarrow> Some (- 1, s')
      | Some (Inr s') \<Rightarrow> Some (0, s'\<lparr>errno := pre_errno\<rparr>))"

subsection \<open>Step B: \<open>getentropy_urandom\<close> (lines 157-213)\<close>

text \<open>The label \<open>nodevrandom\<close>: \<open>errno = EIO; return -1\<close>.\<close>

definition nodevrandom :: "state \<Rightarrow> int \<times> state" where
  "nodevrandom s = (- 1, s\<lparr>errno := EIO\<rparr>)"

text \<open>
  The \<open>for (i = 0; i < len; )\<close> loop of reads. \<open>Inl\<close> is the exit on a read error other
  than \<open>EAGAIN\<close> and \<open>EINTR\<close> (the caller then closes and goes to \<open>nodevrandom\<close>).
\<close>

function urandom_read_loop :: "int \<Rightarrow> addr \<Rightarrow> nat \<Rightarrow> nat \<Rightarrow> state \<Rightarrow> (state + state) option" where
  "urandom_read_loop fd buf len i s =
     (if i < len then
        (let wanted = len - i in
         case sys_read fd (buf + i) wanted s of
           None \<Rightarrow> None
         | Some (ret, s') \<Rightarrow>
             if ret = - 1 then
               (if errno s' = EAGAIN \<or> errno s' = EINTR then urandom_read_loop fd buf len i s'
                else Some (Inl s'))
             else urandom_read_loop fd buf len (i + nat ret) s')
      else Some (Inr s))"
  by pat_completeness auto
termination
  by (relation "measure (\<lambda>(fd, buf, len, i, s). length (read_rs s))")
     (auto simp: sys_read_def Let_def split: list.splits sum.splits)

text \<open>
  On Linux both \<open>O_NOFOLLOW\<close> and \<open>O_CLOEXEC\<close> are defined, so both are requested and the
  \<open>fcntl\<close> of line 181 is not compiled.
\<close>

definition urandom_flags :: "open_flag list" where
  "urandom_flags = [O_RDONLY, O_NOFOLLOW, O_CLOEXEC]"

text \<open>The body from the label \<open>start\<close> on; \<open>goto start\<close> is the recursive call.\<close>

function getentropy_urandom_start :: "addr \<Rightarrow> nat \<Rightarrow> errno \<Rightarrow> state \<Rightarrow> (int \<times> state) option" where
  "getentropy_urandom_start buf len save_errno s =
     (case sys_open ''/dev/urandom'' urandom_flags s of
        None \<Rightarrow> None
      | Some (fd, s1) \<Rightarrow>
          if fd = - 1 then
            (if errno s1 = EINTR then getentropy_urandom_start buf len save_errno s1
             else Some (nodevrandom s1))
          else
            (case sys_fstat fd s1 of
               None \<Rightarrow> None
             | Some ((r, st_mode), s2) \<Rightarrow>
                 if r = - 1 \<or> \<not> S_ISCHR st_mode then Some (nodevrandom (sys_close fd s2))
                 else
                   (case sys_ioctl_RNDGETENTCNT fd s2 of
                      None \<Rightarrow> None
                    | Some (r', s3) \<Rightarrow>
                        if r' = - 1 then Some (nodevrandom (sys_close fd s3))
                        else
                          (case urandom_read_loop fd buf len 0 s3 of
                             None \<Rightarrow> None
                           | Some (Inl s4) \<Rightarrow> Some (nodevrandom (sys_close fd s4))
                           | Some (Inr s4) \<Rightarrow>
                               Some (0, (sys_close fd s4)\<lparr>errno := save_errno\<rparr>)))))"
  by pat_completeness auto
termination
  by (relation "measure (\<lambda>(buf, len, save_errno, s). length (open_rs s))")
     (auto simp: sys_open_def split: list.splits sum.splits)

definition getentropy_urandom :: "addr \<Rightarrow> nat \<Rightarrow> state \<Rightarrow> (int \<times> state) option" where
  "getentropy_urandom buf len s = getentropy_urandom_start buf len (errno s) s"

subsection \<open>Step C: \<open>getentropy_sysctl\<close> (lines 216-243)\<close>

text \<open>The \<open>for (i = 0; i < len; )\<close> loop; \<open>Inl\<close> is \<open>goto sysctlfailed\<close>.\<close>

function sysctl_loop :: "addr \<Rightarrow> nat \<Rightarrow> nat \<Rightarrow> state \<Rightarrow> (state + state) option" where
  "sysctl_loop buf len i s =
     (if i < len then
        (let chunk = min_sz (len - i) 16 in
         case sys_sysctl (buf + i) chunk s of
           None \<Rightarrow> None
         | Some ((r, chunk'), s') \<Rightarrow>
             if r \<noteq> 0 then Some (Inl s')
             else sysctl_loop buf len (i + chunk') s')
      else Some (Inr s))"
  by pat_completeness auto
termination
  by (relation "measure (\<lambda>(buf, len, i, s). length (sysctl_rs s))")
     (auto simp: sys_sysctl_def Let_def split: list.splits sum.splits)

definition getentropy_sysctl :: "addr \<Rightarrow> nat \<Rightarrow> state \<Rightarrow> (int \<times> state) option" where
  "getentropy_sysctl buf len s =
     (let save_errno = errno s in
      case sysctl_loop buf len 0 s of
        None \<Rightarrow> None
      | Some (Inl s') \<Rightarrow> Some (- 1, s'\<lparr>errno := EIO\<rparr>)
      | Some (Inr s') \<Rightarrow> Some (0, s'\<lparr>errno := save_errno\<rparr>))"

subsection \<open>\<open>ggentropy\<close> on Linux (lines 70-129)\<close>

text \<open>Lines 94 to 128: the device strategy, then the control interface where compiled in.\<close>

definition ggentropy_fallback :: "config \<Rightarrow> addr \<Rightarrow> nat \<Rightarrow> state \<Rightarrow> (bool \<times> state) option" where
  "ggentropy_fallback cfg buf n s =
     (case getentropy_urandom buf n s of
        None \<Rightarrow> None
      | Some (ret, s2) \<Rightarrow>
          if ret \<noteq> - 1 then Some (True, s2)
          else if SYS__sysctl cfg then
            (case getentropy_sysctl buf n s2 of
               None \<Rightarrow> None
             | Some (ret', s3) \<Rightarrow> if ret' \<noteq> - 1 then Some (True, s3) else Some (False, s3))
          else Some (False, s2))"

definition ggentropy_linux :: "config \<Rightarrow> addr \<Rightarrow> nat \<Rightarrow> state \<Rightarrow> (abort + bool \<times> state) option" where
  "ggentropy_linux cfg buf n s =
     (if \<not> n \<le> 256 then Some (Inl Assertion_failed)
      else if SYS_getrandom cfg \<and> getrandom_available s then
        (case getentropy_getrandom buf n s of
           None \<Rightarrow> None
         | Some (ret, s1) \<Rightarrow>
             if ret \<noteq> - 1 then Some (Inr (True, s1))
             else if errno s1 = ENOSYS then
               map_option Inr (ggentropy_fallback cfg buf n (s1\<lparr>getrandom_available := False\<rparr>))
             else Some (Inr (False, s1)))
      else map_option Inr (ggentropy_fallback cfg buf n s))"

subsection \<open>\<open>ggentropy\<close> on Windows (lines 47-50) and with arc4random (lines 250-254)\<close>

text \<open>
  Modelled from the spec: the macro \<open>FAILED\<close> of the Windows headers is not in the source;
  "success is the call not failing", and a failing status is a negative one.
\<close>

definition FAILED :: "int \<Rightarrow> bool" where
  "FAILED hr = (hr < 0)"

text \<open>
  The system generator answers one call with a status and, when the status is not a
  failure, with the bytes of its output stream: it fills the whole buffer or fails.
\<close>

definition BCryptGenRandom :: "int \<times> (nat \<Rightarrow> byte) \<Rightarrow> addr \<Rightarrow> nat \<Rightarrow> memory \<Rightarrow> int \<times> memory" where
  "BCryptGenRandom r pbBuffer cbBuffer m =
     (case r of (status, gen) \<Rightarrow>
        if FAILED status then (status, m)
        else (status, store_bytes m pbBuffer (map gen [0 ..< cbBuffer])))"

definition ggentropy_windows :: "int \<times> (nat \<Rightarrow> byte) \<Rightarrow> addr \<Rightarrow> nat \<Rightarrow> memory \<Rightarrow> abort + bool \<times> memory" where
  "ggentropy_windows r buf n m =
     (if \<not> n \<le> 256 then Inl Assertion_failed
      else (case BCryptGenRandom r buf n m of (status, m') \<Rightarrow> Inr (\<not> FAILED status, m')))"

text \<open>\<open>arc4random_buf\<close> cannot fail: it stores the next \<open>n\<close> bytes of the generator.\<close>

definition arc4random_buf :: "(nat \<Rightarrow> byte) \<Rightarrow> addr \<Rightarrow> nat \<Rightarrow> memory \<Rightarrow> memory" where
  "arc4random_buf gen buf n m = store_bytes m buf (map gen [0 ..< n])"

definition ggentropy_arc4random :: "(nat \<Rightarrow> byte) \<Rightarrow> addr \<Rightarrow> nat \<Rightarrow> memory \<Rightarrow> abort + bool \<times> memory" where
  "ggentropy_arc4random gen buf n m =
     (if \<not> n \<le> 256 then Inl Assertion_failed
      else Inr (True, arc4random_buf gen buf n m))"


subsection \<open>Reading the trace\<close>

text \<open>The calls made between two states of one run.\<close>

definition events_since :: "state \<Rightarrow> state \<Rightarrow> event list" where
  "events_since s s' = drop (length (trace s)) (trace s')"

text \<open>
  The strategy a call belongs to: the descriptor-less syscall (step A), the device (step B)
  or the control interface (step C).
\<close>

datatype strategy = Syscall | Device | Control

fun strategy_of :: "event \<Rightarrow> strategy" where
  "strategy_of (Ev_getrandom p k r) = Syscall"
| "strategy_of (Ev_sysctl p k r) = Control"
| "strategy_of e = Device"

fun step_no :: "strategy \<Rightarrow> nat" where
  "step_no Syscall = 0"
| "step_no Device = 1"
| "step_no Control = 2"

text \<open>The bytes a call stored in the caller's memory, and where.\<close>

fun event_bytes :: "event \<Rightarrow> byte list" where
  "event_bytes (Ev_getrandom p k (Inr bs)) = bs"
| "event_bytes (Ev_read fd p k (Inr bs)) = bs"
| "event_bytes (Ev_sysctl p k (Inr bs)) = bs"
| "event_bytes e = []"

fun event_addrs :: "event \<Rightarrow> addr set" where
  "event_addrs (Ev_getrandom p k (Inr bs)) = {p ..< p + length bs}"
| "event_addrs (Ev_read fd p k (Inr bs)) = {p ..< p + length bs}"
| "event_addrs (Ev_sysctl p k (Inr bs)) = {p ..< p + length bs}"
| "event_addrs e = {}"

definition delivered :: "strategy \<Rightarrow> event list \<Rightarrow> byte list" where
  "delivered k evs = concat (map event_bytes (filter (\<lambda>e. strategy_of e = k) evs))"

definition written :: "event list \<Rightarrow> addr set" where
  "written evs = (\<Union>e \<in> set evs. event_addrs e)"

text \<open>The state a loop was left in, by either exit.\<close>

definition final :: "state + state \<Rightarrow> state" where
  "final r = (case r of Inl s \<Rightarrow> s | Inr s \<Rightarrow> s)"

text \<open>
  What a loop of strategy \<open>k\<close> that is to fill the \<open>n\<close> bytes at \<open>p\<close> has done when it
  went from \<open>s\<close> to \<open>r\<close> making the calls \<open>evs\<close>: only calls of its strategy, stores
  only inside the \<open>n\<close> bytes, and, when it ran to its end, the \<open>n\<close> bytes are the bytes
  its calls delivered, in order, and every one of them was stored to.
\<close>

definition fills :: "strategy \<Rightarrow> addr \<Rightarrow> nat \<Rightarrow> state \<Rightarrow> state + state \<Rightarrow> event list \<Rightarrow> bool" where
  "fills k p n s r evs \<longleftrightarrow>
     trace (final r) = trace s @ evs
   \<and> (\<forall>e \<in> set evs. strategy_of e = k)
   \<and> written evs \<subseteq> {p ..< p + n}
   \<and> (\<forall>a. a < p \<or> p + n \<le> a \<longrightarrow> mem (final r) a = mem s a)
   \<and> getrandom_available (final r) = getrandom_available s
   \<and> (\<forall>s'. r = Inr s' \<longrightarrow>
         load_bytes (mem s') p n = concat (map event_bytes evs) \<and> written evs = {p ..< p + n})"

text \<open>A call of a loop that succeeded: a getrandom, a read or a sysctl that did not fail.\<close>

fun transfer :: "event \<Rightarrow> bool" where
  "transfer (Ev_getrandom p k (Inr bs)) = True"
| "transfer (Ev_read fd p k (Inr bs)) = True"
| "transfer (Ev_sysctl p k (Inr bs)) = True"
| "transfer e = False"

text \<open>The calls of a run are in the order of the steps A, B, C.\<close>

definition in_step_order :: "event list \<Rightarrow> bool" where
  "in_step_order evs = sorted (map (\<lambda>e. step_no (strategy_of e)) evs)"

text \<open>How a helper returned: \<open>Inl\<close> for \<open>-1\<close>, \<open>Inr\<close> for any other value.\<close>

definition returned :: "int \<Rightarrow> state \<Rightarrow> state + state" where
  "returned ret s = (if ret = - 1 then Inl s else Inr s)"

text \<open>A call that stores nothing.\<close>

definition quiet :: "strategy \<Rightarrow> event \<Rightarrow> bool" where
  "quiet k e \<longleftrightarrow> strategy_of e = k \<and> event_bytes e = [] \<and> event_addrs e = {}"

subsection \<open>The device protocol\<close>

text \<open>
  What the calls of a trace have established about a descriptor: nothing is open; \<open>fd\<close>
  is the result of \<open>open("/dev/urandom", O_RDONLY | O_NOFOLLOW | O_CLOEXEC)\<close>; \<open>fstat\<close> has
  then found \<open>fd\<close> to be a character special device; \<open>RNDGETENTCNT\<close> has then succeeded
  on \<open>fd\<close>. \<open>device_step\<close> is \<open>None\<close> for a call out of place: an \<open>open\<close> of another path or
  with a descriptor still open, a call on another descriptor, a \<open>read\<close> before both checks
  have passed. The getrandom and sysctl calls use no descriptor.
\<close>

datatype dev_state = No_device | Opened int | Char_device int | Checked int

fun device_step :: "dev_state \<Rightarrow> event \<Rightarrow> dev_state option" where
  "device_step st (Ev_open path fl r) =
     (if st = No_device \<and> path = ''/dev/urandom'' \<and> fl = urandom_flags
      then Some (case r of Inl e \<Rightarrow> No_device | Inr fd \<Rightarrow> Opened (int fd))
      else None)"
| "device_step st (Ev_fstat fd r) =
     (if st = Opened fd
      then Some (case r of Inl e \<Rightarrow> Opened fd
                 | Inr m \<Rightarrow> if S_ISCHR m then Char_device fd else Opened fd)
      else None)"
| "device_step st (Ev_ioctl fd r) =
     (if st = Char_device fd
      then Some (case r of Inl e \<Rightarrow> Char_device fd | Inr c \<Rightarrow> Checked fd)
      else None)"
| "device_step st (Ev_read fd p k r) = (if st = Checked fd then Some st else None)"
| "device_step st (Ev_close fd) =
     (if st = Opened fd \<or> st = Char_device fd \<or> st = Checked fd then Some No_device
      else None)"
| "device_step st (Ev_getrandom p k r) = Some st"
| "device_step st (Ev_sysctl p k r) = Some st"

fun device_run :: "dev_state \<Rightarrow> event list \<Rightarrow> dev_state option" where
  "device_run st [] = Some st"
| "device_run st (e # evs) =
     (case device_step st e of None \<Rightarrow> None | Some st' \<Rightarrow> device_run st' evs)"

subsection \<open>Answers that let a loop finish\<close>

text \<open>
  The bytes of an answer. A list of answers has no hard failure when each of its failures
  is one the loop retries.
\<close>

fun answer_bytes :: "errno + byte list \<Rightarrow> byte list" where
  "answer_bytes (Inr bs) = bs"
| "answer_bytes (Inl e) = []"

definition no_hard_failure :: "(errno + byte list \<Rightarrow> bool) \<Rightarrow> (errno + byte list) list \<Rightarrow> bool" where
  "no_hard_failure transient rs =
     list_all (\<lambda>r. case r of Inl e \<Rightarrow> transient r | Inr bs \<Rightarrow> True) rs"

subsection \<open>Interruptions\<close>

text \<open>
  The transient failures: \<open>EINTR\<close> of a getrandom syscall, \<open>EAGAIN\<close> and \<open>EINTR\<close> of a
  read. \<open>uninterrupted s\<close> is the process \<open>s\<close> with a kernel that gives the same answers
  but for these. \<open>outcome\<close> is what a call leaves to its caller: the result, the memory,
  \<open>errno\<close> and the flag.
\<close>

definition transient_getrandom :: "errno + byte list \<Rightarrow> bool" where
  "transient_getrandom r \<longleftrightarrow> r = Inl EINTR"

definition transient_read :: "errno + byte list \<Rightarrow> bool" where
  "transient_read r \<longleftrightarrow> r = Inl EAGAIN \<or> r = Inl EINTR"

text \<open>The sysctl loop retries nothing: every failure takes \<open>goto sysctlfailed\<close>.\<close>

definition transient_sysctl :: "errno + byte list \<Rightarrow> bool" where
  "transient_sysctl r \<longleftrightarrow> False"

definition uninterrupted :: "state \<Rightarrow> state" where
  "uninterrupted s =
     s\<lparr>getrandom_rs := filter (\<lambda>r. \<not> transient_getrandom r) (getrandom_rs s),
       read_rs := filter (\<lambda>r. \<not> transient_read r) (read_rs s)\<rparr>"

definition outcome :: "(abort + bool \<times> state) option \<Rightarrow> (abort + bool \<times> memory \<times> errno \<times> bool) option" where
  "outcome x =
     map_option (map_sum id (\<lambda>(r, s). (r, mem s, errno s, getrandom_available s))) x"

text \<open>
  Two processes that differ by interruptions only: \<open>t\<close> is \<open>s\<close> but for the transient
  failures still to come, the trace and \<open>errno\<close>.
\<close>

definition interrupts_apart :: "state \<Rightarrow> state \<Rightarrow> bool" where
  "interrupts_apart s t \<longleftrightarrow>
     mem t = mem s \<and> getrandom_available t = getrandom_available s
   \<and> getrandom_rs t = filter (\<lambda>r. \<not> transient_getrandom r) (getrandom_rs s)
   \<and> read_rs t = filter (\<lambda>r. \<not> transient_read r) (read_rs s)
   \<and> open_rs t = open_rs s \<and> fstat_rs t = fstat_rs s \<and> ioctl_rs t = ioctl_rs s
   \<and> sysctl_rs t = sysctl_rs s"

text \<open>Two runs of a loop, and of a helper, that end alike.\<close>

definition loop_agree :: "(state + state) option \<Rightarrow> (state + state) option \<Rightarrow> bool" where
  "loop_agree x y =
     (case (x, y) of
        (None, None) \<Rightarrow> True
      | (Some (Inl s'), Some (Inl t')) \<Rightarrow> interrupts_apart s' t' \<and> errno t' = errno s'
      | (Some (Inr s'), Some (Inr t')) \<Rightarrow> interrupts_apart s' t'
      | _ \<Rightarrow> False)"

definition helper_agree :: "(int \<times> state) option \<Rightarrow> (int \<times> state) option \<Rightarrow> bool" where
  "helper_agree x y =
     (case (x, y) of
        (None, None) \<Rightarrow> True
      | (Some (r, s'), Some (r', t')) \<Rightarrow> r' = r \<and> interrupts_apart s' t' \<and> errno t' = errno s'
      | _ \<Rightarrow> False)"

section \<open>Lemmas\<close>

declare getrandom_loop.simps [simp del] urandom_read_loop.simps [simp del]
  getentropy_urandom_start.simps [simp del] sysctl_loop.simps [simp del]

lemma final_simps [simp]: "final (Inl s) = s" "final (Inr s) = s"
  by (simp_all add: final_def)

subsection \<open>Stores and loads\<close>

lemma load_bytes_0 [simp]: "load_bytes m p 0 = []"
  by (simp add: load_bytes_def)

lemma length_load_bytes [simp]: "length (load_bytes m p n) = n"
  by (simp add: load_bytes_def)

lemma load_bytes_add: "load_bytes m p (k + j) = load_bytes m p k @ load_bytes m (p + k) j"
  unfolding load_bytes_def using upt_add_eq_append[of p "p + k" j]
  by (simp add: add.assoc)

lemma load_bytes_cong:
  "(\<And>a. p \<le> a \<Longrightarrow> a < p + n \<Longrightarrow> m a = m' a) \<Longrightarrow> load_bytes m p n = load_bytes m' p n"
  by (simp add: load_bytes_def)

lemma load_store_bytes: "load_bytes (store_bytes m p w) p (length w) = w"
  by (rule nth_equalityI) (simp_all add: load_bytes_def store_bytes_def)

lemma store_bytes_outside: "a < p \<or> p + length w \<le> a \<Longrightarrow> store_bytes m p w a = m a"
  by (auto simp: store_bytes_def)

lemma store_bytes_Nil [simp]: "store_bytes m p [] = m"
  by (rule ext) (auto simp: store_bytes_def)

lemma written_Nil [simp]: "written [] = {}"
  by (simp add: written_def)

lemma written_Cons [simp]: "written (e # evs) = event_addrs e \<union> written evs"
  by (simp add: written_def)

lemma written_append [simp]: "written (xs @ ys) = written xs \<union> written ys"
  by (auto simp: written_def)

subsection \<open>Composing the effect of a loop\<close>

lemma fills_exit: "fills k p n s (Inl s) []"
  by (simp add: fills_def)

lemma fills_finished: "fills k p 0 s (Inr s) []"
  by (simp add: fills_def)

lemma fills_noop:
  assumes "trace s' = trace s @ [ev]" "mem s' = mem s"
    "getrandom_available s' = getrandom_available s"
    "strategy_of ev = k" "event_bytes ev = []" "event_addrs ev = {}"
    and "fills k p n s' r evs"
  shows "fills k p n s r (ev # evs)"
  using assms unfolding fills_def by simp

lemma fills_store:
  assumes step: "trace s' = trace s @ [ev]" "mem s' = store_bytes (mem s) p w"
    "getrandom_available s' = getrandom_available s"
    and rest: "fills k (p + length w) (n - length w) s' r evs"
    and ev: "strategy_of ev = k" "event_bytes ev = w" "event_addrs ev = {p ..< p + length w}"
    and len: "length w \<le> n"
  shows "fills k p n s r (ev # evs)"
proof -
  let ?k = "length w"
  from len have n: "n = ?k + (n - ?k)" by simp
  have tr: "trace (final r) = trace s @ ev # evs"
    using rest step(1) by (simp add: fills_def)
  have cls: "\<forall>e \<in> set (ev # evs). strategy_of e = k"
    using rest ev(1) by (simp add: fills_def)
  have "written evs \<subseteq> {p + ?k ..< p + ?k + (n - ?k)}"
    using rest by (simp add: fills_def)
  with len have sub: "written (ev # evs) \<subseteq> {p ..< p + n}"
    using ev(3) by auto
  have fr': "\<forall>a. a < p + ?k \<or> p + ?k + (n - ?k) \<le> a \<longrightarrow> mem (final r) a = mem s' a"
    using rest by (simp add: fills_def)
  have fr: "\<forall>a. a < p \<or> p + n \<le> a \<longrightarrow> mem (final r) a = mem s a"
  proof (intro allI impI)
    fix a assume a: "a < p \<or> p + n \<le> a"
    with len have "mem (final r) a = mem s' a" using fr' by auto
    also have "\<dots> = mem s a" using a len by (auto simp: step(2) store_bytes_outside)
    finally show "mem (final r) a = mem s a" .
  qed
  have fl: "getrandom_available (final r) = getrandom_available s"
    using rest step(3) by (simp add: fills_def)
  have ok: "load_bytes (mem s'') p n = concat (map event_bytes (ev # evs))
      \<and> written (ev # evs) = {p ..< p + n}" if r: "r = Inr s''" for s''
  proof -
    from rest r have c: "load_bytes (mem s'') (p + ?k) (n - ?k) = concat (map event_bytes evs)"
      and w: "written evs = {p + ?k ..< p + ?k + (n - ?k)}"
      by (simp_all add: fills_def)
    have "load_bytes (mem s'') p ?k = load_bytes (mem s') p ?k"
      using fr' r by (intro load_bytes_cong) auto
    then have "load_bytes (mem s'') p ?k = w"
      by (simp add: step(2) load_store_bytes)
    then have "load_bytes (mem s'') p (?k + (n - ?k)) = w @ concat (map event_bytes evs)"
      using c by (simp only: load_bytes_add)
    with n have 1: "load_bytes (mem s'') p n = concat (map event_bytes (ev # evs))"
      using ev(2) by simp
    from w len have 2: "written (ev # evs) = {p ..< p + n}"
      using ev(3) by auto
    from 1 2 show ?thesis ..
  qed
  show ?thesis
    unfolding fills_def using tr cls sub fr fl ok by blast
qed


subsection \<open>getrandom\<close>

lemma sys_getrandom_cases:
  assumes "sys_getrandom p k s = Some (ret, s')"
  obtains (fail) e rs where "getrandom_rs s = Inl e # rs" "ret = - 1"
      "s' = s\<lparr>errno := e, getrandom_rs := rs, trace := trace s @ [Ev_getrandom p k (Inl e)]\<rparr>"
    | (ok) bs rs where "getrandom_rs s = Inr bs # rs" "ret = int (length (take k bs))"
      "s' = s\<lparr>mem := store_bytes (mem s) p (take k bs), getrandom_rs := rs,
               trace := trace s @ [Ev_getrandom p k (Inr (take k bs))]\<rparr>"
  using assms by (auto simp: sys_getrandom_def Let_def split: list.splits sum.splits)

lemma sys_getrandom_failE:
  assumes "sys_getrandom p k s = Some (- 1, s')"
  obtains "trace s' = trace s @ [Ev_getrandom p k (Inl (errno s'))]"
    "mem s' = mem s" "getrandom_available s' = getrandom_available s"
    "getrandom_rs s = Inl (errno s') # getrandom_rs s'"
  using assms
proof (cases rule: sys_getrandom_cases)
  case (fail e rs)
  then show ?thesis using that by simp
next
  case (ok bs rs)
  then show ?thesis by simp
qed

lemma sys_getrandom_okE:
  assumes "sys_getrandom p k s = Some (ret, s')" "ret \<noteq> - 1"
  obtains w where "ret = int (length w)" "length w \<le> k"
    "mem s' = store_bytes (mem s) p w" "trace s' = trace s @ [Ev_getrandom p k (Inr w)]"
    "getrandom_available s' = getrandom_available s" "errno s' = errno s"
  using assms(1)
proof (cases rule: sys_getrandom_cases)
  case (fail e rs)
  with assms(2) show ?thesis by simp
next
  case (ok bs rs)
  then show ?thesis using that[of "take k bs"] by simp
qed

lemma getrandom_loop_induct [consumes 1, case_names finished failed retry progress]:
  assumes run: "getrandom_loop p left s = Some r"
    and finished: "\<And>p left s. \<not> 0 < left \<Longrightarrow> P p left s (Inr s)"
    and failed: "\<And>p left s s'. 0 < left \<Longrightarrow> sys_getrandom p (nat left) s = Some (- 1, s') \<Longrightarrow>
        errno s' \<noteq> EINTR \<Longrightarrow> P p left s (Inl s')"
    and retry: "\<And>p left s s' r. 0 < left \<Longrightarrow> sys_getrandom p (nat left) s = Some (- 1, s') \<Longrightarrow>
        errno s' = EINTR \<Longrightarrow> getrandom_loop p left s' = Some r \<Longrightarrow> P p left s' r \<Longrightarrow>
        P p left s r"
    and progress: "\<And>p left s ret s' r. 0 < left \<Longrightarrow>
        sys_getrandom p (nat left) s = Some (ret, s') \<Longrightarrow> ret \<noteq> - 1 \<Longrightarrow>
        getrandom_loop (p + nat ret) (left - ret) s' = Some r \<Longrightarrow>
        P (p + nat ret) (left - ret) s' r \<Longrightarrow> P p left s r"
  shows "P p left s r"
  using run
proof (induction p left s arbitrary: r rule: getrandom_loop.induct)
  case (1 p left s)
  show ?case
  proof (cases "0 < left")
    case False
    with "1.prems" finished show ?thesis by (auto simp: getrandom_loop.simps)
  next
    case True
    from "1.prems" True obtain ret s' where
      call: "sys_getrandom p (nat left) s = Some (ret, s')"
      by (auto simp: getrandom_loop.simps[of p left s] split: option.splits)
    show ?thesis
    proof (cases "ret = - 1")
      case neg: True
      show ?thesis
      proof (cases "errno s' = EINTR")
        case eintr: True
        with "1.prems" True call neg have again: "getrandom_loop p left s' = Some r"
          by (simp add: getrandom_loop.simps[of p left s])
        from "1.IH"(1)[OF True call refl neg eintr again]
        show ?thesis using retry True call neg eintr again by blast
      next
        case False
        with "1.prems" True call neg have "r = Inl s'"
          by (simp add: getrandom_loop.simps[of p left s])
        with failed True call neg False show ?thesis by blast
      qed
    next
      case False
      with "1.prems" True call
      have again: "getrandom_loop (p + nat ret) (left - ret) s' = Some r"
        by (simp add: getrandom_loop.simps[of p left s])
      from "1.IH"(2)[OF True call refl False again]
      show ?thesis using progress True call False again by blast
    qed
  qed
qed

lemma getrandom_loop_fills:
  assumes "getrandom_loop p left s = Some r"
  shows "\<exists>evs. fills Syscall p (nat left) s r evs"
  using assms
proof (induction rule: getrandom_loop_induct)
  case (finished p left s)
  then have "nat left = 0" by simp
  then show ?case using fills_finished[of Syscall p s] by auto
next
  case (failed p left s s')
  let ?ev = "Ev_getrandom p (nat left) (Inl (errno s'))"
  from failed(2) have "trace s' = trace s @ [?ev]" "mem s' = mem s"
    "getrandom_available s' = getrandom_available s"
    by (auto elim: sys_getrandom_failE)
  then have "fills Syscall p (nat left) s (Inl s') [?ev]"
    by (rule fills_noop) (simp_all add: fills_exit)
  then show ?case ..
next
  case (retry p left s s' r)
  let ?ev = "Ev_getrandom p (nat left) (Inl (errno s'))"
  from retry.IH obtain evs where evs: "fills Syscall p (nat left) s' r evs" ..
  from retry(2) have "trace s' = trace s @ [?ev]" "mem s' = mem s"
    "getrandom_available s' = getrandom_available s"
    by (auto elim: sys_getrandom_failE)
  then have "fills Syscall p (nat left) s r (?ev # evs)"
    by (rule fills_noop) (simp_all add: evs)
  then show ?case ..
next
  case (progress p left s ret s' r)
  from progress(2,3) obtain w where w: "ret = int (length w)" "length w \<le> nat left"
    "mem s' = store_bytes (mem s) p w" "trace s' = trace s @ [Ev_getrandom p (nat left) (Inr w)]"
    "getrandom_available s' = getrandom_available s" "errno s' = errno s"
    by (rule sys_getrandom_okE)
  from progress.IH obtain evs where "fills Syscall (p + nat ret) (nat (left - ret)) s' r evs" ..
  moreover have "nat (left - ret) = nat left - length w" "nat ret = length w"
    using w(1) by simp_all
  ultimately have "fills Syscall (p + length w) (nat left - length w) s' r evs"
    by simp
  with w(4,3,5) have "fills Syscall p (nat left) s r (Ev_getrandom p (nat left) (Inr w) # evs)"
    by (rule fills_store[where w = w]) (simp_all add: w(2))
  then show ?case ..
qed

text \<open>The early return of the loop leaves the \<open>errno\<close> of the failed call.\<close>

lemma getrandom_loop_failed:
  assumes "getrandom_loop p left s = Some (Inl s')"
  shows "errno s' \<noteq> EINTR
    \<and> (\<exists>evs q k. trace s' = trace s @ evs @ [Ev_getrandom q k (Inl (errno s'))])"
proof -
  have "\<forall>s'. r = Inl s' \<longrightarrow> errno s' \<noteq> EINTR
      \<and> (\<exists>evs q k. trace s' = trace s @ evs @ [Ev_getrandom q k (Inl (errno s'))])"
    if "getrandom_loop p left s = Some r" for r
    using that
  proof (induction rule: getrandom_loop_induct)
    case (finished p left s)
    show ?case by simp
  next
    case (failed p left s s')
    from failed(2) have "trace s' = trace s @ [] @ [Ev_getrandom p (nat left) (Inl (errno s'))]"
      by (auto elim: sys_getrandom_failE)
    with failed(3) show ?case by blast
  next
    case (retry p left s s' r)
    from retry(2) have tr: "trace s' = trace s @ [Ev_getrandom p (nat left) (Inl (errno s'))]"
      by (rule sys_getrandom_failE)
    show ?case
    proof (intro allI impI)
      fix t assume "r = Inl t"
      with retry.IH obtain evs q k where "errno t \<noteq> EINTR"
        "trace t = trace s' @ evs @ [Ev_getrandom q k (Inl (errno t))]"
        by blast
      then show "errno t \<noteq> EINTR
        \<and> (\<exists>evs q k. trace t = trace s @ evs @ [Ev_getrandom q k (Inl (errno t))])"
        using tr by (intro conjI exI[of _ "Ev_getrandom p (nat left) (Inl (errno s')) # evs"]) auto
    qed
  next
    case (progress p left s ret s' r)
    from progress(2,3) obtain w where
      tr: "trace s' = trace s @ [Ev_getrandom p (nat left) (Inr w)]"
      by (rule sys_getrandom_okE)
    show ?case
    proof (intro allI impI)
      fix t assume "r = Inl t"
      with progress.IH obtain evs q k where "errno t \<noteq> EINTR"
        "trace t = trace s' @ evs @ [Ev_getrandom q k (Inl (errno t))]"
        by blast
      then show "errno t \<noteq> EINTR
        \<and> (\<exists>evs q k. trace t = trace s @ evs @ [Ev_getrandom q k (Inl (errno t))])"
        using tr by (intro conjI exI[of _ "Ev_getrandom p (nat left) (Inr w) # evs"]) auto
    qed
  qed
  with assms show ?thesis by blast
qed

subsection \<open>read\<close>

lemma sys_read_cases:
  assumes "sys_read fd p k s = Some (ret, s')"
  obtains (fail) e rs where "read_rs s = Inl e # rs" "ret = - 1"
      "s' = s\<lparr>errno := e, read_rs := rs, trace := trace s @ [Ev_read fd p k (Inl e)]\<rparr>"
    | (ok) bs rs where "read_rs s = Inr bs # rs" "ret = int (length (take k bs))"
      "s' = s\<lparr>mem := store_bytes (mem s) p (take k bs), read_rs := rs,
               trace := trace s @ [Ev_read fd p k (Inr (take k bs))]\<rparr>"
  using assms by (auto simp: sys_read_def Let_def split: list.splits sum.splits)

lemma sys_read_failE:
  assumes "sys_read fd p k s = Some (- 1, s')"
  obtains "trace s' = trace s @ [Ev_read fd p k (Inl (errno s'))]"
    "mem s' = mem s" "getrandom_available s' = getrandom_available s"
    "read_rs s = Inl (errno s') # read_rs s'"
  using assms
proof (cases rule: sys_read_cases)
  case (fail e rs)
  then show ?thesis using that by simp
next
  case (ok bs rs)
  then show ?thesis by simp
qed

lemma sys_read_okE:
  assumes "sys_read fd p k s = Some (ret, s')" "ret \<noteq> - 1"
  obtains w where "ret = int (length w)" "length w \<le> k"
    "mem s' = store_bytes (mem s) p w" "trace s' = trace s @ [Ev_read fd p k (Inr w)]"
    "getrandom_available s' = getrandom_available s" "errno s' = errno s"
  using assms(1)
proof (cases rule: sys_read_cases)
  case (fail e rs)
  with assms(2) show ?thesis by simp
next
  case (ok bs rs)
  then show ?thesis using that[of "take k bs"] by simp
qed

lemma urandom_read_loop_induct [consumes 1, case_names finished failed retry progress]:
  assumes run: "urandom_read_loop fd buf len i s = Some r"
    and finished: "\<And>fd buf len i s. \<not> i < len \<Longrightarrow> P fd buf len i s (Inr s)"
    and failed: "\<And>fd buf len i s s'. i < len \<Longrightarrow>
        sys_read fd (buf + i) (len - i) s = Some (- 1, s') \<Longrightarrow>
        \<not> (errno s' = EAGAIN \<or> errno s' = EINTR) \<Longrightarrow> P fd buf len i s (Inl s')"
    and retry: "\<And>fd buf len i s s' r. i < len \<Longrightarrow>
        sys_read fd (buf + i) (len - i) s = Some (- 1, s') \<Longrightarrow>
        errno s' = EAGAIN \<or> errno s' = EINTR \<Longrightarrow>
        urandom_read_loop fd buf len i s' = Some r \<Longrightarrow> P fd buf len i s' r \<Longrightarrow>
        P fd buf len i s r"
    and progress: "\<And>fd buf len i s ret s' r. i < len \<Longrightarrow>
        sys_read fd (buf + i) (len - i) s = Some (ret, s') \<Longrightarrow> ret \<noteq> - 1 \<Longrightarrow>
        urandom_read_loop fd buf len (i + nat ret) s' = Some r \<Longrightarrow>
        P fd buf len (i + nat ret) s' r \<Longrightarrow> P fd buf len i s r"
  shows "P fd buf len i s r"
  using run
proof (induction fd buf len i s arbitrary: r rule: urandom_read_loop.induct)
  case (1 fd buf len i s)
  show ?case
  proof (cases "i < len")
    case False
    with "1.prems" finished show ?thesis by (auto simp: urandom_read_loop.simps)
  next
    case True
    from "1.prems" True obtain ret s' where
      call: "sys_read fd (buf + i) (len - i) s = Some (ret, s')"
      by (auto simp: urandom_read_loop.simps[of fd buf len i s] Let_def split: option.splits)
    show ?thesis
    proof (cases "ret = - 1")
      case neg: True
      show ?thesis
      proof (cases "errno s' = EAGAIN \<or> errno s' = EINTR")
        case again: True
        with "1.prems" True call neg have run': "urandom_read_loop fd buf len i s' = Some r"
          by (auto simp: urandom_read_loop.simps[of fd buf len i s])
        from "1.IH"(1)[OF True refl call refl neg again run']
        show ?thesis using retry True call neg again run' by blast
      next
        case False
        with "1.prems" True call neg have "r = Inl s'"
          by (auto simp: urandom_read_loop.simps[of fd buf len i s])
        with failed True call neg False show ?thesis by blast
      qed
    next
      case False
      with "1.prems" True call
      have run': "urandom_read_loop fd buf len (i + nat ret) s' = Some r"
        by (simp add: urandom_read_loop.simps[of fd buf len i s])
      from "1.IH"(2)[OF True refl call refl False run']
      show ?thesis using progress True call False run' by blast
    qed
  qed
qed

lemma urandom_read_loop_fills:
  assumes "urandom_read_loop fd buf len i s = Some r"
  shows "\<exists>evs. fills Device (buf + i) (len - i) s r evs"
  using assms
proof (induction rule: urandom_read_loop_induct)
  case (finished fd buf len i s)
  then have "len - i = 0" by simp
  then show ?case using fills_finished[of Device "buf + i" s] by auto
next
  case (failed fd buf len i s s')
  let ?ev = "Ev_read fd (buf + i) (len - i) (Inl (errno s'))"
  from failed(2) have "trace s' = trace s @ [?ev]" "mem s' = mem s"
    "getrandom_available s' = getrandom_available s"
    by (auto elim: sys_read_failE)
  then have "fills Device (buf + i) (len - i) s (Inl s') [?ev]"
    by (rule fills_noop) (simp_all add: fills_exit)
  then show ?case ..
next
  case (retry fd buf len i s s' r)
  let ?ev = "Ev_read fd (buf + i) (len - i) (Inl (errno s'))"
  from retry.IH obtain evs where evs: "fills Device (buf + i) (len - i) s' r evs" ..
  from retry(2) have "trace s' = trace s @ [?ev]" "mem s' = mem s"
    "getrandom_available s' = getrandom_available s"
    by (auto elim: sys_read_failE)
  then have "fills Device (buf + i) (len - i) s r (?ev # evs)"
    by (rule fills_noop) (simp_all add: evs)
  then show ?case ..
next
  case (progress fd buf len i s ret s' r)
  from progress(2,3) obtain w where w: "ret = int (length w)" "length w \<le> len - i"
    "mem s' = store_bytes (mem s) (buf + i) w"
    "trace s' = trace s @ [Ev_read fd (buf + i) (len - i) (Inr w)]"
    "getrandom_available s' = getrandom_available s" "errno s' = errno s"
    by (rule sys_read_okE)
  from progress.IH obtain evs where "fills Device (buf + (i + nat ret)) (len - (i + nat ret)) s' r evs" ..
  moreover have "buf + (i + nat ret) = buf + i + length w" "len - (i + nat ret) = len - i - length w"
    using w(1) by simp_all
  ultimately have "fills Device (buf + i + length w) (len - i - length w) s' r evs"
    by simp
  with w(4,3,5) have "fills Device (buf + i) (len - i) s r (Ev_read fd (buf + i) (len - i) (Inr w) # evs)"
    by (rule fills_store[where w = w]) (simp_all add: w(2))
  then show ?case ..
qed

subsection \<open>sysctl\<close>

lemma sys_sysctl_cases:
  assumes "sys_sysctl p k s = Some ((ret, k'), s')"
  obtains (fail) e rs where "sysctl_rs s = Inl e # rs" "ret = - 1"
      "s' = s\<lparr>errno := e, sysctl_rs := rs, trace := trace s @ [Ev_sysctl p k (Inl e)]\<rparr>"
    | (ok) bs rs where "sysctl_rs s = Inr bs # rs" "ret = 0" "k' = length (take k bs)"
      "s' = s\<lparr>mem := store_bytes (mem s) p (take k bs), sysctl_rs := rs,
               trace := trace s @ [Ev_sysctl p k (Inr (take k bs))]\<rparr>"
  using assms by (auto simp: sys_sysctl_def Let_def split: list.splits sum.splits)

lemma sys_sysctl_failE:
  assumes "sys_sysctl p k s = Some ((ret, k'), s')" "ret \<noteq> 0"
  obtains "trace s' = trace s @ [Ev_sysctl p k (Inl (errno s'))]"
    "mem s' = mem s" "getrandom_available s' = getrandom_available s"
    "sysctl_rs s = Inl (errno s') # sysctl_rs s'"
  using assms(1)
proof (cases rule: sys_sysctl_cases)
  case (fail e rs)
  then show ?thesis using that by simp
next
  case (ok bs rs)
  with assms(2) show ?thesis by simp
qed

lemma sys_sysctl_okE:
  assumes "sys_sysctl p k s = Some ((0, k'), s')"
  obtains w where "k' = length w" "length w \<le> k"
    "mem s' = store_bytes (mem s) p w" "trace s' = trace s @ [Ev_sysctl p k (Inr w)]"
    "getrandom_available s' = getrandom_available s" "errno s' = errno s"
  using assms(1)
proof (cases rule: sys_sysctl_cases)
  case (fail e rs)
  then show ?thesis by simp
next
  case (ok bs rs)
  then show ?thesis using that[of "take k bs"] by simp
qed

lemma sysctl_loop_induct [consumes 1, case_names finished failed progress]:
  assumes run: "sysctl_loop buf len i s = Some r"
    and finished: "\<And>buf len i s. \<not> i < len \<Longrightarrow> P buf len i s (Inr s)"
    and failed: "\<And>buf len i s ret chunk' s'. i < len \<Longrightarrow>
        sys_sysctl (buf + i) (min_sz (len - i) 16) s = Some ((ret, chunk'), s') \<Longrightarrow>
        ret \<noteq> 0 \<Longrightarrow> P buf len i s (Inl s')"
    and progress: "\<And>buf len i s chunk' s' r. i < len \<Longrightarrow>
        sys_sysctl (buf + i) (min_sz (len - i) 16) s = Some ((0, chunk'), s') \<Longrightarrow>
        sysctl_loop buf len (i + chunk') s' = Some r \<Longrightarrow>
        P buf len (i + chunk') s' r \<Longrightarrow> P buf len i s r"
  shows "P buf len i s r"
  using run
proof (induction buf len i s arbitrary: r rule: sysctl_loop.induct)
  case (1 buf len i s)
  show ?case
  proof (cases "i < len")
    case False
    with "1.prems" finished show ?thesis by (auto simp: sysctl_loop.simps)
  next
    case True
    from "1.prems" True obtain ret chunk' s' where
      call: "sys_sysctl (buf + i) (min_sz (len - i) 16) s = Some ((ret, chunk'), s')"
      by (auto simp: sysctl_loop.simps[of buf len i s] Let_def split: option.splits)
    show ?thesis
    proof (cases "ret = 0")
      case False
      with "1.prems" True call have "r = Inl s'"
        by (auto simp: sysctl_loop.simps[of buf len i s])
      with failed True call False show ?thesis by blast
    next
      case zero: True
      with "1.prems" True call
      have run': "sysctl_loop buf len (i + chunk') s' = Some r"
        by (simp add: sysctl_loop.simps[of buf len i s])
      from "1.IH"[OF True refl call refl refl _ run'] zero
      show ?thesis using progress True call zero run' by blast
    qed
  qed
qed

lemma min_sz_le: "min_sz a b \<le> a"
  by (simp add: min_sz_def)

lemma sysctl_loop_fills:
  assumes "sysctl_loop buf len i s = Some r"
  shows "\<exists>evs. fills Control (buf + i) (len - i) s r evs"
  using assms
proof (induction rule: sysctl_loop_induct)
  case (finished buf len i s)
  then have "len - i = 0" by simp
  then show ?case using fills_finished[of Control "buf + i" s] by auto
next
  case (failed buf len i s ret chunk' s')
  let ?ev = "Ev_sysctl (buf + i) (min_sz (len - i) 16) (Inl (errno s'))"
  from failed(2,3) have "trace s' = trace s @ [?ev]" "mem s' = mem s"
    "getrandom_available s' = getrandom_available s"
    by (auto elim: sys_sysctl_failE)
  then have "fills Control (buf + i) (len - i) s (Inl s') [?ev]"
    by (rule fills_noop) (simp_all add: fills_exit)
  then show ?case ..
next
  case (progress buf len i s chunk' s' r)
  let ?c = "min_sz (len - i) 16"
  from progress(2) obtain w where w: "chunk' = length w" "length w \<le> ?c"
    "mem s' = store_bytes (mem s) (buf + i) w"
    "trace s' = trace s @ [Ev_sysctl (buf + i) ?c (Inr w)]"
    "getrandom_available s' = getrandom_available s" "errno s' = errno s"
    by (rule sys_sysctl_okE)
  have le: "length w \<le> len - i" using w(2) min_sz_le[of "len - i" 16] by simp
  from progress.IH obtain evs where "fills Control (buf + (i + chunk')) (len - (i + chunk')) s' r evs" ..
  moreover have "buf + (i + chunk') = buf + i + length w" "len - (i + chunk') = len - i - length w"
    using w(1) by simp_all
  ultimately have "fills Control (buf + i + length w) (len - i - length w) s' r evs"
    by simp
  with w(4,3,5) have "fills Control (buf + i) (len - i) s r (Ev_sysctl (buf + i) ?c (Inr w) # evs)"
    by (rule fills_store[where w = w]) (simp_all add: le)
  then show ?case ..
qed

subsection \<open>Calls around a loop\<close>

lemma quiet_simps [simp]:
  "quiet Syscall (Ev_getrandom p k (Inl e))"
  "quiet Device (Ev_open path fl r)"
  "quiet Device (Ev_fstat fd rf)"
  "quiet Device (Ev_ioctl fd ri)"
  "quiet Device (Ev_read fd p k (Inl e))"
  "quiet Device (Ev_close fd)"
  "quiet Control (Ev_sysctl p k (Inl e))"
  by (simp_all add: quiet_def)

lemma quiet_bytes: "\<forall>e \<in> set evs. quiet k e \<Longrightarrow> concat (map event_bytes evs) = []"
  by (induction evs) (auto simp: quiet_def)

lemma quiet_written: "\<forall>e \<in> set evs. quiet k e \<Longrightarrow> written evs = {}"
  by (induction evs) (auto simp: quiet_def)

lemma fills_before:
  assumes "trace s' = trace s @ [ev]" "mem s' = mem s"
    "getrandom_available s' = getrandom_available s"
    and "fills k p n s' r evs" and "quiet k ev"
  shows "fills k p n s r (ev # evs)"
  using assms by (intro fills_noop[where s' = s']) (simp_all add: quiet_def)

lemma fills_after_Inr:
  assumes "fills k p n s (Inr u) evs"
    and "trace t = trace u @ evs'" "mem t = mem u"
    "getrandom_available t = getrandom_available u"
    and "\<forall>e \<in> set evs'. quiet k e"
  shows "fills k p n s (Inr t) (evs @ evs')"
  using assms quiet_bytes[of evs' k] quiet_written[of evs' k]
  unfolding fills_def by (auto simp: quiet_def)

lemma fills_after_Inl:
  assumes "fills k p n s r evs"
    and "trace t = trace (final r) @ evs'" "mem t = mem (final r)"
    "getrandom_available t = getrandom_available (final r)"
    and "\<forall>e \<in> set evs'. quiet k e"
  shows "fills k p n s (Inl t) (evs @ evs')"
  using assms quiet_written[of evs' k]
  unfolding fills_def by (auto simp: quiet_def)

subsection \<open>The three helpers\<close>

lemma getentropy_getrandom_fills:
  assumes "getentropy_getrandom buf len s = Some (ret, s')"
  shows "(ret = 0 \<or> ret = - 1) \<and> (\<exists>evs. fills Syscall buf len s (returned ret s') evs)
    \<and> (ret = 0 \<longrightarrow> errno s' = errno s)
    \<and> (ret = - 1 \<longrightarrow> errno s' \<noteq> EINTR
          \<and> (\<exists>evs q k. trace s' = trace s @ evs @ [Ev_getrandom q k (Inl (errno s'))]))"
proof -
  from assms obtain r where loop: "getrandom_loop buf (int len) s = Some r"
    by (auto simp: getentropy_getrandom_def split: option.splits)
  then obtain evs where evs: "fills Syscall buf len s r evs"
    using getrandom_loop_fills by fastforce
  show ?thesis
  proof (cases r)
    case (Inl t)
    with assms loop have "ret = - 1" "s' = t"
      by (simp_all add: getentropy_getrandom_def)
    with evs Inl loop getrandom_loop_failed[of buf "int len" s t] show ?thesis
      by (auto simp: returned_def)
  next
    case (Inr t)
    with assms loop have r: "ret = 0" "s' = t\<lparr>errno := errno s\<rparr>"
      by (simp_all add: getentropy_getrandom_def)
    from evs Inr have "fills Syscall buf len s (Inr s') ([] @ evs)"
      unfolding r fills_def by simp
    with r show ?thesis by (auto simp: returned_def)
  qed
qed

lemma getentropy_sysctl_fills:
  assumes "getentropy_sysctl buf len s = Some (ret, s')"
  shows "(ret = 0 \<or> ret = - 1) \<and> (\<exists>evs. fills Control buf len s (returned ret s') evs)"
proof -
  from assms obtain r where loop: "sysctl_loop buf len 0 s = Some r"
    by (auto simp: getentropy_sysctl_def split: option.splits)
  then obtain evs where evs: "fills Control buf len s r evs"
    using sysctl_loop_fills[of buf len 0 s r] by auto
  show ?thesis
  proof (cases r)
    case (Inl t)
    with assms loop have r: "ret = - 1" "s' = t\<lparr>errno := EIO\<rparr>"
      by (simp_all add: getentropy_sysctl_def)
    from evs Inl have "fills Control buf len s (Inl s') evs"
      unfolding r fills_def by simp
    with r show ?thesis by (auto simp: returned_def)
  next
    case (Inr t)
    with assms loop have r: "ret = 0" "s' = t\<lparr>errno := errno s\<rparr>"
      by (simp_all add: getentropy_sysctl_def)
    from evs Inr have "fills Control buf len s (Inr s') evs"
      unfolding r fills_def by simp
    with r show ?thesis by (auto simp: returned_def)
  qed
qed


lemma sys_open_step:
  assumes "sys_open path fl s = Some (fd, s1)"
  obtains res where "trace s1 = trace s @ [Ev_open path fl res]" "mem s1 = mem s"
    "getrandom_available s1 = getrandom_available s"
  using assms by (auto simp: sys_open_def split: list.splits sum.splits)

lemma sys_fstat_step:
  assumes "sys_fstat fd s = Some (x, s1)"
  obtains ev where "trace s1 = trace s @ [ev]" "quiet Device ev" "mem s1 = mem s"
    "getrandom_available s1 = getrandom_available s"
  using assms by (auto simp: sys_fstat_def split: list.splits sum.splits)

lemma sys_ioctl_step:
  assumes "sys_ioctl_RNDGETENTCNT fd s = Some (x, s1)"
  obtains ev where "trace s1 = trace s @ [ev]" "quiet Device ev" "mem s1 = mem s"
    "getrandom_available s1 = getrandom_available s"
  using assms by (auto simp: sys_ioctl_RNDGETENTCNT_def split: list.splits sum.splits)

lemma nodevrandom_close_fills:
  "fills Device p n s (Inl (snd (nodevrandom (sys_close fd s)))) [Ev_close fd]"
  using fills_after_Inl[OF fills_exit[of Device p n s], of _ "[Ev_close fd]"]
  by (simp add: nodevrandom_def sys_close_def)

lemma getentropy_urandom_start_fills:
  assumes "getentropy_urandom_start buf len e0 s = Some (ret, s')"
  shows "(ret = 0 \<or> ret = - 1)
    \<and> (\<exists>res evs. fills Device buf len s (returned ret s')
          (Ev_open ''/dev/urandom'' urandom_flags res # evs))
    \<and> (ret = - 1 \<longrightarrow> errno s' = EIO) \<and> (ret = 0 \<longrightarrow> errno s' = e0)"
  using assms
proof (induction buf len e0 s arbitrary: ret s' rule: getentropy_urandom_start.induct)
  case (1 buf len e0 s)
  let ?goal = "\<lambda>s. (ret = 0 \<or> ret = - 1) \<and> (\<exists>evs. fills Device buf len s (returned ret s') evs)
    \<and> (ret = - 1 \<longrightarrow> errno s' = EIO) \<and> (ret = 0 \<longrightarrow> errno s' = e0)"
  note run = "1.prems"[unfolded getentropy_urandom_start.simps[of buf len e0 s]]
  from run obtain fd s1 where op: "sys_open ''/dev/urandom'' urandom_flags s = Some (fd, s1)"
    by (auto split: option.splits)
  from op obtain res where ev1: "trace s1 = trace s @ [Ev_open ''/dev/urandom'' urandom_flags res]"
    "mem s1 = mem s" "getrandom_available s1 = getrandom_available s"
    by (rule sys_open_step)
  have lift1: ?case if "?goal s1"
    using that fills_before[OF ev1 _ quiet_simps(2)] by blast
  show ?case
  proof (cases "fd = - 1")
    case True
    show ?thesis
    proof (cases "errno s1 = EINTR")
      case eintr: True
      with run op True have "getentropy_urandom_start buf len e0 s1 = Some (ret, s')"
        by simp
      from "1.IH"[OF op refl True eintr this] have "?goal s1" by blast
      then show ?thesis by (rule lift1)
    next
      case False
      with run op True have r: "ret = - 1" "s' = s1\<lparr>errno := EIO\<rparr>"
        by (simp_all add: nodevrandom_def)
      have "fills Device buf len s1 (Inl s') ([] @ [])"
        unfolding r by (rule fills_after_Inl[OF fills_exit[of Device buf len s1]]) simp_all
      with r have "?goal s1" by (auto simp: returned_def)
      then show ?thesis by (rule lift1)
    qed
  next
    case opened: False
    from run op opened obtain r m s2 where fs: "sys_fstat fd s1 = Some ((r, m), s2)"
      by (auto split: option.splits)
    from fs obtain ev2 where ev2: "trace s2 = trace s1 @ [ev2]" "quiet Device ev2"
      "mem s2 = mem s1" "getrandom_available s2 = getrandom_available s1"
      by (rule sys_fstat_step)
    have lift2: "?goal s1" if "?goal s2"
      using that fills_before[OF ev2(1,3,4) _ ev2(2)] by blast
    show ?thesis
    proof (cases "r = - 1 \<or> \<not> S_ISCHR m")
      case True
      with run op opened fs have r: "ret = - 1" "s' = snd (nodevrandom (sys_close fd s2))"
        by (auto simp: nodevrandom_def)
      have "errno s' = EIO" by (simp add: r nodevrandom_def)
      with r nodevrandom_close_fills[of buf len s2 fd] have "?goal s2"
        by (auto simp: returned_def)
      then show ?thesis by (intro lift1 lift2)
    next
      case chr: False
      with run op opened fs obtain r' s3 where io: "sys_ioctl_RNDGETENTCNT fd s2 = Some (r', s3)"
        by (auto split: option.splits)
      from io obtain ev3 where ev3: "trace s3 = trace s2 @ [ev3]" "quiet Device ev3"
        "mem s3 = mem s2" "getrandom_available s3 = getrandom_available s2"
        by (rule sys_ioctl_step)
      have lift3: "?goal s2" if "?goal s3"
        using that fills_before[OF ev3(1,3,4) _ ev3(2)] by blast
      show ?thesis
      proof (cases "r' = - 1")
        case True
        with run op opened fs chr io
        have r: "ret = - 1" "s' = snd (nodevrandom (sys_close fd s3))"
          by (auto simp: nodevrandom_def)
        have "errno s' = EIO" by (simp add: r nodevrandom_def)
        with r nodevrandom_close_fills[of buf len s3 fd] have "?goal s3"
          by (auto simp: returned_def)
        then show ?thesis by (intro lift1 lift2 lift3)
      next
        case ioctl_ok: False
        with run op opened fs chr io obtain rr where
          rd: "urandom_read_loop fd buf len 0 s3 = Some rr"
          by (auto split: option.splits)
        from urandom_read_loop_fills[OF rd] obtain evs where
          evs: "fills Device buf len s3 rr evs" by auto
        have "?goal s3"
        proof (cases rr)
          case (Inl s4)
          with run op opened fs chr io ioctl_ok rd
          have r: "ret = - 1" "s' = snd (nodevrandom (sys_close fd s4))"
            by (auto simp: nodevrandom_def)
          have "fills Device buf len s3 (Inl s') (evs @ [Ev_close fd])"
            using evs Inl unfolding r
            by (intro fills_after_Inl[where r = rr]) (simp_all add: nodevrandom_def sys_close_def)
          moreover have "errno s' = EIO" by (simp add: r nodevrandom_def)
          ultimately show ?thesis using r by (auto simp: returned_def)
        next
          case (Inr s4)
          with run op opened fs chr io ioctl_ok rd
          have r: "ret = 0" "s' = (sys_close fd s4)\<lparr>errno := e0\<rparr>"
            by auto
          have "fills Device buf len s3 (Inr s') (evs @ [Ev_close fd])"
            using evs Inr unfolding r
            by (intro fills_after_Inr[where u = s4]) (simp_all add: sys_close_def)
          moreover have "errno s' = e0" by (simp add: r)
          ultimately show ?thesis using r by (auto simp: returned_def)
        qed
        then show ?thesis by (intro lift1 lift2 lift3)
      qed
    qed
  qed
qed

lemma getentropy_urandom_fills:
  assumes "getentropy_urandom buf len s = Some (ret, s')"
  shows "(ret = 0 \<or> ret = - 1)
    \<and> (\<exists>res evs. fills Device buf len s (returned ret s')
          (Ev_open ''/dev/urandom'' urandom_flags res # evs))"
  using getentropy_urandom_start_fills[of buf len "errno s" s ret s'] assms
  by (simp add: getentropy_urandom_def)

subsection \<open>The bytes and the order of a run\<close>

lemma delivered_append: "delivered k (xs @ ys) = delivered k xs @ delivered k ys"
  by (simp add: delivered_def)

lemma delivered_all:
  "\<forall>e \<in> set evs. strategy_of e = k \<Longrightarrow> delivered k evs = concat (map event_bytes evs)"
  by (induction evs) (simp_all add: delivered_def)

lemma delivered_none: "\<forall>e \<in> set evs. strategy_of e \<noteq> k \<Longrightarrow> delivered k evs = []"
  by (induction evs) (simp_all add: delivered_def)

lemma in_step_order_same: "\<forall>e \<in> set evs. strategy_of e = k \<Longrightarrow> in_step_order evs"
  by (induction evs) (simp_all add: in_step_order_def)

lemma in_step_order_append:
  "in_step_order xs \<Longrightarrow> in_step_order ys \<Longrightarrow>
   \<forall>x \<in> set xs. \<forall>y \<in> set ys. step_no (strategy_of x) \<le> step_no (strategy_of y) \<Longrightarrow>
   in_step_order (xs @ ys)"
  by (simp add: in_step_order_def sorted_append)

lemma events_since_append: "trace s' = trace s @ evs \<Longrightarrow> events_since s s' = evs"
  by (simp add: events_since_def)

text \<open>What lines 94 to 128 do, in terms of the trace.\<close>

lemma ggentropy_fallback_effect:
  assumes "ggentropy_fallback cfg buf n s = Some (r, s')"
  shows "\<exists>evs. trace s' = trace s @ evs \<and> (\<forall>e \<in> set evs. strategy_of e \<noteq> Syscall)
     \<and> in_step_order evs \<and> written evs \<subseteq> {buf ..< buf + n}
     \<and> (\<forall>a. a < buf \<or> buf + n \<le> a \<longrightarrow> mem s' a = mem s a)
     \<and> getrandom_available s' = getrandom_available s
     \<and> (r \<longrightarrow> written evs = {buf ..< buf + n}
           \<and> (load_bytes (mem s') buf n = delivered Device evs
              \<or> load_bytes (mem s') buf n = delivered Control evs))"
proof -
  from assms obtain ret s2 where ur: "getentropy_urandom buf n s = Some (ret, s2)"
    by (auto simp: ggentropy_fallback_def split: option.splits)
  from getentropy_urandom_fills[OF ur] obtain evsB where
    B: "fills Device buf n s (returned ret s2) evsB" and ret: "ret = 0 \<or> ret = - 1"
    by auto
  have Bdev: "\<forall>e \<in> set evsB. strategy_of e = Device" using B by (simp add: fills_def)
  show ?thesis
  proof (cases "ret = - 1")
    case False
    with assms ur have r: "r" "s' = s2" by (simp_all add: ggentropy_fallback_def)
    from B False have "fills Device buf n s (Inr s') evsB" by (simp add: returned_def r)
    then show ?thesis
      using r(1) Bdev delivered_all[OF Bdev] in_step_order_same[OF Bdev]
      by (intro exI[of _ evsB]) (simp add: fills_def)
  next
    case True
    with B have B': "fills Device buf n s (Inl s2) evsB" by (simp add: returned_def)
    show ?thesis
    proof (cases "SYS__sysctl cfg")
      case False
      with assms ur True have r: "\<not> r" "s' = s2" by (simp_all add: ggentropy_fallback_def)
      from B' show ?thesis
        using r Bdev in_step_order_same[OF Bdev]
        by (intro exI[of _ evsB]) (simp add: fills_def)
    next
      case sysctl: True
      with assms ur True obtain ret' s3 where sc: "getentropy_sysctl buf n s2 = Some (ret', s3)"
        and r: "r = (ret' \<noteq> - 1)" "s' = s3"
        by (auto simp: ggentropy_fallback_def split: option.splits if_splits)
      from getentropy_sysctl_fills[OF sc] obtain evsC where
        C: "fills Control buf n s2 (returned ret' s3) evsC"
        by auto
      have Cctl: "\<forall>e \<in> set evsC. strategy_of e = Control" using C by (simp add: fills_def)
      have fin: "final (returned ret' s3) = s'" by (simp add: returned_def r)
      have tr: "trace s' = trace s @ evsB @ evsC"
        using B' C fin by (simp add: fills_def)
      have cls: "\<forall>e \<in> set (evsB @ evsC). strategy_of e \<noteq> Syscall"
        using Bdev Cctl by auto
      have ord: "in_step_order (evsB @ evsC)"
        using Bdev Cctl
        by (intro in_step_order_append in_step_order_same[OF Bdev] in_step_order_same[OF Cctl])
           simp
      have sub: "written (evsB @ evsC) \<subseteq> {buf ..< buf + n}"
        using B' C by (simp add: fills_def)
      have fr: "\<forall>a. a < buf \<or> buf + n \<le> a \<longrightarrow> mem s' a = mem s a"
        using B' C fin by (simp add: fills_def)
      have fl: "getrandom_available s' = getrandom_available s"
        using B' C fin by (simp add: fills_def)
      have ok: "written (evsB @ evsC) = {buf ..< buf + n}
          \<and> load_bytes (mem s') buf n = delivered Control (evsB @ evsC)" if "r"
      proof -
        from that r C have C': "fills Control buf n s2 (Inr s') evsC"
          by (simp add: returned_def)
        then have "written evsC = {buf ..< buf + n}"
          "load_bytes (mem s') buf n = concat (map event_bytes evsC)"
          by (simp_all add: fills_def)
        moreover have "delivered Control evsB = []"
          using Bdev by (intro delivered_none) simp
        ultimately show ?thesis
          using sub delivered_all[OF Cctl] by (auto simp: delivered_append)
      qed
      show ?thesis
        using tr cls ord sub fr fl ok by (intro exI[of _ "evsB @ evsC"]) blast
    qed
  qed
qed

text \<open>What one returned call of \<open>ggentropy\<close> on Linux does, in terms of the trace.\<close>

lemma ggentropy_linux_effect:
  assumes "ggentropy_linux cfg buf n s = Some (Inr (r, s'))"
  shows "\<exists>evs. trace s' = trace s @ evs
     \<and> in_step_order evs \<and> written evs \<subseteq> {buf ..< buf + n}
     \<and> (\<forall>a. a < buf \<or> buf + n \<le> a \<longrightarrow> mem s' a = mem s a)
     \<and> (getrandom_available s' \<longrightarrow> getrandom_available s)
     \<and> (\<not> getrandom_available s \<longrightarrow> (\<forall>e \<in> set evs. strategy_of e \<noteq> Syscall))
     \<and> (getrandom_available s \<and> \<not> getrandom_available s' \<longrightarrow>
           (\<exists>q k. Ev_getrandom q k (Inl ENOSYS) \<in> set evs))
     \<and> (r \<longrightarrow> written evs = {buf ..< buf + n}
           \<and> (load_bytes (mem s') buf n = delivered Syscall evs
              \<or> load_bytes (mem s') buf n = delivered Device evs
              \<or> load_bytes (mem s') buf n = delivered Control evs))"
proof -
  from assms have n: "n \<le> 256"
    by (auto simp: ggentropy_linux_def split: if_splits)
  show ?thesis
  proof (cases "SYS_getrandom cfg \<and> getrandom_available s")
    case False
    with assms n have "ggentropy_fallback cfg buf n s = Some (r, s')"
      by (auto simp: ggentropy_linux_def)
    from ggentropy_fallback_effect[OF this] False show ?thesis
      by (elim exE) (rule exI, auto)
  next
    case True
    with assms n obtain ret s1 where gr: "getentropy_getrandom buf n s = Some (ret, s1)"
      by (auto simp: ggentropy_linux_def split: option.splits)
    from getentropy_getrandom_fills[OF gr] obtain evsA where
      A: "fills Syscall buf n s (returned ret s1) evsA"
      and fail: "ret = - 1 \<longrightarrow> errno s1 \<noteq> EINTR
          \<and> (\<exists>evs q k. trace s1 = trace s @ evs @ [Ev_getrandom q k (Inl (errno s1))])"
      by auto
    have Asys: "\<forall>e \<in> set evsA. strategy_of e = Syscall" using A by (simp add: fills_def)
    have fin: "final (returned ret s1) = s1" by (simp add: returned_def)
    show ?thesis
    proof (cases "ret = - 1")
      case False
      with assms n True gr have r: "r" "s' = s1" by (simp_all add: ggentropy_linux_def)
      from A False have "fills Syscall buf n s (Inr s') evsA" by (simp add: returned_def r)
      then show ?thesis
        using r(1) True delivered_all[OF Asys] in_step_order_same[OF Asys]
        by (intro exI[of _ evsA]) (simp add: fills_def)
    next
      case neg: True
      with A have A': "fills Syscall buf n s (Inl s1) evsA" by (simp add: returned_def)
      show ?thesis
      proof (cases "errno s1 = ENOSYS")
        case False
        with assms n True gr neg have r: "\<not> r" "s' = s1"
          by (simp_all add: ggentropy_linux_def)
        from A' show ?thesis
          using r True in_step_order_same[OF Asys]
          by (intro exI[of _ evsA]) (simp add: fills_def)
      next
        case enosys: True
        let ?s1 = "s1\<lparr>getrandom_available := False\<rparr>"
        from assms n True gr neg enosys
        have "ggentropy_fallback cfg buf n ?s1 = Some (r, s')"
          by (auto simp: ggentropy_linux_def)
        from ggentropy_fallback_effect[OF this] obtain evsF where
          F: "trace s' = trace ?s1 @ evsF" "\<forall>e \<in> set evsF. strategy_of e \<noteq> Syscall"
            "in_step_order evsF" "written evsF \<subseteq> {buf ..< buf + n}"
            "\<forall>a. a < buf \<or> buf + n \<le> a \<longrightarrow> mem s' a = mem ?s1 a"
            "getrandom_available s' = getrandom_available ?s1"
            "r \<longrightarrow> written evsF = {buf ..< buf + n}
               \<and> (load_bytes (mem s') buf n = delivered Device evsF
                  \<or> load_bytes (mem s') buf n = delivered Control evsF)"
          by blast
        have trA: "trace s1 = trace s @ evsA" using A' by (simp add: fills_def)
        have tr: "trace s' = trace s @ evsA @ evsF" using F(1) trA by simp
        have ord: "in_step_order (evsA @ evsF)"
          using Asys F(2) by (intro in_step_order_append in_step_order_same[OF Asys] F(3)) simp
        have sub: "written (evsA @ evsF) \<subseteq> {buf ..< buf + n}"
          using A' F(4) by (simp add: fills_def)
        have fr: "\<forall>a. a < buf \<or> buf + n \<le> a \<longrightarrow> mem s' a = mem s a"
          using A' F(5) by (simp add: fills_def)
        from fail neg enosys trA have "\<exists>q k. Ev_getrandom q k (Inl ENOSYS) \<in> set evsA"
          by fastforce
        then have flip: "\<exists>q k. Ev_getrandom q k (Inl ENOSYS) \<in> set (evsA @ evsF)"
          by auto
        have dA: "delivered Device evsA = []" "delivered Control evsA = []"
          using Asys by (simp_all add: delivered_none)
        have ok: "r \<longrightarrow> written (evsA @ evsF) = {buf ..< buf + n}
               \<and> (load_bytes (mem s') buf n = delivered Device (evsA @ evsF)
                  \<or> load_bytes (mem s') buf n = delivered Control (evsA @ evsF))"
          using F(7) sub dA by (auto simp: delivered_append)
        show ?thesis
          using tr ord sub fr flip ok True F(6)
          by (intro exI[of _ "evsA @ evsF"]) auto
      qed
    qed
  qed
qed

subsection \<open>The other two platforms\<close>

lemma windows_effect:
  "ggentropy_windows (status, gen) buf n m = Inr (b, m') \<Longrightarrow>
   n \<le> 256 \<and> b = (\<not> FAILED status)
   \<and> m' = (if FAILED status then m else store_bytes m buf (map gen [0 ..< n]))"
  by (auto simp: ggentropy_windows_def BCryptGenRandom_def split: if_splits)

lemma arc4random_effect:
  "ggentropy_arc4random gen buf n m = Inr (b, m') \<Longrightarrow>
   n \<le> 256 \<and> b \<and> m' = store_bytes m buf (map gen [0 ..< n])"
  by (auto simp: ggentropy_arc4random_def arc4random_buf_def split: if_splits)

lemma load_store_bytes_gen: "load_bytes (store_bytes m p (map gen [0 ..< n])) p n = map gen [0 ..< n]"
  using load_store_bytes[of m p "map gen [0 ..< n]"] by simp

lemma ggentropy_fallback_opens:
  assumes "ggentropy_fallback cfg buf n s = Some (r, s')"
  shows "\<exists>res evs. trace s' = trace s @ Ev_open ''/dev/urandom'' urandom_flags res # evs"
proof -
  from assms obtain ret s2 where ur: "getentropy_urandom buf n s = Some (ret, s2)"
    by (auto simp: ggentropy_fallback_def split: option.splits)
  from getentropy_urandom_fills[OF ur] obtain res evsB where
    "fills Device buf n s (returned ret s2) (Ev_open ''/dev/urandom'' urandom_flags res # evsB)"
    by auto
  then have B: "trace s2 = trace s @ Ev_open ''/dev/urandom'' urandom_flags res # evsB"
    by (simp add: fills_def returned_def split: if_splits)
  show ?thesis
  proof (cases "ret = - 1 \<and> SYS__sysctl cfg")
    case False
    with assms ur have "s' = s2" by (auto simp: ggentropy_fallback_def split: if_splits)
    with B show ?thesis by blast
  next
    case True
    with assms ur obtain ret' where sc: "getentropy_sysctl buf n s2 = Some (ret', s')"
      by (auto simp: ggentropy_fallback_def split: option.splits if_splits)
    from getentropy_sysctl_fills[OF sc] obtain evsC where
      "fills Control buf n s2 (returned ret' s') evsC" by auto
    then have "trace s' = trace s2 @ evsC"
      by (simp add: fills_def returned_def split: if_splits)
    with B show ?thesis by simp
  qed
qed


text \<open>The equations that evaluate a run on a given script.\<close>

lemmas run_simps =
  ggentropy_linux_def ggentropy_fallback_def
  getentropy_getrandom_def getrandom_loop.simps sys_getrandom_def
  getentropy_urandom_def getentropy_urandom_start.simps urandom_read_loop.simps
  sys_open_def sys_fstat_def sys_ioctl_RNDGETENTCNT_def sys_read_def sys_close_def
  nodevrandom_def S_ISCHR_def urandom_flags_def
  getentropy_sysctl_def sysctl_loop.simps sys_sysctl_def min_sz_def
  initial_state_def Let_def

subsection \<open>The device strategy up to its checks\<close>

lemma getentropy_urandom_start_retry:
  assumes "open_rs s = Inl EINTR # os"
  shows "getentropy_urandom_start buf len e0 s =
     getentropy_urandom_start buf len e0
       (s\<lparr>errno := EINTR, open_rs := os,
          trace := trace s @ [Ev_open ''/dev/urandom'' urandom_flags (Inl EINTR)]\<rparr>)"
  using assms by (simp add: getentropy_urandom_start.simps[of buf len e0 s] sys_open_def)

lemma getentropy_urandom_start_retries:
  assumes "open_rs s = replicate k (Inl EINTR) @ os"
  shows "\<exists>t. getentropy_urandom_start buf len e0 s = getentropy_urandom_start buf len e0 t
    \<and> open_rs t = os \<and> mem t = mem s \<and> fstat_rs t = fstat_rs s \<and> ioctl_rs t = ioctl_rs s
    \<and> read_rs t = read_rs s
    \<and> trace t = trace s @ replicate k (Ev_open ''/dev/urandom'' urandom_flags (Inl EINTR))"
  using assms
proof (induction k arbitrary: s)
  case 0
  then show ?case by (intro exI[of _ s]) simp
next
  case (Suc k)
  let ?ev = "Ev_open ''/dev/urandom'' urandom_flags (Inl EINTR)"
  let ?s1 = "s\<lparr>errno := EINTR, open_rs := replicate k (Inl EINTR) @ os,
          trace := trace s @ [?ev]\<rparr>"
  from Suc.prems have "open_rs s = Inl EINTR # replicate k (Inl EINTR) @ os" by simp
  from getentropy_urandom_start_retry[OF this]
  have 1: "getentropy_urandom_start buf len e0 s = getentropy_urandom_start buf len e0 ?s1" .
  have "open_rs ?s1 = replicate k (Inl EINTR) @ os" by simp
  from Suc.IH[OF this] obtain t where
    t: "getentropy_urandom_start buf len e0 ?s1 = getentropy_urandom_start buf len e0 t"
    "open_rs t = os" "mem t = mem ?s1" "fstat_rs t = fstat_rs ?s1" "ioctl_rs t = ioctl_rs ?s1"
    "read_rs t = read_rs ?s1" "trace t = trace ?s1 @ replicate k ?ev"
    by blast
  have "trace t = trace s @ replicate (Suc k) ?ev"
    using t(7) by (simp add: replicate_append_same)
  with 1 t show ?case by (intro exI[of _ t]) simp
qed

lemma getentropy_urandom_start_rejected:
  assumes "open_rs t = Inr fd # os"
    and "(\<exists>e fs. fstat_rs t = Inl e # fs) \<or> (\<exists>m fs. fstat_rs t = Inr m # fs \<and> \<not> S_ISCHR m)
       \<or> (\<exists>m fs e is. fstat_rs t = Inr m # fs \<and> S_ISCHR m \<and> ioctl_rs t = Inl e # is)"
  shows "\<exists>s' io. getentropy_urandom_start buf len e0 t = Some (- 1, s')
    \<and> errno s' = EIO \<and> mem s' = mem t \<and> read_rs s' = read_rs t
    \<and> trace s' = trace t @ [Ev_open ''/dev/urandom'' urandom_flags (Inr fd),
                               Ev_fstat (int fd) (hd (fstat_rs t))] @ io @ [Ev_close (int fd)]
    \<and> (io = [] \<or> (\<exists>e. io = [Ev_ioctl (int fd) (Inl e)]))"
  using assms
  by (auto simp: getentropy_urandom_start.simps[of buf len e0 t] sys_open_def sys_fstat_def
      sys_ioctl_RNDGETENTCNT_def sys_close_def nodevrandom_def)

lemma getentropy_urandom_start_open_failed:
  assumes "open_rs t = Inl e # os" "e \<noteq> EINTR"
  shows "\<exists>s'. getentropy_urandom_start buf len e0 t = Some (- 1, s')
    \<and> errno s' = EIO \<and> mem s' = mem t \<and> read_rs s' = read_rs t
    \<and> trace s' = trace t @ [Ev_open ''/dev/urandom'' urandom_flags (Inl e)]"
  using assms
  by (auto simp: getentropy_urandom_start.simps[of buf len e0 t] sys_open_def nodevrandom_def)

subsection \<open>A request of no bytes\<close>

lemma getentropy_getrandom_0: "getentropy_getrandom buf 0 s = Some (0, s)"
  by (simp add: getentropy_getrandom_def getrandom_loop.simps)

lemma getentropy_sysctl_0: "getentropy_sysctl buf 0 s = Some (0, s)"
  by (simp add: getentropy_sysctl_def sysctl_loop.simps)

subsection \<open>Termination of the loops\<close>

lemma getrandom_loop_terminates:
  assumes "getrandom_rs s = rs"
    and "\<forall>bs. Inr bs \<in> set rs \<longrightarrow> bs \<noteq> []"
    and "nat left \<le> length (filter (\<lambda>r. r \<noteq> Inl EINTR) rs)"
  shows "\<exists>r evs. getrandom_loop p left s = Some r \<and> trace (final r) = trace s @ evs
    \<and> length (filter transfer evs) \<le> nat left"
  using assms
proof (induction rs arbitrary: s p left)
  case Nil
  then have "\<not> 0 < left" by simp
  then show ?case by (simp add: getrandom_loop.simps)
next
  case (Cons x rs)
  show ?case
  proof (cases "0 < left")
    case False
    then show ?thesis by (simp add: getrandom_loop.simps)
  next
    case True
    show ?thesis
    proof (cases x)
      case (Inl e)
      let ?s1 = "s\<lparr>errno := e, getrandom_rs := rs,
          trace := trace s @ [Ev_getrandom p (nat left) (Inl e)]\<rparr>"
      have step: "getrandom_loop p left s =
          (if e = EINTR then getrandom_loop p left ?s1 else Some (Inl ?s1))"
        using True Cons.prems(1) Inl
        by (simp add: getrandom_loop.simps[of p left s] sys_getrandom_def)
      show ?thesis
      proof (cases "e = EINTR")
        case False
        with step show ?thesis
          by (intro exI[of _ "Inl ?s1"] exI[of _ "[Ev_getrandom p (nat left) (Inl e)]"]) simp
      next
        case eintr: True
        have "\<exists>r evs. getrandom_loop p left ?s1 = Some r \<and> trace (final r) = trace ?s1 @ evs
            \<and> length (filter transfer evs) \<le> nat left"
          using Cons.prems(2,3) Inl eintr by (intro Cons.IH) simp_all
        then obtain r evs where "getrandom_loop p left ?s1 = Some r"
          "trace (final r) = trace ?s1 @ evs" "length (filter transfer evs) \<le> nat left"
          by blast
        with step eintr show ?thesis
          by (intro exI[of _ r] exI[of _ "Ev_getrandom p (nat left) (Inl e) # evs"]) simp
      qed
    next
      case (Inr bs)
      let ?w = "take (nat left) bs"
      let ?s1 = "s\<lparr>mem := store_bytes (mem s) p ?w, getrandom_rs := rs,
          trace := trace s @ [Ev_getrandom p (nat left) (Inr ?w)]\<rparr>"
      have step: "getrandom_loop p left s =
          getrandom_loop (p + length ?w) (left - int (length ?w)) ?s1"
        using True Cons.prems(1) Inr
        by (simp add: getrandom_loop.simps[of p left s] sys_getrandom_def Let_def)
      from Cons.prems(2) Inr have "bs \<noteq> []" by simp
      with True have pos: "0 < length ?w" by simp
      have dec: "nat (left - int (length ?w)) < nat left"
        using pos True by linarith
      have more: "\<forall>bs. Inr bs \<in> set rs \<longrightarrow> bs \<noteq> []"
        using Cons.prems(2) by simp
      have "nat left \<le> Suc (length (filter (\<lambda>r. r \<noteq> Inl EINTR) rs))"
        using Cons.prems(3) Inr by simp
      with dec have enough: "nat (left - int (length ?w)) \<le> length (filter (\<lambda>r. r \<noteq> Inl EINTR) rs)"
        by linarith
      have "getrandom_rs ?s1 = rs" by simp
      from Cons.IH[OF this more enough]
      have "\<exists>r evs. getrandom_loop (p + length ?w) (left - int (length ?w)) ?s1 = Some r
            \<and> trace (final r) = trace ?s1 @ evs
            \<and> length (filter transfer evs) \<le> nat (left - int (length ?w))" .
      then obtain r evs where r: "getrandom_loop (p + length ?w) (left - int (length ?w)) ?s1 = Some r"
          "trace (final r) = trace ?s1 @ evs"
          "length (filter transfer evs) \<le> nat (left - int (length ?w))"
        by blast
      have "length (filter transfer (Ev_getrandom p (nat left) (Inr ?w) # evs))
          = Suc (length (filter transfer evs))"
        by simp
      with r(3) dec have "length (filter transfer (Ev_getrandom p (nat left) (Inr ?w) # evs)) \<le> nat left"
        by linarith
      with step r(1,2) show ?thesis
        by (intro exI[of _ r] exI[of _ "Ev_getrandom p (nat left) (Inr ?w) # evs"]) simp
    qed
  qed
qed

lemma getrandom_loop_diverges:
  assumes "getrandom_rs s = rs" "set rs \<subseteq> {Inr []}" "0 < left"
  shows "getrandom_loop p left s = None"
  using assms
proof (induction rs arbitrary: s)
  case Nil
  then show ?case by (simp add: getrandom_loop.simps sys_getrandom_def)
next
  case (Cons x rs)
  let ?s1 = "s\<lparr>mem := store_bytes (mem s) p [], getrandom_rs := rs,
      trace := trace s @ [Ev_getrandom p (nat left) (Inr [])]\<rparr>"
  from Cons.prems have x: "x = Inr []" by simp
  have "getrandom_loop p left s = getrandom_loop p left ?s1"
    using Cons.prems(1,3) x
    by (simp add: getrandom_loop.simps[of p left s] sys_getrandom_def)
  also have "\<dots> = None"
    using Cons.prems(2,3) by (intro Cons.IH) simp_all
  finally show ?case .
qed


lemma urandom_read_loop_terminates:
  assumes "read_rs s = rs"
    and "\<forall>bs. Inr bs \<in> set rs \<longrightarrow> bs \<noteq> []"
    and "len - i \<le> length (filter (\<lambda>r. r \<noteq> Inl EAGAIN \<and> r \<noteq> Inl EINTR) rs)"
  shows "\<exists>r evs. urandom_read_loop fd buf len i s = Some r \<and> trace (final r) = trace s @ evs
    \<and> length (filter transfer evs) \<le> len - i"
  using assms
proof (induction rs arbitrary: s i)
  case Nil
  then have "\<not> i < len" by simp
  then show ?case by (simp add: urandom_read_loop.simps)
next
  case (Cons x rs)
  show ?case
  proof (cases "i < len")
    case False
    then show ?thesis by (simp add: urandom_read_loop.simps)
  next
    case True
    show ?thesis
    proof (cases x)
      case (Inl e)
      let ?ev = "Ev_read fd (buf + i) (len - i) (Inl e)"
      let ?s1 = "s\<lparr>errno := e, read_rs := rs, trace := trace s @ [?ev]\<rparr>"
      have step: "urandom_read_loop fd buf len i s =
          (if e = EAGAIN \<or> e = EINTR then urandom_read_loop fd buf len i ?s1 else Some (Inl ?s1))"
        using True Cons.prems(1) Inl
        by (simp add: urandom_read_loop.simps[of fd buf len i s] sys_read_def)
      show ?thesis
      proof (cases "e = EAGAIN \<or> e = EINTR")
        case False
        with step show ?thesis
          by (intro exI[of _ "Inl ?s1"] exI[of _ "[?ev]"]) simp
      next
        case again: True
        have more: "\<forall>bs. Inr bs \<in> set rs \<longrightarrow> bs \<noteq> []"
          using Cons.prems(2) by simp
        have enough: "len - i \<le> length (filter (\<lambda>r. r \<noteq> Inl EAGAIN \<and> r \<noteq> Inl EINTR) rs)"
          using Cons.prems(3) Inl again by auto
        have "read_rs ?s1 = rs" by simp
        from Cons.IH[OF this more enough] obtain r evs where
          "urandom_read_loop fd buf len i ?s1 = Some r"
          "trace (final r) = trace ?s1 @ evs" "length (filter transfer evs) \<le> len - i"
          by blast
        with step again show ?thesis
          by (intro exI[of _ r] exI[of _ "?ev # evs"]) simp
      qed
    next
      case (Inr bs)
      let ?w = "take (len - i) bs"
      let ?ev = "Ev_read fd (buf + i) (len - i) (Inr ?w)"
      let ?s1 = "s\<lparr>mem := store_bytes (mem s) (buf + i) ?w, read_rs := rs,
          trace := trace s @ [?ev]\<rparr>"
      have step: "urandom_read_loop fd buf len i s =
          urandom_read_loop fd buf len (i + length ?w) ?s1"
        using True Cons.prems(1) Inr
        by (simp add: urandom_read_loop.simps[of fd buf len i s] sys_read_def Let_def)
      from Cons.prems(2) Inr have "bs \<noteq> []" by simp
      with True have pos: "0 < length ?w" by simp
      have dec: "len - (i + length ?w) < len - i"
        using pos True by linarith
      have more: "\<forall>bs. Inr bs \<in> set rs \<longrightarrow> bs \<noteq> []"
        using Cons.prems(2) by simp
      have "len - i \<le> Suc (length (filter (\<lambda>r. r \<noteq> Inl EAGAIN \<and> r \<noteq> Inl EINTR) rs))"
        using Cons.prems(3) Inr by simp
      with dec have enough: "len - (i + length ?w)
          \<le> length (filter (\<lambda>r. r \<noteq> Inl EAGAIN \<and> r \<noteq> Inl EINTR) rs)"
        by linarith
      have "read_rs ?s1 = rs" by simp
      from Cons.IH[OF this more enough] obtain r evs where
        r: "urandom_read_loop fd buf len (i + length ?w) ?s1 = Some r"
          "trace (final r) = trace ?s1 @ evs"
          "length (filter transfer evs) \<le> len - (i + length ?w)"
        by blast
      have "length (filter transfer (?ev # evs)) = Suc (length (filter transfer evs))"
        by simp
      with r(3) dec have "length (filter transfer (?ev # evs)) \<le> len - i"
        by linarith
      with step r(1,2) show ?thesis
        by (intro exI[of _ r] exI[of _ "?ev # evs"]) simp
    qed
  qed
qed

lemma urandom_read_loop_diverges:
  assumes "read_rs s = rs" "set rs \<subseteq> {Inr []}" "i < len"
  shows "urandom_read_loop fd buf len i s = None"
  using assms
proof (induction rs arbitrary: s)
  case Nil
  then show ?case by (simp add: urandom_read_loop.simps sys_read_def)
next
  case (Cons x rs)
  let ?s1 = "s\<lparr>mem := store_bytes (mem s) (buf + i) [], read_rs := rs,
      trace := trace s @ [Ev_read fd (buf + i) (len - i) (Inr [])]\<rparr>"
  from Cons.prems have x: "x = Inr []" by simp
  have "urandom_read_loop fd buf len i s = urandom_read_loop fd buf len i ?s1"
    using Cons.prems(1,3) x
    by (simp add: urandom_read_loop.simps[of fd buf len i s] sys_read_def)
  also have "\<dots> = None"
    using Cons.prems(2,3) by (intro Cons.IH) simp_all
  finally show ?case .
qed

lemma min_sz_pos: "0 < a \<Longrightarrow> 0 < min_sz a 16"
  by (simp add: min_sz_def)

lemma sysctl_loop_terminates:
  assumes "sysctl_rs s = rs"
    and "\<forall>bs. Inr bs \<in> set rs \<longrightarrow> bs \<noteq> []"
    and "len - i \<le> length rs"
  shows "\<exists>r evs. sysctl_loop buf len i s = Some r \<and> trace (final r) = trace s @ evs
    \<and> length (filter transfer evs) \<le> len - i"
  using assms
proof (induction rs arbitrary: s i)
  case Nil
  then have "\<not> i < len" by simp
  then show ?case by (simp add: sysctl_loop.simps)
next
  case (Cons x rs)
  show ?case
  proof (cases "i < len")
    case False
    then show ?thesis by (simp add: sysctl_loop.simps)
  next
    case True
    let ?c = "min_sz (len - i) 16"
    show ?thesis
    proof (cases x)
      case (Inl e)
      let ?ev = "Ev_sysctl (buf + i) ?c (Inl e)"
      let ?s1 = "s\<lparr>errno := e, sysctl_rs := rs, trace := trace s @ [?ev]\<rparr>"
      have "sysctl_loop buf len i s = Some (Inl ?s1)"
        using True Cons.prems(1) Inl
        by (simp add: sysctl_loop.simps[of buf len i s] sys_sysctl_def)
      then show ?thesis
        by (intro exI[of _ "Inl ?s1"] exI[of _ "[?ev]"]) simp
    next
      case (Inr bs)
      let ?w = "take ?c bs"
      let ?ev = "Ev_sysctl (buf + i) ?c (Inr ?w)"
      let ?s1 = "s\<lparr>mem := store_bytes (mem s) (buf + i) ?w, sysctl_rs := rs,
          trace := trace s @ [?ev]\<rparr>"
      have step: "sysctl_loop buf len i s = sysctl_loop buf len (i + length ?w) ?s1"
        using True Cons.prems(1) Inr
        by (simp add: sysctl_loop.simps[of buf len i s] sys_sysctl_def Let_def)
      from Cons.prems(2) Inr have "bs \<noteq> []" by simp
      moreover from True have "0 < ?c" by (intro min_sz_pos) simp
      ultimately have pos: "0 < length ?w" by simp
      have dec: "len - (i + length ?w) < len - i"
        using pos True by linarith
      have more: "\<forall>bs. Inr bs \<in> set rs \<longrightarrow> bs \<noteq> []"
        using Cons.prems(2) by simp
      have "len - i \<le> Suc (length rs)"
        using Cons.prems(3) by simp
      with dec have enough: "len - (i + length ?w) \<le> length rs"
        by linarith
      have "sysctl_rs ?s1 = rs" by simp
      from Cons.IH[OF this more enough] obtain r evs where
        r: "sysctl_loop buf len (i + length ?w) ?s1 = Some r"
          "trace (final r) = trace ?s1 @ evs"
          "length (filter transfer evs) \<le> len - (i + length ?w)"
        by blast
      have "length (filter transfer (?ev # evs)) = Suc (length (filter transfer evs))"
        by simp
      with r(3) dec have "length (filter transfer (?ev # evs)) \<le> len - i"
        by linarith
      with step r(1,2) show ?thesis
        by (intro exI[of _ r] exI[of _ "?ev # evs"]) simp
    qed
  qed
qed

lemma sysctl_loop_diverges:
  assumes "sysctl_rs s = rs" "set rs \<subseteq> {Inr []}" "i < len"
  shows "sysctl_loop buf len i s = None"
  using assms
proof (induction rs arbitrary: s)
  case Nil
  then show ?case by (simp add: sysctl_loop.simps sys_sysctl_def)
next
  case (Cons x rs)
  let ?s1 = "s\<lparr>mem := store_bytes (mem s) (buf + i) [], sysctl_rs := rs,
      trace := trace s @ [Ev_sysctl (buf + i) (min_sz (len - i) 16) (Inr [])]\<rparr>"
  from Cons.prems have x: "x = Inr []" by simp
  have "sysctl_loop buf len i s = sysctl_loop buf len i ?s1"
    using Cons.prems(1,3) x
    by (simp add: sysctl_loop.simps[of buf len i s] sys_sysctl_def)
  also have "\<dots> = None"
    using Cons.prems(2,3) by (intro Cons.IH) simp_all
  finally show ?case .
qed

subsection \<open>Runs that differ by interruptions\<close>

lemma loop_agree_simps [simp]:
  "loop_agree None None"
  "loop_agree (Some (Inl s')) (Some (Inl t')) \<longleftrightarrow> interrupts_apart s' t' \<and> errno t' = errno s'"
  "loop_agree (Some (Inr s')) (Some (Inr t')) \<longleftrightarrow> interrupts_apart s' t'"
  by (simp_all add: loop_agree_def)

lemma helper_agree_simps [simp]:
  "helper_agree None None"
  "helper_agree (Some (r, s')) (Some (r', t')) \<longleftrightarrow>
     r' = r \<and> interrupts_apart s' t' \<and> errno t' = errno s'"
  by (simp_all add: helper_agree_def)

lemma loop_agree_NoneD: "loop_agree None y \<Longrightarrow> y = None"
  by (cases y) (simp_all add: loop_agree_def)

lemma loop_agree_InlD:
  "loop_agree (Some (Inl s')) y \<Longrightarrow>
   \<exists>t'. y = Some (Inl t') \<and> interrupts_apart s' t' \<and> errno t' = errno s'"
proof (cases y)
  case None
  assume "loop_agree (Some (Inl s')) y"
  with None show ?thesis by (simp add: loop_agree_def)
next
  case (Some r)
  assume "loop_agree (Some (Inl s')) y"
  with Some show ?thesis by (cases r) (simp_all add: loop_agree_def)
qed

lemma loop_agree_InrD:
  "loop_agree (Some (Inr s')) y \<Longrightarrow> \<exists>t'. y = Some (Inr t') \<and> interrupts_apart s' t'"
proof (cases y)
  case None
  assume "loop_agree (Some (Inr s')) y"
  with None show ?thesis by (simp add: loop_agree_def)
next
  case (Some r)
  assume "loop_agree (Some (Inr s')) y"
  with Some show ?thesis by (cases r) (simp_all add: loop_agree_def)
qed

lemma helper_agree_NoneD: "helper_agree None y \<Longrightarrow> y = None"
  by (cases y) (simp_all add: helper_agree_def)

lemma helper_agree_SomeD:
  "helper_agree (Some (r, s')) y \<Longrightarrow>
   \<exists>t'. y = Some (r, t') \<and> interrupts_apart s' t' \<and> errno t' = errno s'"
  by (cases y) (auto simp: helper_agree_def)

lemma interrupts_apart_errno [simp]:
  "interrupts_apart (s\<lparr>errno := e\<rparr>) (t\<lparr>errno := e'\<rparr>) = interrupts_apart s t"
  by (simp add: interrupts_apart_def)

lemma getrandom_loop_sim:
  assumes "getrandom_rs s = rs" "interrupts_apart s t"
  shows "loop_agree (getrandom_loop p left s) (getrandom_loop p left t)"
  using assms
proof (induction rs arbitrary: s t p left)
  case Nil
  then have "getrandom_rs t = []" by (simp add: interrupts_apart_def)
  with Nil show ?case
    by (cases "0 < left") (simp_all add: getrandom_loop.simps sys_getrandom_def)
next
  case (Cons x rs)
  show ?case
  proof (cases "0 < left")
    case False
    with Cons.prems(2) show ?thesis by (simp add: getrandom_loop.simps)
  next
    case True
    show ?thesis
    proof (cases x)
      case (Inl e)
      let ?s1 = "s\<lparr>errno := e, getrandom_rs := rs,
          trace := trace s @ [Ev_getrandom p (nat left) (Inl e)]\<rparr>"
      have step: "getrandom_loop p left s =
          (if e = EINTR then getrandom_loop p left ?s1 else Some (Inl ?s1))"
        using True Cons.prems(1) Inl
        by (simp add: getrandom_loop.simps[of p left s] sys_getrandom_def)
      show ?thesis
      proof (cases "e = EINTR")
        case True
        have "interrupts_apart ?s1 t"
          using Cons.prems Inl True
          by (simp add: interrupts_apart_def transient_getrandom_def)
        from Cons.IH[OF _ this, of p left] step True show ?thesis by simp
      next
        case False
        let ?t1 = "t\<lparr>errno := e, getrandom_rs := filter (\<lambda>r. \<not> transient_getrandom r) rs,
          trace := trace t @ [Ev_getrandom p (nat left) (Inl e)]\<rparr>"
        have "getrandom_rs t = Inl e # filter (\<lambda>r. \<not> transient_getrandom r) rs"
          using Cons.prems Inl False
          by (simp add: interrupts_apart_def transient_getrandom_def)
        then have "getrandom_loop p left t = Some (Inl ?t1)"
          using \<open>0 < left\<close> False
          by (simp add: getrandom_loop.simps[of p left t] sys_getrandom_def)
        moreover have "interrupts_apart ?s1 ?t1"
          using Cons.prems by (simp add: interrupts_apart_def)
        ultimately show ?thesis using step False by simp
      qed
    next
      case (Inr bs)
      let ?w = "take (nat left) bs"
      let ?s1 = "s\<lparr>mem := store_bytes (mem s) p ?w, getrandom_rs := rs,
          trace := trace s @ [Ev_getrandom p (nat left) (Inr ?w)]\<rparr>"
      let ?t1 = "t\<lparr>mem := store_bytes (mem t) p ?w,
          getrandom_rs := filter (\<lambda>r. \<not> transient_getrandom r) rs,
          trace := trace t @ [Ev_getrandom p (nat left) (Inr ?w)]\<rparr>"
      have "getrandom_loop p left s =
          getrandom_loop (p + length ?w) (left - int (length ?w)) ?s1"
        using True Cons.prems(1) Inr
        by (simp add: getrandom_loop.simps[of p left s] sys_getrandom_def Let_def)
      moreover have "getrandom_rs t = Inr bs # filter (\<lambda>r. \<not> transient_getrandom r) rs"
        using Cons.prems Inr
        by (simp add: interrupts_apart_def transient_getrandom_def)
      then have "getrandom_loop p left t =
          getrandom_loop (p + length ?w) (left - int (length ?w)) ?t1"
        using True
        by (simp add: getrandom_loop.simps[of p left t] sys_getrandom_def Let_def)
      moreover have "interrupts_apart ?s1 ?t1"
        using Cons.prems by (simp add: interrupts_apart_def)
      from Cons.IH[OF _ this, of "p + length ?w" "left - int (length ?w)"]
      have "loop_agree (getrandom_loop (p + length ?w) (left - int (length ?w)) ?s1)
          (getrandom_loop (p + length ?w) (left - int (length ?w)) ?t1)"
        by simp
      ultimately show ?thesis by simp
    qed
  qed
qed



lemma getentropy_getrandom_sim:
  assumes "interrupts_apart s t" "errno t = errno s"
  shows "helper_agree (getentropy_getrandom buf len s) (getentropy_getrandom buf len t)"
proof -
  have la: "loop_agree (getrandom_loop buf (int len) s) (getrandom_loop buf (int len) t)"
    using assms(1) by (intro getrandom_loop_sim[OF refl])
  show ?thesis
  proof (cases "getrandom_loop buf (int len) s")
    case None
    with la have "getrandom_loop buf (int len) t = None" by (simp add: loop_agree_NoneD)
    with None show ?thesis by (simp add: getentropy_getrandom_def)
  next
    case (Some r)
    show ?thesis
    proof (cases r)
      case (Inl s')
      with la Some obtain t' where "getrandom_loop buf (int len) t = Some (Inl t')"
        "interrupts_apart s' t'" "errno t' = errno s'"
        using loop_agree_InlD[of s' "getrandom_loop buf (int len) t"] by auto
      with Some Inl show ?thesis by (simp add: getentropy_getrandom_def)
    next
      case (Inr s')
      with la Some obtain t' where "getrandom_loop buf (int len) t = Some (Inr t')"
        "interrupts_apart s' t'"
        using loop_agree_InrD[of s' "getrandom_loop buf (int len) t"] by auto
      with Some Inr assms(2) show ?thesis by (simp add: getentropy_getrandom_def)
    qed
  qed
qed


lemma urandom_read_loop_sim:
  assumes "read_rs s = rs" "interrupts_apart s t"
  shows "loop_agree (urandom_read_loop fd buf len i s) (urandom_read_loop fd buf len i t)"
  using assms
proof (induction rs arbitrary: s t i)
  case Nil
  then have "read_rs t = []" by (simp add: interrupts_apart_def)
  with Nil show ?case
    by (cases "i < len") (simp_all add: urandom_read_loop.simps sys_read_def)
next
  case (Cons x rs)
  show ?case
  proof (cases "i < len")
    case False
    with Cons.prems(2) show ?thesis by (simp add: urandom_read_loop.simps)
  next
    case True
    show ?thesis
    proof (cases x)
      case (Inl e)
      let ?ev = "Ev_read fd (buf + i) (len - i) (Inl e)"
      let ?s1 = "s\<lparr>errno := e, read_rs := rs, trace := trace s @ [?ev]\<rparr>"
      have step: "urandom_read_loop fd buf len i s =
          (if e = EAGAIN \<or> e = EINTR then urandom_read_loop fd buf len i ?s1 else Some (Inl ?s1))"
        using True Cons.prems(1) Inl
        by (simp add: urandom_read_loop.simps[of fd buf len i s] sys_read_def)
      show ?thesis
      proof (cases "e = EAGAIN \<or> e = EINTR")
        case True
        have "interrupts_apart ?s1 t"
          using Cons.prems Inl True
          by (auto simp: interrupts_apart_def transient_read_def)
        from Cons.IH[OF _ this, of i] step True show ?thesis by simp
      next
        case False
        let ?t1 = "t\<lparr>errno := e, read_rs := filter (\<lambda>r. \<not> transient_read r) rs,
          trace := trace t @ [?ev]\<rparr>"
        have "read_rs t = Inl e # filter (\<lambda>r. \<not> transient_read r) rs"
          using Cons.prems Inl False
          by (simp add: interrupts_apart_def transient_read_def)
        then have "urandom_read_loop fd buf len i t = Some (Inl ?t1)"
          using \<open>i < len\<close> False
          by (simp add: urandom_read_loop.simps[of fd buf len i t] sys_read_def)
        moreover have "interrupts_apart ?s1 ?t1"
          using Cons.prems by (simp add: interrupts_apart_def)
        ultimately show ?thesis using step False by simp
      qed
    next
      case (Inr bs)
      let ?w = "take (len - i) bs"
      let ?ev = "Ev_read fd (buf + i) (len - i) (Inr ?w)"
      let ?s1 = "s\<lparr>mem := store_bytes (mem s) (buf + i) ?w, read_rs := rs,
          trace := trace s @ [?ev]\<rparr>"
      let ?t1 = "t\<lparr>mem := store_bytes (mem t) (buf + i) ?w,
          read_rs := filter (\<lambda>r. \<not> transient_read r) rs, trace := trace t @ [?ev]\<rparr>"
      have "urandom_read_loop fd buf len i s = urandom_read_loop fd buf len (i + length ?w) ?s1"
        using True Cons.prems(1) Inr
        by (simp add: urandom_read_loop.simps[of fd buf len i s] sys_read_def Let_def)
      moreover have "read_rs t = Inr bs # filter (\<lambda>r. \<not> transient_read r) rs"
        using Cons.prems Inr
        by (simp add: interrupts_apart_def transient_read_def)
      then have "urandom_read_loop fd buf len i t = urandom_read_loop fd buf len (i + length ?w) ?t1"
        using True
        by (simp add: urandom_read_loop.simps[of fd buf len i t] sys_read_def Let_def)
      moreover have "interrupts_apart ?s1 ?t1"
        using Cons.prems by (simp add: interrupts_apart_def)
      from Cons.IH[OF _ this, of "i + length ?w"]
      have "loop_agree (urandom_read_loop fd buf len (i + length ?w) ?s1)
          (urandom_read_loop fd buf len (i + length ?w) ?t1)"
        by simp
      ultimately show ?thesis by simp
    qed
  qed
qed

lemma sysctl_loop_sim:
  assumes "sysctl_rs s = rs" "interrupts_apart s t"
  shows "loop_agree (sysctl_loop buf len i s) (sysctl_loop buf len i t)"
  using assms
proof (induction rs arbitrary: s t i)
  case Nil
  then have "sysctl_rs t = []" by (simp add: interrupts_apart_def)
  with Nil show ?case
    by (cases "i < len") (simp_all add: sysctl_loop.simps sys_sysctl_def)
next
  case (Cons x rs)
  have rt: "sysctl_rs t = x # rs"
    using Cons.prems by (simp add: interrupts_apart_def)
  show ?case
  proof (cases "i < len")
    case False
    with Cons.prems(2) show ?thesis by (simp add: sysctl_loop.simps)
  next
    case True
    let ?c = "min_sz (len - i) 16"
    show ?thesis
    proof (cases x)
      case (Inl e)
      let ?ev = "Ev_sysctl (buf + i) ?c (Inl e)"
      let ?s1 = "s\<lparr>errno := e, sysctl_rs := rs, trace := trace s @ [?ev]\<rparr>"
      let ?t1 = "t\<lparr>errno := e, sysctl_rs := rs, trace := trace t @ [?ev]\<rparr>"
      have "sysctl_loop buf len i s = Some (Inl ?s1)"
        using True Cons.prems(1) Inl
        by (simp add: sysctl_loop.simps[of buf len i s] sys_sysctl_def)
      moreover have "sysctl_loop buf len i t = Some (Inl ?t1)"
        using True rt Inl
        by (simp add: sysctl_loop.simps[of buf len i t] sys_sysctl_def)
      moreover have "interrupts_apart ?s1 ?t1"
        using Cons.prems by (simp add: interrupts_apart_def)
      ultimately show ?thesis by simp
    next
      case (Inr bs)
      let ?w = "take ?c bs"
      let ?ev = "Ev_sysctl (buf + i) ?c (Inr ?w)"
      let ?s1 = "s\<lparr>mem := store_bytes (mem s) (buf + i) ?w, sysctl_rs := rs,
          trace := trace s @ [?ev]\<rparr>"
      let ?t1 = "t\<lparr>mem := store_bytes (mem t) (buf + i) ?w, sysctl_rs := rs,
          trace := trace t @ [?ev]\<rparr>"
      have "sysctl_loop buf len i s = sysctl_loop buf len (i + length ?w) ?s1"
        using True Cons.prems(1) Inr
        by (simp add: sysctl_loop.simps[of buf len i s] sys_sysctl_def Let_def)
      moreover have "sysctl_loop buf len i t = sysctl_loop buf len (i + length ?w) ?t1"
        using True rt Inr
        by (simp add: sysctl_loop.simps[of buf len i t] sys_sysctl_def Let_def)
      moreover have "interrupts_apart ?s1 ?t1"
        using Cons.prems by (simp add: interrupts_apart_def)
      from Cons.IH[OF _ this, of "i + length ?w"]
      have "loop_agree (sysctl_loop buf len (i + length ?w) ?s1)
          (sysctl_loop buf len (i + length ?w) ?t1)"
        by simp
      ultimately show ?thesis by simp
    qed
  qed
qed

lemma getentropy_sysctl_sim:
  assumes "interrupts_apart s t" "errno t = errno s"
  shows "helper_agree (getentropy_sysctl buf len s) (getentropy_sysctl buf len t)"
proof -
  have la: "loop_agree (sysctl_loop buf len 0 s) (sysctl_loop buf len 0 t)"
    using assms(1) by (intro sysctl_loop_sim[OF refl])
  show ?thesis
  proof (cases "sysctl_loop buf len 0 s")
    case None
    with la have "sysctl_loop buf len 0 t = None" by (simp add: loop_agree_NoneD)
    with None show ?thesis by (simp add: getentropy_sysctl_def)
  next
    case (Some r)
    show ?thesis
    proof (cases r)
      case (Inl s')
      with la Some obtain t' where "sysctl_loop buf len 0 t = Some (Inl t')"
        "interrupts_apart s' t'"
        using loop_agree_InlD[of s' "sysctl_loop buf len 0 t"] by auto
      with Some Inl show ?thesis by (simp add: getentropy_sysctl_def)
    next
      case (Inr s')
      with la Some obtain t' where "sysctl_loop buf len 0 t = Some (Inr t')"
        "interrupts_apart s' t'"
        using loop_agree_InrD[of s' "sysctl_loop buf len 0 t"] by auto
      with Some Inr assms(2) show ?thesis by (simp add: getentropy_sysctl_def)
    qed
  qed
qed


lemma interrupts_apart_close:
  "interrupts_apart s t \<Longrightarrow> interrupts_apart (sys_close fd s) (sys_close fd t)"
  by (simp add: interrupts_apart_def sys_close_def)

lemma urandom_tail_sim:
  assumes "loop_agree x y"
  shows "helper_agree
     (case x of None \<Rightarrow> None
      | Some (Inl s4) \<Rightarrow> Some (nodevrandom (sys_close fd s4))
      | Some (Inr s4) \<Rightarrow> Some (0, (sys_close fd s4)\<lparr>errno := e0\<rparr>))
     (case y of None \<Rightarrow> None
      | Some (Inl s4) \<Rightarrow> Some (nodevrandom (sys_close fd s4))
      | Some (Inr s4) \<Rightarrow> Some (0, (sys_close fd s4)\<lparr>errno := e0\<rparr>))"
proof (cases x)
  case None
  with assms have "y = None" by (simp add: loop_agree_NoneD)
  with None show ?thesis by simp
next
  case (Some r)
  show ?thesis
  proof (cases r)
    case (Inl s')
    with assms Some obtain t' where "y = Some (Inl t')" "interrupts_apart s' t'"
      using loop_agree_InlD[of s' y] by auto
    with Some Inl show ?thesis
      by (simp add: nodevrandom_def interrupts_apart_close)
  next
    case (Inr s')
    with assms Some obtain t' where "y = Some (Inr t')" "interrupts_apart s' t'"
      using loop_agree_InrD[of s' y] by auto
    with Some Inr show ?thesis
      by (simp add: interrupts_apart_close)
  qed
qed

text \<open>The part of \<open>getentropy_urandom\<close> after a successful \<open>open\<close>.\<close>

lemma urandom_opened_sim:
  assumes "interrupts_apart s t" "errno t = errno s"
  shows "helper_agree
    (case sys_fstat fd s of
       None \<Rightarrow> None
     | Some ((r, st_mode), s2) \<Rightarrow>
         if r = - 1 \<or> \<not> S_ISCHR st_mode then Some (nodevrandom (sys_close fd s2))
         else
           (case sys_ioctl_RNDGETENTCNT fd s2 of
              None \<Rightarrow> None
            | Some (r', s3) \<Rightarrow>
                if r' = - 1 then Some (nodevrandom (sys_close fd s3))
                else
                  (case urandom_read_loop fd buf len 0 s3 of
                     None \<Rightarrow> None
                   | Some (Inl s4) \<Rightarrow> Some (nodevrandom (sys_close fd s4))
                   | Some (Inr s4) \<Rightarrow> Some (0, (sys_close fd s4)\<lparr>errno := e0\<rparr>))))
    (case sys_fstat fd t of
       None \<Rightarrow> None
     | Some ((r, st_mode), s2) \<Rightarrow>
         if r = - 1 \<or> \<not> S_ISCHR st_mode then Some (nodevrandom (sys_close fd s2))
         else
           (case sys_ioctl_RNDGETENTCNT fd s2 of
              None \<Rightarrow> None
            | Some (r', s3) \<Rightarrow>
                if r' = - 1 then Some (nodevrandom (sys_close fd s3))
                else
                  (case urandom_read_loop fd buf len 0 s3 of
                     None \<Rightarrow> None
                   | Some (Inl s4) \<Rightarrow> Some (nodevrandom (sys_close fd s4))
                   | Some (Inr s4) \<Rightarrow> Some (0, (sys_close fd s4)\<lparr>errno := e0\<rparr>))))"
proof -
  have fs: "fstat_rs t = fstat_rs s" and io: "ioctl_rs t = ioctl_rs s"
    using assms(1) by (simp_all add: interrupts_apart_def)
  show ?thesis
  proof (cases "fstat_rs s")
    case Nil
    with fs show ?thesis by (simp add: sys_fstat_def)
  next
    case (Cons f fs')
    show ?thesis
    proof (cases f)
      case (Inl e)
      let ?s2 = "s\<lparr>errno := e, fstat_rs := fs', trace := trace s @ [Ev_fstat fd (Inl e)]\<rparr>"
      let ?t2 = "t\<lparr>errno := e, fstat_rs := fs', trace := trace t @ [Ev_fstat fd (Inl e)]\<rparr>"
      have "interrupts_apart ?s2 ?t2" using assms(1) by (simp add: interrupts_apart_def)
      then have "interrupts_apart (sys_close fd ?s2) (sys_close fd ?t2)"
        by (rule interrupts_apart_close)
      with Cons Inl fs show ?thesis
        by (simp add: sys_fstat_def nodevrandom_def)
    next
      case (Inr m)
      let ?s2 = "s\<lparr>fstat_rs := fs', trace := trace s @ [Ev_fstat fd (Inr m)]\<rparr>"
      let ?t2 = "t\<lparr>fstat_rs := fs', trace := trace t @ [Ev_fstat fd (Inr m)]\<rparr>"
      have 2: "interrupts_apart ?s2 ?t2" using assms(1) by (simp add: interrupts_apart_def)
      show ?thesis
      proof (cases "S_ISCHR m")
        case False
        from 2 have "interrupts_apart (sys_close fd ?s2) (sys_close fd ?t2)"
          by (rule interrupts_apart_close)
        with Cons Inr fs False show ?thesis
          by (simp add: sys_fstat_def nodevrandom_def)
      next
        case chr: True
        show ?thesis
        proof (cases "ioctl_rs s")
          case Nil
          with Cons Inr fs io chr show ?thesis
            by (simp add: sys_fstat_def sys_ioctl_RNDGETENTCNT_def)
        next
          case ioc: (Cons c cs)
          show ?thesis
          proof (cases c)
            case (Inl e)
            let ?s3 = "?s2\<lparr>errno := e, ioctl_rs := cs,
                trace := trace ?s2 @ [Ev_ioctl fd (Inl e)]\<rparr>"
            let ?t3 = "?t2\<lparr>errno := e, ioctl_rs := cs,
                trace := trace ?t2 @ [Ev_ioctl fd (Inl e)]\<rparr>"
            have "interrupts_apart ?s3 ?t3" using assms(1) by (simp add: interrupts_apart_def)
            then have "interrupts_apart (sys_close fd ?s3) (sys_close fd ?t3)"
              by (rule interrupts_apart_close)
            with Cons Inr fs io chr ioc Inl show ?thesis
              by (simp add: sys_fstat_def sys_ioctl_RNDGETENTCNT_def nodevrandom_def)
          next
            case cnt: (Inr n)
            let ?s3 = "?s2\<lparr>ioctl_rs := cs, trace := trace ?s2 @ [Ev_ioctl fd (Inr n)]\<rparr>"
            let ?t3 = "?t2\<lparr>ioctl_rs := cs, trace := trace ?t2 @ [Ev_ioctl fd (Inr n)]\<rparr>"
            have "interrupts_apart ?s3 ?t3" using assms(1) by (simp add: interrupts_apart_def)
            then have "loop_agree (urandom_read_loop fd buf len 0 ?s3)
                (urandom_read_loop fd buf len 0 ?t3)"
              by (intro urandom_read_loop_sim[OF refl])
            from urandom_tail_sim[OF this, where fd = fd and ?e0.0 = e0] Cons Inr fs io chr ioc cnt
            show ?thesis
              by (simp add: sys_fstat_def sys_ioctl_RNDGETENTCNT_def)
          qed
        qed
      qed
    qed
  qed
qed

lemma getentropy_urandom_start_sim:
  assumes "open_rs s = os" "interrupts_apart s t" "errno t = errno s"
  shows "helper_agree (getentropy_urandom_start buf len e0 s)
    (getentropy_urandom_start buf len e0 t)"
  using assms
proof (induction os arbitrary: s t)
  case Nil
  then have "open_rs t = []" by (simp add: interrupts_apart_def)
  with Nil show ?case
    by (simp add: getentropy_urandom_start.simps[of buf len e0 s]
        getentropy_urandom_start.simps[of buf len e0 t] sys_open_def)
next
  case (Cons x os)
  have ot: "open_rs t = x # os"
    using Cons.prems by (simp add: interrupts_apart_def)
  show ?case
  proof (cases x)
    case (Inl e)
    let ?ev = "Ev_open ''/dev/urandom'' urandom_flags (Inl e)"
    let ?s1 = "s\<lparr>errno := e, open_rs := os, trace := trace s @ [?ev]\<rparr>"
    let ?t1 = "t\<lparr>errno := e, open_rs := os, trace := trace t @ [?ev]\<rparr>"
    have 1: "interrupts_apart ?s1 ?t1" "errno ?t1 = errno ?s1"
      using Cons.prems(2) by (simp_all add: interrupts_apart_def)
    have s: "getentropy_urandom_start buf len e0 s =
        (if e = EINTR then getentropy_urandom_start buf len e0 ?s1 else Some (nodevrandom ?s1))"
      using Cons.prems(1) Inl
      by (simp add: getentropy_urandom_start.simps[of buf len e0 s] sys_open_def)
    have t: "getentropy_urandom_start buf len e0 t =
        (if e = EINTR then getentropy_urandom_start buf len e0 ?t1 else Some (nodevrandom ?t1))"
      using ot Inl
      by (simp add: getentropy_urandom_start.simps[of buf len e0 t] sys_open_def)
    show ?thesis
    proof (cases "e = EINTR")
      case True
      from Cons.IH[OF _ 1] s t True show ?thesis by simp
    next
      case False
      with s t 1 show ?thesis by (simp add: nodevrandom_def interrupts_apart_def)
    qed
  next
    case (Inr fd)
    let ?ev = "Ev_open ''/dev/urandom'' urandom_flags (Inr fd)"
    let ?s1 = "s\<lparr>open_rs := os, trace := trace s @ [?ev]\<rparr>"
    let ?t1 = "t\<lparr>open_rs := os, trace := trace t @ [?ev]\<rparr>"
    have 1: "interrupts_apart ?s1 ?t1" "errno ?t1 = errno ?s1"
      using Cons.prems(2,3) by (simp_all add: interrupts_apart_def)
    from urandom_opened_sim[OF 1, where fd = "int fd" and buf = buf and len = len and ?e0.0 = e0]
      Cons.prems(1) ot Inr
    show ?thesis
      by (simp add: getentropy_urandom_start.simps[of buf len e0 s]
          getentropy_urandom_start.simps[of buf len e0 t] sys_open_def)
  qed
qed

lemma getentropy_urandom_sim:
  assumes "interrupts_apart s t" "errno t = errno s"
  shows "helper_agree (getentropy_urandom buf len s) (getentropy_urandom buf len t)"
  using getentropy_urandom_start_sim[OF refl assms, of buf len "errno s"] assms(2)
  by (simp add: getentropy_urandom_def)


lemma outcome_Inr:
  "interrupts_apart s' t' \<Longrightarrow> errno t' = errno s' \<Longrightarrow>
   outcome (Some (Inr (r, s'))) = outcome (Some (Inr (r, t')))"
  by (simp add: outcome_def interrupts_apart_def)

lemma outcome_None [simp]: "outcome None = None"
  by (simp add: outcome_def)

lemma outcome_returned:
  assumes "outcome x = outcome (Some (Inr (r, t)))"
  shows "\<exists>s'. x = Some (Inr (r, s')) \<and> mem s' = mem t \<and> errno s' = errno t
    \<and> getrandom_available s' = getrandom_available t"
proof (cases x)
  case None
  with assms show ?thesis by (simp add: outcome_def)
next
  case (Some y)
  with assms show ?thesis by (cases y) (auto simp: outcome_def)
qed

lemma ggentropy_fallback_sim:
  assumes "interrupts_apart s t" "errno t = errno s"
  shows "outcome (map_option Inr (ggentropy_fallback cfg buf n s))
    = outcome (map_option Inr (ggentropy_fallback cfg buf n t))"
proof -
  have ha: "helper_agree (getentropy_urandom buf n s) (getentropy_urandom buf n t)"
    using assms by (rule getentropy_urandom_sim)
  show ?thesis
  proof (cases "getentropy_urandom buf n s")
    case None
    with ha have "getentropy_urandom buf n t = None" by (simp add: helper_agree_NoneD)
    with None show ?thesis by (simp add: ggentropy_fallback_def)
  next
    case (Some x)
    obtain ret s2 where x: "x = (ret, s2)" by (cases x)
    with ha Some obtain t2 where t2: "getentropy_urandom buf n t = Some (ret, t2)"
      "interrupts_apart s2 t2" "errno t2 = errno s2"
      using helper_agree_SomeD[of ret s2 "getentropy_urandom buf n t"] by auto
    show ?thesis
    proof (cases "ret \<noteq> - 1 \<or> \<not> SYS__sysctl cfg")
      case True
      with Some x t2 show ?thesis
        by (auto simp: ggentropy_fallback_def intro: outcome_Inr)
    next
      case False
      have hb: "helper_agree (getentropy_sysctl buf n s2) (getentropy_sysctl buf n t2)"
        using t2(2,3) by (rule getentropy_sysctl_sim)
      show ?thesis
      proof (cases "getentropy_sysctl buf n s2")
        case None
        with hb have "getentropy_sysctl buf n t2 = None" by (simp add: helper_agree_NoneD)
        with None Some x t2 False show ?thesis by (simp add: ggentropy_fallback_def)
      next
        case sc: (Some y)
        obtain ret' s3 where y: "y = (ret', s3)" by (cases y)
        with hb sc obtain t3 where "getentropy_sysctl buf n t2 = Some (ret', t3)"
          "interrupts_apart s3 t3" "errno t3 = errno s3"
          using helper_agree_SomeD[of ret' s3 "getentropy_sysctl buf n t2"] by auto
        with sc y Some x t2 False show ?thesis
          by (auto simp: ggentropy_fallback_def intro: outcome_Inr)
      qed
    qed
  qed
qed

lemma ggentropy_linux_sim:
  assumes "interrupts_apart s t" "errno t = errno s"
  shows "outcome (ggentropy_linux cfg buf n s) = outcome (ggentropy_linux cfg buf n t)"
proof (cases "n \<le> 256")
  case False
  then show ?thesis by (simp add: ggentropy_linux_def)
next
  case n: True
  have fl: "getrandom_available t = getrandom_available s"
    using assms(1) by (simp add: interrupts_apart_def)
  show ?thesis
  proof (cases "SYS_getrandom cfg \<and> getrandom_available s")
    case False
    with n fl ggentropy_fallback_sim[OF assms, of cfg buf n] show ?thesis
      by (auto simp: ggentropy_linux_def)
  next
    case True
    have ha: "helper_agree (getentropy_getrandom buf n s) (getentropy_getrandom buf n t)"
      using assms by (rule getentropy_getrandom_sim)
    show ?thesis
    proof (cases "getentropy_getrandom buf n s")
      case None
      with ha have "getentropy_getrandom buf n t = None" by (simp add: helper_agree_NoneD)
      with None n True fl show ?thesis by (simp add: ggentropy_linux_def)
    next
      case (Some x)
      obtain ret s1 where x: "x = (ret, s1)" by (cases x)
      with ha Some obtain t1 where t1: "getentropy_getrandom buf n t = Some (ret, t1)"
        "interrupts_apart s1 t1" "errno t1 = errno s1"
        using helper_agree_SomeD[of ret s1 "getentropy_getrandom buf n t"] by auto
      show ?thesis
      proof (cases "ret = - 1 \<and> errno s1 = ENOSYS")
        case False
        with Some x t1 n True fl show ?thesis
          by (auto simp: ggentropy_linux_def intro: outcome_Inr)
      next
        case enosys: True
        have "interrupts_apart (s1\<lparr>getrandom_available := False\<rparr>)
            (t1\<lparr>getrandom_available := False\<rparr>)"
          using t1(2) by (simp add: interrupts_apart_def)
        moreover have "errno (t1\<lparr>getrandom_available := False\<rparr>)
            = errno (s1\<lparr>getrandom_available := False\<rparr>)"
          using t1(3) by simp
        ultimately have "outcome (map_option Inr (ggentropy_fallback cfg buf n
              (s1\<lparr>getrandom_available := False\<rparr>)))
            = outcome (map_option Inr (ggentropy_fallback cfg buf n
              (t1\<lparr>getrandom_available := False\<rparr>)))"
          by (rule ggentropy_fallback_sim)
        with Some x t1 n True fl enosys show ?thesis
          by (simp add: ggentropy_linux_def)
      qed
    qed
  qed
qed

lemma interrupts_apart_uninterrupted: "interrupts_apart s (uninterrupted s)"
  by (simp add: interrupts_apart_def uninterrupted_def)

lemma errno_uninterrupted [simp]: "errno (uninterrupted s) = errno s"
  by (simp add: uninterrupted_def)

subsection \<open>The calls on the device follow the protocol\<close>

lemma device_run_append:
  "device_run st (xs @ ys) =
     (case device_run st xs of None \<Rightarrow> None | Some st' \<Rightarrow> device_run st' ys)"
  by (induction xs arbitrary: st) (simp_all split: option.splits)

lemma device_run_other:
  "\<forall>e \<in> set evs. strategy_of e \<noteq> Device \<Longrightarrow> device_run st evs = Some st"
proof (induction evs)
  case Nil
  show ?case by simp
next
  case (Cons e evs)
  then have "device_step st e = Some st" by (cases e) simp_all
  with Cons show ?case by simp
qed

lemma device_run_step:
  assumes "trace s1 = trace s @ [ev]"
    and "\<exists>evs. trace s' = trace s1 @ evs \<and> device_run st1 evs = Some fin"
    and "device_step st ev = Some st1"
  shows "\<exists>evs. trace s' = trace s @ evs \<and> device_run st evs = Some fin"
proof -
  from assms(2) obtain evs where "trace s' = trace s1 @ evs" "device_run st1 evs = Some fin"
    by blast
  with assms(1,3) show ?thesis by (intro exI[of _ "ev # evs"]) simp
qed

lemma urandom_read_loop_protocol:
  assumes "urandom_read_loop fd buf len i s = Some r"
  shows "\<exists>evs. trace (final r) = trace s @ evs \<and> device_run (Checked fd) evs = Some (Checked fd)"
  using assms
proof (induction rule: urandom_read_loop_induct)
  case (finished fd buf len i s)
  show ?case by simp
next
  case (failed fd buf len i s s')
  from failed(2) have "trace s' = trace s @ [Ev_read fd (buf + i) (len - i) (Inl (errno s'))]"
    by (rule sys_read_failE)
  then show ?case
    by (intro exI[of _ "[Ev_read fd (buf + i) (len - i) (Inl (errno s'))]"]) simp
next
  case (retry fd buf len i s s' r)
  from retry(2) have "trace s' = trace s @ [Ev_read fd (buf + i) (len - i) (Inl (errno s'))]"
    by (rule sys_read_failE)
  from this retry.IH show ?case
    by (rule device_run_step) simp
next
  case (progress fd buf len i s ret s' r)
  from progress(2,3) obtain w where
    "trace s' = trace s @ [Ev_read fd (buf + i) (len - i) (Inr w)]"
    by (rule sys_read_okE)
  from this progress.IH show ?case
    by (rule device_run_step) simp
qed

lemma sys_open_traceE:
  assumes "sys_open path fl s = Some (fd, s1)"
  obtains (failed) e where "fd = - 1" "trace s1 = trace s @ [Ev_open path fl (Inl e)]"
    | (opened) n where "fd = int n" "trace s1 = trace s @ [Ev_open path fl (Inr n)]"
  using assms by (auto simp: sys_open_def split: list.splits sum.splits)

lemma sys_fstat_traceE:
  assumes "sys_fstat fd s = Some ((r, m), s1)"
  obtains (failed) e where "r = - 1" "trace s1 = trace s @ [Ev_fstat fd (Inl e)]"
    | (ok) "r = 0" "trace s1 = trace s @ [Ev_fstat fd (Inr m)]"
  using assms by (auto simp: sys_fstat_def split: list.splits sum.splits)

lemma sys_ioctl_traceE:
  assumes "sys_ioctl_RNDGETENTCNT fd s = Some (r, s1)"
  obtains (failed) e where "r = - 1" "trace s1 = trace s @ [Ev_ioctl fd (Inl e)]"
    | (ok) c where "r = 0" "trace s1 = trace s @ [Ev_ioctl fd (Inr c)]"
  using assms by (auto simp: sys_ioctl_RNDGETENTCNT_def split: list.splits sum.splits)

lemma close_protocol:
  assumes "st = Opened fd \<or> st = Char_device fd \<or> st = Checked fd"
  shows "\<exists>evs. trace (snd (nodevrandom (sys_close fd s))) = trace s @ evs
      \<and> device_run st evs = Some No_device"
  using assms by (intro exI[of _ "[Ev_close fd]"]) (auto simp: nodevrandom_def sys_close_def)

lemma getentropy_urandom_start_protocol:
  assumes "getentropy_urandom_start buf len e0 s = Some (ret, s')"
  shows "\<exists>evs. trace s' = trace s @ evs \<and> device_run No_device evs = Some No_device"
  using assms
proof (induction buf len e0 s arbitrary: ret s' rule: getentropy_urandom_start.induct)
  case (1 buf len e0 s)
  let ?goal = "\<lambda>st s. \<exists>evs. trace s' = trace s @ evs \<and> device_run st evs = Some No_device"
  note run = "1.prems"[unfolded getentropy_urandom_start.simps[of buf len e0 s]]
  from run obtain fd s1 where op: "sys_open ''/dev/urandom'' urandom_flags s = Some (fd, s1)"
    by (auto split: option.splits)
  from op show ?case
  proof (cases rule: sys_open_traceE)
    case (failed e)
    have lift1: "?goal No_device s" if "?goal No_device s1"
      using failed(2) that by (rule device_run_step) simp
    show ?thesis
    proof (cases "errno s1 = EINTR")
      case True
      with run op failed(1) have "getentropy_urandom_start buf len e0 s1 = Some (ret, s')"
        by simp
      from "1.IH"[OF op refl failed(1) True this] show ?thesis by (rule lift1)
    next
      case False
      with run op failed(1) have "s' = s1\<lparr>errno := EIO\<rparr>"
        by (simp add: nodevrandom_def)
      then have "?goal No_device s1" by (intro exI[of _ "[]"]) simp
      then show ?thesis by (rule lift1)
    qed
  next
    case (opened n)
    then have ne: "fd \<noteq> - 1" by simp
    have lift1: "?goal No_device s" if "?goal (Opened fd) s1"
      using opened(2) that by (rule device_run_step) (simp add: opened(1))
    from run op ne obtain r m s2 where fs: "sys_fstat fd s1 = Some ((r, m), s2)"
      by (auto split: option.splits)
    have "?goal (Opened fd) s1"
      using fs
    proof (cases rule: sys_fstat_traceE)
      case (failed e)
      with run op ne fs have "s' = snd (nodevrandom (sys_close fd s2))"
        by (auto simp: nodevrandom_def)
      with close_protocol[of "Opened fd" fd s2] have "?goal (Opened fd) s2" by simp
      with failed(2) show ?thesis by (rule device_run_step) simp
    next
      case ok
      show ?thesis
      proof (cases "S_ISCHR m")
        case False
        with run op ne fs ok(1) have "s' = snd (nodevrandom (sys_close fd s2))"
          by (auto simp: nodevrandom_def)
        with close_protocol[of "Opened fd" fd s2] have "?goal (Opened fd) s2" by simp
        with ok(2) show ?thesis by (rule device_run_step) (simp add: False)
      next
        case chr: True
        from run op ne fs ok(1) chr obtain r' s3 where
          io: "sys_ioctl_RNDGETENTCNT fd s2 = Some (r', s3)"
          by (auto split: option.splits)
        have "?goal (Char_device fd) s2"
          using io
        proof (cases rule: sys_ioctl_traceE)
          case (failed e)
          with run op ne fs ok(1) chr io have "s' = snd (nodevrandom (sys_close fd s3))"
            by (auto simp: nodevrandom_def)
          with close_protocol[of "Char_device fd" fd s3] have "?goal (Char_device fd) s3"
            by simp
          with failed(2) show ?thesis by (rule device_run_step) simp
        next
          case (ok c)
          with run op ne fs \<open>r = 0\<close> chr io obtain rr where
            rd: "urandom_read_loop fd buf len 0 s3 = Some rr"
            and s': "trace s' = trace (final rr) @ [Ev_close fd]"
            by (auto simp: nodevrandom_def sys_close_def split: option.splits sum.splits)
          from urandom_read_loop_protocol[OF rd] obtain evs where
            "trace (final rr) = trace s3 @ evs" "device_run (Checked fd) evs = Some (Checked fd)"
            by blast
          with s' have "?goal (Checked fd) s3"
            by (intro exI[of _ "evs @ [Ev_close fd]"]) (simp add: device_run_append)
          with ok(2) show ?thesis by (rule device_run_step) simp
        qed
        with ok(2) show ?thesis by (rule device_run_step) (simp add: chr)
      qed
    qed
    then show ?thesis by (rule lift1)
  qed
qed


lemma trace_extends:
  "fills k p n s r evs \<Longrightarrow> trace (final r) = trace s @ evs \<and> (\<forall>e \<in> set evs. strategy_of e = k)"
  by (simp add: fills_def)

lemma ggentropy_fallback_protocol:
  assumes "ggentropy_fallback cfg buf n s = Some (r, s')"
  shows "\<exists>evs. trace s' = trace s @ evs \<and> device_run No_device evs = Some No_device"
proof -
  from assms obtain ret s2 where ur: "getentropy_urandom buf n s = Some (ret, s2)"
    by (auto simp: ggentropy_fallback_def split: option.splits)
  then obtain evsB where B: "trace s2 = trace s @ evsB"
    "device_run No_device evsB = Some No_device"
    using getentropy_urandom_start_protocol[of buf n "errno s" s ret s2]
    by (auto simp: getentropy_urandom_def)
  show ?thesis
  proof (cases "ret = - 1 \<and> SYS__sysctl cfg")
    case False
    with assms ur have "s' = s2" by (auto simp: ggentropy_fallback_def split: if_splits)
    with B show ?thesis by blast
  next
    case True
    with assms ur obtain ret' where sc: "getentropy_sysctl buf n s2 = Some (ret', s')"
      by (auto simp: ggentropy_fallback_def split: option.splits if_splits)
    from getentropy_sysctl_fills[OF sc] obtain evsC where
      "fills Control buf n s2 (returned ret' s') evsC" by auto
    from trace_extends[OF this] have C: "trace s' = trace s2 @ evsC"
      "\<forall>e \<in> set evsC. strategy_of e \<noteq> Device"
      by (auto simp: returned_def split: if_splits)
    from device_run_other[OF C(2)] B C(1) show ?thesis
      by (intro exI[of _ "evsB @ evsC"]) (simp add: device_run_append)
  qed
qed

lemma ggentropy_linux_protocol:
  assumes "ggentropy_linux cfg buf n s = Some (Inr (r, s'))"
  shows "\<exists>evs. trace s' = trace s @ evs \<and> device_run No_device evs = Some No_device"
proof (cases "SYS_getrandom cfg \<and> getrandom_available s")
  case False
  with assms have "ggentropy_fallback cfg buf n s = Some (r, s')"
    by (auto simp: ggentropy_linux_def split: if_splits)
  then show ?thesis by (rule ggentropy_fallback_protocol)
next
  case True
  with assms obtain ret s1 where gr: "getentropy_getrandom buf n s = Some (ret, s1)"
    by (auto simp: ggentropy_linux_def split: option.splits if_splits)
  from getentropy_getrandom_fills[OF gr] obtain evsA where
    "fills Syscall buf n s (returned ret s1) evsA" by auto
  from trace_extends[OF this] have A: "trace s1 = trace s @ evsA"
    "\<forall>e \<in> set evsA. strategy_of e \<noteq> Device"
    by (auto simp: returned_def split: if_splits)
  show ?thesis
  proof (cases "ret = - 1 \<and> errno s1 = ENOSYS")
    case False
    with assms True gr have "s' = s1"
      by (auto simp: ggentropy_linux_def split: if_splits)
    with A device_run_other[OF A(2)] show ?thesis by blast
  next
    case enosys: True
    with assms True gr
    have "ggentropy_fallback cfg buf n (s1\<lparr>getrandom_available := False\<rparr>) = Some (r, s')"
      by (auto simp: ggentropy_linux_def split: if_splits)
    from ggentropy_fallback_protocol[OF this] obtain evsF where
      "trace s' = trace s1 @ evsF" "device_run No_device evsF = Some No_device"
      by auto
    with A(1) device_run_other[OF A(2), of No_device] show ?thesis
      by (intro exI[of _ "evsA @ evsF"]) (simp add: device_run_append)
  qed
qed

text \<open>A trace that keeps the protocol reads only from a descriptor it opened.\<close>

lemma device_run_reads:
  assumes "device_run st evs = Some fin" "Ev_read fd p k x \<in> set evs"
  shows "st = Opened fd \<or> st = Char_device fd \<or> st = Checked fd
    \<or> (\<exists>n. fd = int n \<and> Ev_open ''/dev/urandom'' urandom_flags (Inr n) \<in> set evs)"
  using assms
proof (induction evs arbitrary: st)
  case Nil
  then show ?case by simp
next
  case (Cons e evs)
  from Cons.prems(1) obtain st1 where st1: "device_step st e = Some st1"
    "device_run st1 evs = Some fin"
    by (auto split: option.splits)
  show ?case
  proof (cases "e = Ev_read fd p k x")
    case True
    with st1(1) show ?thesis by (simp split: if_splits)
  next
    case False
    with Cons.prems(2) have "Ev_read fd p k x \<in> set evs" by simp
    from Cons.IH[OF st1(2) this]
    have "st1 = Opened fd \<or> st1 = Char_device fd \<or> st1 = Checked fd
      \<or> (\<exists>n. fd = int n \<and> Ev_open ''/dev/urandom'' urandom_flags (Inr n) \<in> set evs)" .
    with st1(1) show ?thesis
      by (cases e) (auto split: if_splits sum.splits)
  qed
qed

subsection \<open>Loops on given answers\<close>

lemma no_hard_failure_simps [simp]:
  "no_hard_failure tr [] = True"
  "no_hard_failure tr (Inr bs # rs) = no_hard_failure tr rs"
  "no_hard_failure tr (Inl e # rs) = (tr (Inl e) \<and> no_hard_failure tr rs)"
  by (simp_all add: no_hard_failure_def)

lemma take_append_answer:
  "take n (bs @ cs) = take n bs @ take (n - length (take n bs)) cs"
  by (cases "length bs \<le> n") (simp_all add: min_def)

subsection \<open>getrandom: one turn of the loop\<close>

lemma getrandom_loop_finished: "\<not> 0 < left \<Longrightarrow> getrandom_loop p left s = Some (Inr s)"
  by (simp add: getrandom_loop.simps)

lemma getrandom_loop_retry:
  assumes "0 < left" "getrandom_rs s = Inl EINTR # rs"
  shows "getrandom_loop p left s =
     getrandom_loop p left
       (s\<lparr>errno := EINTR, getrandom_rs := rs,
          trace := trace s @ [Ev_getrandom p (nat left) (Inl EINTR)]\<rparr>)"
  using assms by (simp add: getrandom_loop.simps[of p left s] sys_getrandom_def)

lemma getrandom_loop_fail:
  assumes "0 < left" "getrandom_rs s = Inl e # rs" "e \<noteq> EINTR"
  shows "getrandom_loop p left s =
     Some (Inl (s\<lparr>errno := e, getrandom_rs := rs,
                  trace := trace s @ [Ev_getrandom p (nat left) (Inl e)]\<rparr>))"
  using assms by (simp add: getrandom_loop.simps[of p left s] sys_getrandom_def)

lemma getrandom_loop_progress:
  assumes "0 < left" "getrandom_rs s = Inr bs # rs" "w = take (nat left) bs"
  shows "getrandom_loop p left s =
     getrandom_loop (p + length w) (left - int (length w))
       (s\<lparr>mem := store_bytes (mem s) p w, getrandom_rs := rs,
          trace := trace s @ [Ev_getrandom p (nat left) (Inr w)]\<rparr>)"
  using assms by (simp add: getrandom_loop.simps[of p left s] sys_getrandom_def Let_def)

lemma getrandom_loop_completes:
  assumes "getrandom_rs s = pre @ rest" "no_hard_failure transient_getrandom pre"
    "nat left \<le> length (concat (map answer_bytes pre))"
  shows "\<exists>s'. getrandom_loop p left s = Some (Inr s')
      \<and> load_bytes (mem s') p (nat left) = take (nat left) (concat (map answer_bytes pre))"
  using assms
proof (induction pre arbitrary: s p left)
  case Nil
  then have "\<not> 0 < left" by simp
  then show ?case by (simp add: getrandom_loop_finished)
next
  case (Cons x pre)
  show ?case
  proof (cases "0 < left")
    case False
    then show ?thesis by (simp add: getrandom_loop_finished)
  next
    case True
    show ?thesis
    proof (cases x)
      case (Inl e)
      with Cons.prems(2) have e: "e = EINTR" by (simp add: transient_getrandom_def)
      let ?s1 = "s\<lparr>errno := EINTR, getrandom_rs := pre @ rest,
          trace := trace s @ [Ev_getrandom p (nat left) (Inl EINTR)]\<rparr>"
      from Cons.prems(1) Inl e have "getrandom_rs s = Inl EINTR # (pre @ rest)" by simp
      from getrandom_loop_retry[OF True this]
      have step: "getrandom_loop p left s = getrandom_loop p left ?s1" .
      have "getrandom_rs ?s1 = pre @ rest" by simp
      moreover have "no_hard_failure transient_getrandom pre"
        using Cons.prems(2) Inl by simp
      moreover have "nat left \<le> length (concat (map answer_bytes pre))"
        using Cons.prems(3) Inl by simp
      ultimately obtain s' where "getrandom_loop p left ?s1 = Some (Inr s')"
        "load_bytes (mem s') p (nat left) = take (nat left) (concat (map answer_bytes pre))"
        using Cons.IH by blast
      with step Inl show ?thesis by simp
    next
      case (Inr bs)
      define w where "w = take (nat left) bs"
      let ?s1 = "s\<lparr>mem := store_bytes (mem s) p w, getrandom_rs := pre @ rest,
          trace := trace s @ [Ev_getrandom p (nat left) (Inr w)]\<rparr>"
      from Cons.prems(1) Inr have "getrandom_rs s = Inr bs # (pre @ rest)" by simp
      from getrandom_loop_progress[OF True this w_def]
      have step: "getrandom_loop p left s
          = getrandom_loop (p + length w) (left - int (length w)) ?s1" .
      have len: "nat (left - int (length w)) = nat left - length w"
        by simp
      have "getrandom_rs ?s1 = pre @ rest" by simp
      moreover have "no_hard_failure transient_getrandom pre"
        using Cons.prems(2) Inr by simp
      moreover have "nat (left - int (length w)) \<le> length (concat (map answer_bytes pre))"
      proof -
        have "nat left \<le> length bs + length (concat (map answer_bytes pre))"
          using Cons.prems(3) Inr by simp
        moreover have "length w = min (nat left) (length bs)" by (simp add: w_def)
        ultimately show ?thesis by arith
      qed
      ultimately obtain s' where
        s': "getrandom_loop (p + length w) (left - int (length w)) ?s1 = Some (Inr s')"
        and bytes: "load_bytes (mem s') (p + length w) (nat left - length w)
          = take (nat left - length w) (concat (map answer_bytes pre))"
        using Cons.IH[of ?s1 "left - int (length w)" "p + length w"] unfolding len by blast
      from getrandom_loop_fills[OF s'] obtain evs where
        "fills Syscall (p + length w) (nat (left - int (length w))) ?s1 (Inr s') evs" ..
      then have frame: "\<And>a. a < p + length w \<Longrightarrow> mem s' a = mem ?s1 a"
        by (simp add: fills_def)
      have "load_bytes (mem s') p (length w) = load_bytes (mem ?s1) p (length w)"
        by (rule load_bytes_cong) (rule frame)
      then have first: "load_bytes (mem s') p (length w) = w"
        by (simp add: load_store_bytes)
      have "length w \<le> nat left" by (simp add: w_def)
      then have "nat left = length w + (nat left - length w)" by simp
      then have "load_bytes (mem s') p (nat left)
          = load_bytes (mem s') p (length w)
            @ load_bytes (mem s') (p + length w) (nat left - length w)"
        using load_bytes_add[of "mem s'" p "length w" "nat left - length w"] by simp
      also have "\<dots> = w @ take (nat left - length w) (concat (map answer_bytes pre))"
        by (simp only: first bytes)
      also have "\<dots> = take (nat left) (bs @ concat (map answer_bytes pre))"
        unfolding w_def by (rule take_append_answer[symmetric])
      finally show ?thesis using step s' Inr by simp
    qed
  qed
qed

lemma getrandom_loop_hard_error:
  assumes "getrandom_rs s = pre @ Inl e # rest" "no_hard_failure transient_getrandom pre"
    "length (concat (map answer_bytes pre)) < nat left" "e \<noteq> EINTR"
  shows "\<exists>s1. getrandom_loop p left s = Some (Inl s1) \<and> errno s1 = e
      \<and> getrandom_rs s1 = rest"
  using assms
proof (induction pre arbitrary: s p left)
  case Nil
  then have "0 < left" "getrandom_rs s = Inl e # rest" by simp_all
  from getrandom_loop_fail[OF this Nil.prems(4)] show ?case by simp
next
  case (Cons x pre)
  from Cons.prems(3) have True: "0 < left" by simp
  show ?case
  proof (cases x)
    case (Inl e')
    with Cons.prems(2) have e: "e' = EINTR" by (simp add: transient_getrandom_def)
    let ?s1 = "s\<lparr>errno := EINTR, getrandom_rs := pre @ Inl e # rest,
        trace := trace s @ [Ev_getrandom p (nat left) (Inl EINTR)]\<rparr>"
    from Cons.prems(1) Inl e have "getrandom_rs s = Inl EINTR # (pre @ Inl e # rest)" by simp
    from getrandom_loop_retry[OF True this]
    have step: "getrandom_loop p left s = getrandom_loop p left ?s1" .
    have "getrandom_rs ?s1 = pre @ Inl e # rest" by simp
    moreover have "no_hard_failure transient_getrandom pre"
      using Cons.prems(2) Inl by simp
    moreover have "length (concat (map answer_bytes pre)) < nat left"
      using Cons.prems(3) Inl by simp
    ultimately show ?thesis
      unfolding step using Cons.prems(4) by (rule Cons.IH)
  next
    case (Inr bs)
    define w where "w = take (nat left) bs"
    let ?s1 = "s\<lparr>mem := store_bytes (mem s) p w, getrandom_rs := pre @ Inl e # rest,
        trace := trace s @ [Ev_getrandom p (nat left) (Inr w)]\<rparr>"
    from Cons.prems(1) Inr have "getrandom_rs s = Inr bs # (pre @ Inl e # rest)" by simp
    from getrandom_loop_progress[OF True this w_def]
    have step: "getrandom_loop p left s
        = getrandom_loop (p + length w) (left - int (length w)) ?s1" .
    have "getrandom_rs ?s1 = pre @ Inl e # rest" by simp
    moreover have "no_hard_failure transient_getrandom pre"
      using Cons.prems(2) Inr by simp
    moreover have "length (concat (map answer_bytes pre)) < nat (left - int (length w))"
    proof -
      have "length bs + length (concat (map answer_bytes pre)) < nat left"
        using Cons.prems(3) Inr by simp
      moreover have "length w = min (nat left) (length bs)" by (simp add: w_def)
      ultimately show ?thesis by arith
    qed
    ultimately show ?thesis
      unfolding step using Cons.prems(4) by (rule Cons.IH)
  qed
qed


lemma getrandom_loop_frame:
  assumes "getrandom_loop p left s = Some r"
  shows "open_rs (final r) = open_rs s \<and> fstat_rs (final r) = fstat_rs s
    \<and> ioctl_rs (final r) = ioctl_rs s \<and> read_rs (final r) = read_rs s
    \<and> sysctl_rs (final r) = sysctl_rs s"
  using assms
proof (induction rule: getrandom_loop_induct)
  case (finished p left s)
  show ?case by simp
next
  case (failed p left s s')
  from failed(2) show ?case by (cases rule: sys_getrandom_cases) simp_all
next
  case (retry p left s s' r)
  from retry(2) have "open_rs s' = open_rs s \<and> fstat_rs s' = fstat_rs s
    \<and> ioctl_rs s' = ioctl_rs s \<and> read_rs s' = read_rs s \<and> sysctl_rs s' = sysctl_rs s"
    by (cases rule: sys_getrandom_cases) simp_all
  with retry.IH show ?case by simp
next
  case (progress p left s ret s' r)
  from progress(2) have "open_rs s' = open_rs s \<and> fstat_rs s' = fstat_rs s
    \<and> ioctl_rs s' = ioctl_rs s \<and> read_rs s' = read_rs s \<and> sysctl_rs s' = sysctl_rs s"
    by (cases rule: sys_getrandom_cases) simp_all
  with progress.IH show ?case by simp
qed

subsection \<open>read: one turn of the loop\<close>

lemma urandom_read_loop_finished:
  "\<not> i < len \<Longrightarrow> urandom_read_loop fd buf len i s = Some (Inr s)"
  by (simp add: urandom_read_loop.simps)

lemma urandom_read_loop_retry:
  assumes "i < len" "read_rs s = Inl e # rs" "e = EAGAIN \<or> e = EINTR"
  shows "urandom_read_loop fd buf len i s =
     urandom_read_loop fd buf len i
       (s\<lparr>errno := e, read_rs := rs,
          trace := trace s @ [Ev_read fd (buf + i) (len - i) (Inl e)]\<rparr>)"
  using assms by (auto simp: urandom_read_loop.simps[of fd buf len i s] sys_read_def)

lemma urandom_read_loop_fail:
  assumes "i < len" "read_rs s = Inl e # rs" "e \<noteq> EAGAIN" "e \<noteq> EINTR"
  shows "urandom_read_loop fd buf len i s =
     Some (Inl (s\<lparr>errno := e, read_rs := rs,
                  trace := trace s @ [Ev_read fd (buf + i) (len - i) (Inl e)]\<rparr>))"
  using assms by (simp add: urandom_read_loop.simps[of fd buf len i s] sys_read_def)

lemma urandom_read_loop_progress:
  assumes "i < len" "read_rs s = Inr bs # rs" "w = take (len - i) bs"
  shows "urandom_read_loop fd buf len i s =
     urandom_read_loop fd buf len (i + length w)
       (s\<lparr>mem := store_bytes (mem s) (buf + i) w, read_rs := rs,
          trace := trace s @ [Ev_read fd (buf + i) (len - i) (Inr w)]\<rparr>)"
  using assms
  by (simp add: urandom_read_loop.simps[of fd buf len i s] sys_read_def Let_def)

lemma urandom_read_loop_completes:
  assumes "read_rs s = pre @ rest" "no_hard_failure transient_read pre"
    "len - i \<le> length (concat (map answer_bytes pre))"
  shows "\<exists>s'. urandom_read_loop fd buf len i s = Some (Inr s')
      \<and> load_bytes (mem s') (buf + i) (len - i) = take (len - i) (concat (map answer_bytes pre))"
  using assms
proof (induction pre arbitrary: s i)
  case Nil
  then have "\<not> i < len" by simp
  then show ?case by (simp add: urandom_read_loop_finished)
next
  case (Cons x pre)
  show ?case
  proof (cases "i < len")
    case False
    then show ?thesis by (simp add: urandom_read_loop_finished)
  next
    case True
    show ?thesis
    proof (cases x)
      case (Inl e)
      with Cons.prems(2) have e: "e = EAGAIN \<or> e = EINTR" by (simp add: transient_read_def)
      let ?s1 = "s\<lparr>errno := e, read_rs := pre @ rest,
          trace := trace s @ [Ev_read fd (buf + i) (len - i) (Inl e)]\<rparr>"
      from Cons.prems(1) Inl have "read_rs s = Inl e # (pre @ rest)" by simp
      from urandom_read_loop_retry[OF True this e]
      have step: "urandom_read_loop fd buf len i s = urandom_read_loop fd buf len i ?s1" .
      have "read_rs ?s1 = pre @ rest" by simp
      moreover have "no_hard_failure transient_read pre"
        using Cons.prems(2) Inl by simp
      moreover have "len - i \<le> length (concat (map answer_bytes pre))"
        using Cons.prems(3) Inl by simp
      ultimately obtain s' where "urandom_read_loop fd buf len i ?s1 = Some (Inr s')"
        "load_bytes (mem s') (buf + i) (len - i) = take (len - i) (concat (map answer_bytes pre))"
        using Cons.IH by blast
      with step Inl show ?thesis by simp
    next
      case (Inr bs)
      define w where "w = take (len - i) bs"
      let ?s1 = "s\<lparr>mem := store_bytes (mem s) (buf + i) w, read_rs := pre @ rest,
          trace := trace s @ [Ev_read fd (buf + i) (len - i) (Inr w)]\<rparr>"
      from Cons.prems(1) Inr have "read_rs s = Inr bs # (pre @ rest)" by simp
      from urandom_read_loop_progress[OF True this w_def]
      have step: "urandom_read_loop fd buf len i s
          = urandom_read_loop fd buf len (i + length w) ?s1" .
      have lw: "length w = min (len - i) (length bs)" by (simp add: w_def)
      have len: "len - (i + length w) = len - i - length w" by simp
      have "read_rs ?s1 = pre @ rest" by simp
      moreover have "no_hard_failure transient_read pre"
        using Cons.prems(2) Inr by simp
      moreover have "len - (i + length w) \<le> length (concat (map answer_bytes pre))"
      proof -
        have "len - i \<le> length bs + length (concat (map answer_bytes pre))"
          using Cons.prems(3) Inr by simp
        with lw show ?thesis by arith
      qed
      ultimately obtain s' where
        s': "urandom_read_loop fd buf len (i + length w) ?s1 = Some (Inr s')"
        and bytes: "load_bytes (mem s') (buf + (i + length w)) (len - (i + length w))
          = take (len - (i + length w)) (concat (map answer_bytes pre))"
        using Cons.IH[of ?s1 "i + length w"] by blast
      from urandom_read_loop_fills[OF s'] obtain evs where
        "fills Device (buf + (i + length w)) (len - (i + length w)) ?s1 (Inr s') evs" ..
      then have frame: "\<And>a. a < buf + i + length w \<Longrightarrow> mem s' a = mem ?s1 a"
        by (simp add: fills_def add.assoc)
      have "load_bytes (mem s') (buf + i) (length w) = load_bytes (mem ?s1) (buf + i) (length w)"
        by (rule load_bytes_cong) (rule frame)
      then have first: "load_bytes (mem s') (buf + i) (length w) = w"
        by (simp add: load_store_bytes)
      have "length w \<le> len - i" by (simp add: w_def)
      then have "len - i = length w + (len - i - length w)" by simp
      then have "load_bytes (mem s') (buf + i) (len - i)
          = load_bytes (mem s') (buf + i) (length w)
            @ load_bytes (mem s') (buf + i + length w) (len - i - length w)"
        using load_bytes_add[of "mem s'" "buf + i" "length w" "len - i - length w"] by simp
      also have "\<dots> = w @ take (len - i - length w) (concat (map answer_bytes pre))"
        using bytes by (simp only: first len add.assoc)
      also have "\<dots> = take (len - i) (bs @ concat (map answer_bytes pre))"
        unfolding w_def by (rule take_append_answer[symmetric])
      finally show ?thesis using step s' Inr by simp
    qed
  qed
qed

lemma urandom_read_loop_hard_error:
  assumes "read_rs s = pre @ Inl e # rest" "no_hard_failure transient_read pre"
    "length (concat (map answer_bytes pre)) < len - i" "e \<noteq> EAGAIN" "e \<noteq> EINTR"
  shows "\<exists>s1. urandom_read_loop fd buf len i s = Some (Inl s1) \<and> errno s1 = e
      \<and> read_rs s1 = rest"
  using assms
proof (induction pre arbitrary: s i)
  case Nil
  then have "i < len" "read_rs s = Inl e # rest" by simp_all
  from urandom_read_loop_fail[OF this Nil.prems(4,5)] show ?case by simp
next
  case (Cons x pre)
  from Cons.prems(3) have True: "i < len" by simp
  show ?case
  proof (cases x)
    case (Inl e')
    with Cons.prems(2) have e: "e' = EAGAIN \<or> e' = EINTR" by (simp add: transient_read_def)
    let ?s1 = "s\<lparr>errno := e', read_rs := pre @ Inl e # rest,
        trace := trace s @ [Ev_read fd (buf + i) (len - i) (Inl e')]\<rparr>"
    from Cons.prems(1) Inl have "read_rs s = Inl e' # (pre @ Inl e # rest)" by simp
    from urandom_read_loop_retry[OF True this e]
    have step: "urandom_read_loop fd buf len i s = urandom_read_loop fd buf len i ?s1" .
    have "read_rs ?s1 = pre @ Inl e # rest" by simp
    moreover have "no_hard_failure transient_read pre"
      using Cons.prems(2) Inl by simp
    moreover have "length (concat (map answer_bytes pre)) < len - i"
      using Cons.prems(3) Inl by simp
    ultimately show ?thesis
      unfolding step using Cons.prems(4,5) by (rule Cons.IH)
  next
    case (Inr bs)
    define w where "w = take (len - i) bs"
    let ?s1 = "s\<lparr>mem := store_bytes (mem s) (buf + i) w, read_rs := pre @ Inl e # rest,
        trace := trace s @ [Ev_read fd (buf + i) (len - i) (Inr w)]\<rparr>"
    from Cons.prems(1) Inr have "read_rs s = Inr bs # (pre @ Inl e # rest)" by simp
    from urandom_read_loop_progress[OF True this w_def]
    have step: "urandom_read_loop fd buf len i s
        = urandom_read_loop fd buf len (i + length w) ?s1" .
    have "read_rs ?s1 = pre @ Inl e # rest" by simp
    moreover have "no_hard_failure transient_read pre"
      using Cons.prems(2) Inr by simp
    moreover have "length (concat (map answer_bytes pre)) < len - (i + length w)"
    proof -
      have "length bs + length (concat (map answer_bytes pre)) < len - i"
        using Cons.prems(3) Inr by simp
      moreover have "length w = min (len - i) (length bs)" by (simp add: w_def)
      ultimately show ?thesis by arith
    qed
    ultimately show ?thesis
      unfolding step using Cons.prems(4,5) by (rule Cons.IH)
  qed
qed

lemma urandom_read_loop_frame:
  assumes "urandom_read_loop fd buf len i s = Some r"
  shows "getrandom_rs (final r) = getrandom_rs s \<and> sysctl_rs (final r) = sysctl_rs s"
  using assms
proof (induction rule: urandom_read_loop_induct)
  case (finished fd buf len i s)
  show ?case by simp
next
  case (failed fd buf len i s s')
  from failed(2) show ?case by (cases rule: sys_read_cases) simp_all
next
  case (retry fd buf len i s s' r)
  from retry(2) have "getrandom_rs s' = getrandom_rs s \<and> sysctl_rs s' = sysctl_rs s"
    by (cases rule: sys_read_cases) simp_all
  with retry.IH show ?case by simp
next
  case (progress fd buf len i s ret s' r)
  from progress(2) have "getrandom_rs s' = getrandom_rs s \<and> sysctl_rs s' = sysctl_rs s"
    by (cases rule: sys_read_cases) simp_all
  with progress.IH show ?case by simp
qed

subsection \<open>sysctl: one turn of the loop\<close>

lemma sysctl_loop_finished: "\<not> i < len \<Longrightarrow> sysctl_loop buf len i s = Some (Inr s)"
  by (simp add: sysctl_loop.simps)

lemma sysctl_loop_fail:
  assumes "i < len" "sysctl_rs s = Inl e # rs"
  shows "sysctl_loop buf len i s =
     Some (Inl (s\<lparr>errno := e, sysctl_rs := rs,
                  trace := trace s @ [Ev_sysctl (buf + i) (min_sz (len - i) 16) (Inl e)]\<rparr>))"
  using assms by (simp add: sysctl_loop.simps[of buf len i s] sys_sysctl_def Let_def)

lemma sysctl_loop_progress:
  assumes "i < len" "sysctl_rs s = Inr bs # rs" "w = take (min_sz (len - i) 16) bs"
  shows "sysctl_loop buf len i s =
     sysctl_loop buf len (i + length w)
       (s\<lparr>mem := store_bytes (mem s) (buf + i) w, sysctl_rs := rs,
          trace := trace s @ [Ev_sysctl (buf + i) (min_sz (len - i) 16) (Inr w)]\<rparr>)"
  using assms by (simp add: sysctl_loop.simps[of buf len i s] sys_sysctl_def Let_def)

lemma sysctl_chunk: "take (min_sz k 16) bs = take k (take 16 bs)"
  by (simp add: min_sz_def min_def)

lemma sysctl_loop_completes:
  assumes "sysctl_rs s = pre @ rest" "no_hard_failure (\<lambda>r. False) pre"
    "len - i \<le> length (concat (map (\<lambda>r. take 16 (answer_bytes r)) pre))"
  shows "\<exists>s'. sysctl_loop buf len i s = Some (Inr s')
      \<and> load_bytes (mem s') (buf + i) (len - i)
          = take (len - i) (concat (map (\<lambda>r. take 16 (answer_bytes r)) pre))"
  using assms
proof (induction pre arbitrary: s i)
  case Nil
  then have "\<not> i < len" by simp
  then show ?case by (simp add: sysctl_loop_finished)
next
  case (Cons x pre)
  show ?case
  proof (cases "i < len")
    case False
    then show ?thesis by (simp add: sysctl_loop_finished)
  next
    case True
    from Cons.prems(2) obtain bs where Inr: "x = Inr bs" by (cases x) simp_all
    define w where "w = take (min_sz (len - i) 16) bs"
    let ?s1 = "s\<lparr>mem := store_bytes (mem s) (buf + i) w, sysctl_rs := pre @ rest,
        trace := trace s @ [Ev_sysctl (buf + i) (min_sz (len - i) 16) (Inr w)]\<rparr>"
    from Cons.prems(1) Inr have "sysctl_rs s = Inr bs # (pre @ rest)" by simp
    from sysctl_loop_progress[OF True this w_def]
    have step: "sysctl_loop buf len i s = sysctl_loop buf len (i + length w) ?s1" .
    have w: "w = take (len - i) (take 16 bs)" by (simp add: w_def sysctl_chunk)
    have lw: "length w = min (len - i) (length (take 16 bs))" by (simp add: w)
    have len: "len - (i + length w) = len - i - length w" by simp
    have "sysctl_rs ?s1 = pre @ rest" by simp
    moreover have "no_hard_failure (\<lambda>r. False) pre"
      using Cons.prems(2) Inr by simp
    moreover have "len - (i + length w)
        \<le> length (concat (map (\<lambda>r. take 16 (answer_bytes r)) pre))"
    proof -
      have "len - i \<le> length (take 16 bs)
          + length (concat (map (\<lambda>r. take 16 (answer_bytes r)) pre))"
        using Cons.prems(3) Inr by simp
      with lw show ?thesis by arith
    qed
    ultimately obtain s' where
      s': "sysctl_loop buf len (i + length w) ?s1 = Some (Inr s')"
      and bytes: "load_bytes (mem s') (buf + (i + length w)) (len - (i + length w))
        = take (len - (i + length w)) (concat (map (\<lambda>r. take 16 (answer_bytes r)) pre))"
      using Cons.IH[of ?s1 "i + length w"] by blast
    from sysctl_loop_fills[OF s'] obtain evs where
      "fills Control (buf + (i + length w)) (len - (i + length w)) ?s1 (Inr s') evs" ..
    then have frame: "\<And>a. a < buf + i + length w \<Longrightarrow> mem s' a = mem ?s1 a"
      by (simp add: fills_def add.assoc)
    have "load_bytes (mem s') (buf + i) (length w) = load_bytes (mem ?s1) (buf + i) (length w)"
      by (rule load_bytes_cong) (rule frame)
    then have first: "load_bytes (mem s') (buf + i) (length w) = w"
      by (simp add: load_store_bytes)
    have "length w \<le> len - i" by (simp add: w)
    then have "len - i = length w + (len - i - length w)" by simp
    then have "load_bytes (mem s') (buf + i) (len - i)
        = load_bytes (mem s') (buf + i) (length w)
          @ load_bytes (mem s') (buf + i + length w) (len - i - length w)"
      using load_bytes_add[of "mem s'" "buf + i" "length w" "len - i - length w"] by simp
    also have "\<dots> = w @ take (len - i - length w)
        (concat (map (\<lambda>r. take 16 (answer_bytes r)) pre))"
      using bytes by (simp only: first len add.assoc)
    also have "\<dots> = take (len - i) (take 16 bs @ concat (map (\<lambda>r. take 16 (answer_bytes r)) pre))"
      unfolding w by (rule take_append_answer[symmetric])
    finally show ?thesis using step s' Inr by simp
  qed
qed

lemma sysctl_loop_hard_error:
  assumes "sysctl_rs s = pre @ Inl e # rest" "no_hard_failure (\<lambda>r. False) pre"
    "length (concat (map (\<lambda>r. take 16 (answer_bytes r)) pre)) < len - i"
  shows "\<exists>s1. sysctl_loop buf len i s = Some (Inl s1) \<and> errno s1 = e \<and> sysctl_rs s1 = rest"
  using assms
proof (induction pre arbitrary: s i)
  case Nil
  then have "i < len" "sysctl_rs s = Inl e # rest" by simp_all
  from sysctl_loop_fail[OF this] show ?case by simp
next
  case (Cons x pre)
  from Cons.prems(3) have True: "i < len" by simp
  from Cons.prems(2) obtain bs where Inr: "x = Inr bs" by (cases x) simp_all
  define w where "w = take (min_sz (len - i) 16) bs"
  let ?s1 = "s\<lparr>mem := store_bytes (mem s) (buf + i) w, sysctl_rs := pre @ Inl e # rest,
      trace := trace s @ [Ev_sysctl (buf + i) (min_sz (len - i) 16) (Inr w)]\<rparr>"
  from Cons.prems(1) Inr have "sysctl_rs s = Inr bs # (pre @ Inl e # rest)" by simp
  from sysctl_loop_progress[OF True this w_def]
  have step: "sysctl_loop buf len i s = sysctl_loop buf len (i + length w) ?s1" .
  have "sysctl_rs ?s1 = pre @ Inl e # rest" by simp
  moreover have "no_hard_failure (\<lambda>r. False) pre"
    using Cons.prems(2) Inr by simp
  moreover have "length (concat (map (\<lambda>r. take 16 (answer_bytes r)) pre)) < len - (i + length w)"
  proof -
    have "length (take 16 bs) + length (concat (map (\<lambda>r. take 16 (answer_bytes r)) pre)) < len - i"
      using Cons.prems(3) Inr by simp
    moreover have "length w = min (len - i) (length (take 16 bs))"
      by (simp add: w_def sysctl_chunk)
    ultimately show ?thesis by arith
  qed
  ultimately have "\<exists>s1. sysctl_loop buf len (i + length w) ?s1 = Some (Inl s1)
      \<and> errno s1 = e \<and> sysctl_rs s1 = rest"
    by (rule Cons.IH)
  with step show ?case by simp
qed


subsection \<open>The helpers on given answers\<close>

lemma getentropy_getrandom_completes:
  assumes "getrandom_rs s = pre @ rest" "no_hard_failure transient_getrandom pre"
    "n \<le> length (concat (map answer_bytes pre))"
  shows "\<exists>s'. getentropy_getrandom buf n s = Some (0, s')
      \<and> load_bytes (mem s') buf n = take n (concat (map answer_bytes pre))"
proof -
  from getrandom_loop_completes[OF assms(1,2), of "int n" buf] assms(3)
  obtain t where "getrandom_loop buf (int n) s = Some (Inr t)"
    "load_bytes (mem t) buf n = take n (concat (map answer_bytes pre))"
    by auto
  then show ?thesis by (simp add: getentropy_getrandom_def)
qed

lemma getentropy_getrandom_hard_error:
  assumes "getrandom_rs s = pre @ Inl e # rest" "no_hard_failure transient_getrandom pre"
    "length (concat (map answer_bytes pre)) < n" "e \<noteq> EINTR"
  shows "\<exists>s1. getentropy_getrandom buf n s = Some (- 1, s1) \<and> errno s1 = e
      \<and> getrandom_rs s1 = rest \<and> open_rs s1 = open_rs s \<and> fstat_rs s1 = fstat_rs s
      \<and> ioctl_rs s1 = ioctl_rs s \<and> read_rs s1 = read_rs s \<and> sysctl_rs s1 = sysctl_rs s"
proof -
  from getrandom_loop_hard_error[OF assms(1,2) _ assms(4), of "int n" buf] assms(3)
  obtain s1 where s1: "getrandom_loop buf (int n) s = Some (Inl s1)" "errno s1 = e"
    "getrandom_rs s1 = rest"
    by auto
  from getrandom_loop_frame[OF s1(1)] s1 show ?thesis
    by (simp add: getentropy_getrandom_def)
qed

lemma getentropy_urandom_start_interrupted:
  assumes "open_rs s = replicate j (Inl EINTR) @ os"
  shows "getentropy_urandom_start buf len e0 s =
     getentropy_urandom_start buf len e0
       (s\<lparr>errno := (if j = 0 then errno s else EINTR), open_rs := os,
          trace := trace s @ replicate j (Ev_open ''/dev/urandom'' urandom_flags (Inl EINTR))\<rparr>)"
  using assms
proof (induction j arbitrary: s)
  case 0
  then have os: "os = open_rs s" by simp
  show ?case unfolding os by simp
next
  case (Suc j)
  let ?ev = "Ev_open ''/dev/urandom'' urandom_flags (Inl EINTR)"
  let ?s1 = "s\<lparr>errno := EINTR, open_rs := replicate j (Inl EINTR) @ os,
          trace := trace s @ [?ev]\<rparr>"
  from Suc.prems have "open_rs s = Inl EINTR # replicate j (Inl EINTR) @ os" by simp
  from getentropy_urandom_start_retry[OF this]
  have "getentropy_urandom_start buf len e0 s = getentropy_urandom_start buf len e0 ?s1" .
  also have "open_rs ?s1 = replicate j (Inl EINTR) @ os" by simp
  from Suc.IH[OF this]
  have "getentropy_urandom_start buf len e0 ?s1 =
     getentropy_urandom_start buf len e0
       (?s1\<lparr>errno := (if j = 0 then errno ?s1 else EINTR), open_rs := os,
          trace := trace ?s1 @ replicate j ?ev\<rparr>)" .
  also have "?s1\<lparr>errno := (if j = 0 then errno ?s1 else EINTR), open_rs := os,
          trace := trace ?s1 @ replicate j ?ev\<rparr>
      = s\<lparr>errno := (if Suc j = 0 then errno s else EINTR), open_rs := os,
          trace := trace s @ replicate (Suc j) ?ev\<rparr>"
    by simp
  finally show ?case .
qed

lemma getentropy_urandom_start_accepted:
  assumes "open_rs t = Inr fd # os" "fstat_rs t = Inr m # fs" "S_ISCHR m"
    "ioctl_rs t = Inr c # cs"
  shows "getentropy_urandom_start buf len e0 t =
     (case urandom_read_loop (int fd) buf len 0
             (t\<lparr>open_rs := os, fstat_rs := fs, ioctl_rs := cs,
                trace := trace t @ [Ev_open ''/dev/urandom'' urandom_flags (Inr fd),
                                    Ev_fstat (int fd) (Inr m), Ev_ioctl (int fd) (Inr c)]\<rparr>) of
        None \<Rightarrow> None
      | Some (Inl s4) \<Rightarrow> Some (nodevrandom (sys_close (int fd) s4))
      | Some (Inr s4) \<Rightarrow> Some (0, (sys_close (int fd) s4)\<lparr>errno := e0\<rparr>))"
  using assms
  by (simp add: getentropy_urandom_start.simps[of buf len e0 t] sys_open_def sys_fstat_def
      sys_ioctl_RNDGETENTCNT_def)

lemma getentropy_urandom_completes:
  assumes "open_rs s = replicate j (Inl EINTR) @ Inr fd # os" "fstat_rs s = Inr m # fs"
    "S_ISCHR m" "ioctl_rs s = Inr c # cs"
    and "read_rs s = pre @ rest" "no_hard_failure transient_read pre"
    "n \<le> length (concat (map answer_bytes pre))"
  shows "\<exists>s'. getentropy_urandom buf n s = Some (0, s')
      \<and> load_bytes (mem s') buf n = take n (concat (map answer_bytes pre))"
proof -
  let ?t = "s\<lparr>errno := (if j = 0 then errno s else EINTR), open_rs := Inr fd # os,
          trace := trace s @ replicate j (Ev_open ''/dev/urandom'' urandom_flags (Inl EINTR))\<rparr>"
  let ?s3 = "?t\<lparr>open_rs := os, fstat_rs := fs, ioctl_rs := cs,
                trace := trace ?t @ [Ev_open ''/dev/urandom'' urandom_flags (Inr fd),
                                    Ev_fstat (int fd) (Inr m), Ev_ioctl (int fd) (Inr c)]\<rparr>"
  have "read_rs ?s3 = pre @ rest" using assms(5) by simp
  from urandom_read_loop_completes[OF this assms(6), of n 0 "int fd" buf] assms(7)
  obtain s4 where s4: "urandom_read_loop (int fd) buf n 0 ?s3 = Some (Inr s4)"
    "load_bytes (mem s4) buf n = take n (concat (map answer_bytes pre))"
    by auto
  have "getentropy_urandom buf n s = getentropy_urandom_start buf n (errno s) ?t"
    unfolding getentropy_urandom_def by (rule getentropy_urandom_start_interrupted) (rule assms(1))
  also have "\<dots> = Some (0, (sys_close (int fd) s4)\<lparr>errno := errno s\<rparr>)"
    using assms(2,3,4) s4(1)
    by (subst getentropy_urandom_start_accepted[where fd = fd and os = os and m = m
          and fs = fs and c = c and cs = cs]) simp_all
  finally show ?thesis using s4(2) by (simp add: sys_close_def)
qed

lemma getentropy_urandom_read_fails:
  assumes "open_rs s = replicate j (Inl EINTR) @ Inr fd # os" "fstat_rs s = Inr m # fs"
    "S_ISCHR m" "ioctl_rs s = Inr c # cs"
    and "read_rs s = pre @ Inl e # rest" "no_hard_failure transient_read pre"
    "length (concat (map answer_bytes pre)) < n" "e \<noteq> EAGAIN" "e \<noteq> EINTR"
  shows "\<exists>s2. getentropy_urandom buf n s = Some (- 1, s2) \<and> errno s2 = EIO
      \<and> sysctl_rs s2 = sysctl_rs s"
proof -
  let ?t = "s\<lparr>errno := (if j = 0 then errno s else EINTR), open_rs := Inr fd # os,
          trace := trace s @ replicate j (Ev_open ''/dev/urandom'' urandom_flags (Inl EINTR))\<rparr>"
  let ?s3 = "?t\<lparr>open_rs := os, fstat_rs := fs, ioctl_rs := cs,
                trace := trace ?t @ [Ev_open ''/dev/urandom'' urandom_flags (Inr fd),
                                    Ev_fstat (int fd) (Inr m), Ev_ioctl (int fd) (Inr c)]\<rparr>"
  have "read_rs ?s3 = pre @ Inl e # rest" using assms(5) by simp
  from urandom_read_loop_hard_error[OF this assms(6) _ assms(8,9), of n 0 "int fd" buf] assms(7)
  obtain s4 where s4: "urandom_read_loop (int fd) buf n 0 ?s3 = Some (Inl s4)"
    by auto
  from urandom_read_loop_frame[OF s4] have fr: "sysctl_rs s4 = sysctl_rs s" by simp
  have "getentropy_urandom buf n s = getentropy_urandom_start buf n (errno s) ?t"
    unfolding getentropy_urandom_def by (rule getentropy_urandom_start_interrupted) (rule assms(1))
  also have "\<dots> = Some (nodevrandom (sys_close (int fd) s4))"
    using assms(2,3,4) s4(1)
    by (subst getentropy_urandom_start_accepted[where fd = fd and os = os and m = m
          and fs = fs and c = c and cs = cs]) simp_all
  finally show ?thesis using fr by (simp add: sys_close_def nodevrandom_def)
qed

lemma getentropy_urandom_open_fails:
  assumes "open_rs s = replicate j (Inl EINTR) @ Inl e # os" "e \<noteq> EINTR"
  shows "getentropy_urandom buf n s =
     Some (- 1, s\<lparr>errno := EIO, open_rs := os,
                  trace := trace s
                    @ replicate j (Ev_open ''/dev/urandom'' urandom_flags (Inl EINTR))
                    @ [Ev_open ''/dev/urandom'' urandom_flags (Inl e)]\<rparr>)"
proof -
  let ?t = "s\<lparr>errno := (if j = 0 then errno s else EINTR), open_rs := Inl e # os,
          trace := trace s @ replicate j (Ev_open ''/dev/urandom'' urandom_flags (Inl EINTR))\<rparr>"
  have "getentropy_urandom buf n s = getentropy_urandom_start buf n (errno s) ?t"
    unfolding getentropy_urandom_def by (rule getentropy_urandom_start_interrupted) (rule assms(1))
  also have "\<dots> = Some (- 1, s\<lparr>errno := EIO, open_rs := os,
                  trace := trace s
                    @ replicate j (Ev_open ''/dev/urandom'' urandom_flags (Inl EINTR))
                    @ [Ev_open ''/dev/urandom'' urandom_flags (Inl e)]\<rparr>)"
    using assms(2)
    by (simp add: getentropy_urandom_start.simps[of buf n "errno s" ?t] sys_open_def
        nodevrandom_def)
  finally show ?thesis .
qed

lemma getentropy_sysctl_completes:
  assumes "sysctl_rs s = pre @ rest" "no_hard_failure (\<lambda>r. False) pre"
    "n \<le> length (concat (map (\<lambda>r. take 16 (answer_bytes r)) pre))"
  shows "\<exists>s'. getentropy_sysctl buf n s = Some (0, s')
      \<and> load_bytes (mem s') buf n = take n (concat (map (\<lambda>r. take 16 (answer_bytes r)) pre))"
proof -
  from sysctl_loop_completes[OF assms(1,2), of n 0 buf] assms(3)
  obtain t where "sysctl_loop buf n 0 s = Some (Inr t)"
    "load_bytes (mem t) buf n = take n (concat (map (\<lambda>r. take 16 (answer_bytes r)) pre))"
    by auto
  then show ?thesis by (simp add: getentropy_sysctl_def)
qed

lemma getentropy_sysctl_hard_error:
  assumes "sysctl_rs s = pre @ Inl e # rest" "no_hard_failure (\<lambda>r. False) pre"
    "length (concat (map (\<lambda>r. take 16 (answer_bytes r)) pre)) < n"
  shows "\<exists>s'. getentropy_sysctl buf n s = Some (- 1, s') \<and> errno s' = EIO"
proof -
  from sysctl_loop_hard_error[OF assms(1,2), of n 0 buf] assms(3)
  obtain t where "sysctl_loop buf n 0 s = Some (Inl t)"
    by auto
  then show ?thesis by (simp add: getentropy_sysctl_def)
qed

subsection \<open>\<open>ggentropy\<close> on given answers\<close>

lemma returned_simps [simp]: "returned (- 1) s = Inl s" "returned 0 s = Inr s"
  by (simp_all add: returned_def)

text \<open>Step A is left for the device: it is skipped, or it ends on \<open>ENOSYS\<close>.\<close>

lemma ggentropy_linux_falls_back:
  assumes "n \<le> 256"
    and "\<not> (SYS_getrandom cfg \<and> getrandom_available s)
      \<or> (SYS_getrandom cfg \<and> getrandom_available s
          \<and> getrandom_rs s = pre @ Inl ENOSYS # rest
          \<and> no_hard_failure transient_getrandom pre
          \<and> length (concat (map answer_bytes pre)) < n)"
  shows "\<exists>t evsA. ggentropy_linux cfg buf n s = map_option Inr (ggentropy_fallback cfg buf n t)
      \<and> trace t = trace s @ evsA \<and> (\<forall>ev \<in> set evsA. strategy_of ev = Syscall)
      \<and> open_rs t = open_rs s \<and> fstat_rs t = fstat_rs s \<and> ioctl_rs t = ioctl_rs s
      \<and> read_rs t = read_rs s \<and> sysctl_rs t = sysctl_rs s
      \<and> (getrandom_available t \<longrightarrow> t = s)"
proof (cases "SYS_getrandom cfg \<and> getrandom_available s")
  case False
  with assms(1) have "ggentropy_linux cfg buf n s = map_option Inr (ggentropy_fallback cfg buf n s)"
    by (auto simp: ggentropy_linux_def)
  then show ?thesis by (intro exI[of _ s] exI[of _ "[]"]) simp
next
  case True
  with assms(2) have a: "getrandom_rs s = pre @ Inl ENOSYS # rest"
    "no_hard_failure transient_getrandom pre" "length (concat (map answer_bytes pre)) < n"
    by simp_all
  have "ENOSYS \<noteq> EINTR" by simp
  from getentropy_getrandom_hard_error[OF a this, of buf] obtain s1 where
    s1: "getentropy_getrandom buf n s = Some (- 1, s1)" "errno s1 = ENOSYS"
    "open_rs s1 = open_rs s" "fstat_rs s1 = fstat_rs s" "ioctl_rs s1 = ioctl_rs s"
    "read_rs s1 = read_rs s" "sysctl_rs s1 = sysctl_rs s"
    by blast
  from getentropy_getrandom_fills[OF s1(1)] obtain evsA where
    "fills Syscall buf n s (Inl s1) evsA" by auto
  then have A: "trace s1 = trace s @ evsA" "\<forall>ev \<in> set evsA. strategy_of ev = Syscall"
    by (simp_all add: fills_def)
  let ?t = "s1\<lparr>getrandom_available := False\<rparr>"
  from True assms(1) s1(1,2)
  have "ggentropy_linux cfg buf n s = map_option Inr (ggentropy_fallback cfg buf n ?t)"
    by (simp add: ggentropy_linux_def)
  with A s1 show ?thesis by (intro exI[of _ ?t] exI[of _ evsA]) simp
qed

lemma ggentropy_linux_syscall_succeeds:
  assumes "n \<le> 256" "SYS_getrandom cfg" "getrandom_available s"
    and "getrandom_rs s = pre @ rest" "no_hard_failure transient_getrandom pre"
    "n \<le> length (concat (map answer_bytes pre))"
  shows "\<exists>s'. ggentropy_linux cfg buf n s = Some (Inr (True, s'))
      \<and> load_bytes (mem s') buf n = take n (concat (map answer_bytes pre))
      \<and> (\<forall>ev \<in> set (events_since s s'). strategy_of ev = Syscall)
      \<and> written (events_since s s') = {buf ..< buf + n}"
proof -
  from getentropy_getrandom_completes[OF assms(4,5,6), of buf] obtain s' where
    s': "getentropy_getrandom buf n s = Some (0, s')"
    "load_bytes (mem s') buf n = take n (concat (map answer_bytes pre))"
    by blast
  from getentropy_getrandom_fills[OF s'(1)] obtain evs where
    "fills Syscall buf n s (Inr s') evs" by auto
  then have "trace s' = trace s @ evs" "\<forall>ev \<in> set evs. strategy_of ev = Syscall"
    "written evs = {buf ..< buf + n}"
    by (simp_all add: fills_def)
  then have "\<forall>ev \<in> set (events_since s s'). strategy_of ev = Syscall"
    "written (events_since s s') = {buf ..< buf + n}"
    by (simp_all add: events_since_append)
  moreover from assms(1,2,3) s'(1)
  have "ggentropy_linux cfg buf n s = Some (Inr (True, s'))"
    by (simp add: ggentropy_linux_def)
  ultimately show ?thesis using s'(2) by blast
qed

lemma ggentropy_fallback_device_succeeds:
  assumes "open_rs t = replicate j (Inl EINTR) @ Inr fd # os" "fstat_rs t = Inr m # fs"
    "S_ISCHR m" "ioctl_rs t = Inr c # cs"
    and "read_rs t = pre @ rest" "no_hard_failure transient_read pre"
    "n \<le> length (concat (map answer_bytes pre))"
  shows "\<exists>s' evsB. ggentropy_fallback cfg buf n t = Some (True, s')
      \<and> load_bytes (mem s') buf n = take n (concat (map answer_bytes pre))
      \<and> trace s' = trace t @ evsB \<and> (\<forall>ev \<in> set evsB. strategy_of ev = Device)
      \<and> written evsB = {buf ..< buf + n}"
proof -
  from getentropy_urandom_completes[OF assms, of buf] obtain s' where
    s': "getentropy_urandom buf n t = Some (0, s')"
    "load_bytes (mem s') buf n = take n (concat (map answer_bytes pre))"
    by blast
  from getentropy_urandom_fills[OF s'(1)] obtain evs where
    "fills Device buf n t (Inr s') evs" by auto
  then have "trace s' = trace t @ evs" "\<forall>ev \<in> set evs. strategy_of ev = Device"
    "written evs = {buf ..< buf + n}"
    by (simp_all add: fills_def)
  moreover from s'(1) have "ggentropy_fallback cfg buf n t = Some (True, s')"
    by (simp add: ggentropy_fallback_def)
  ultimately show ?thesis using s'(2) by blast
qed

lemma ggentropy_fallback_control_succeeds:
  assumes "open_rs t = replicate j (Inl EINTR) @ Inl e # os" "e \<noteq> EINTR" "SYS__sysctl cfg"
    and "sysctl_rs t = pre @ rest" "no_hard_failure (\<lambda>r. False) pre"
    "n \<le> length (concat (map (\<lambda>r. take 16 (answer_bytes r)) pre))"
  shows "\<exists>s' evsC. ggentropy_fallback cfg buf n t = Some (True, s')
      \<and> load_bytes (mem s') buf n
          = take n (concat (map (\<lambda>r. take 16 (answer_bytes r)) pre))
      \<and> trace s' = trace t
          @ replicate j (Ev_open ''/dev/urandom'' urandom_flags (Inl EINTR))
          @ [Ev_open ''/dev/urandom'' urandom_flags (Inl e)] @ evsC
      \<and> (\<forall>ev \<in> set evsC. strategy_of ev = Control)
      \<and> written evsC = {buf ..< buf + n}"
proof -
  let ?s2 = "t\<lparr>errno := EIO, open_rs := os,
                  trace := trace t
                    @ replicate j (Ev_open ''/dev/urandom'' urandom_flags (Inl EINTR))
                    @ [Ev_open ''/dev/urandom'' urandom_flags (Inl e)]\<rparr>"
  from getentropy_urandom_open_fails[OF assms(1,2)]
  have B: "getentropy_urandom buf n t = Some (- 1, ?s2)" .
  have "sysctl_rs ?s2 = pre @ rest" using assms(4) by simp
  from getentropy_sysctl_completes[OF this assms(5,6), of buf] obtain s' where
    s': "getentropy_sysctl buf n ?s2 = Some (0, s')"
    "load_bytes (mem s') buf n = take n (concat (map (\<lambda>r. take 16 (answer_bytes r)) pre))"
    by blast
  from getentropy_sysctl_fills[OF s'(1)] obtain evsC where
    "fills Control buf n ?s2 (Inr s') evsC" by auto
  then have "trace s' = trace ?s2 @ evsC" "\<forall>ev \<in> set evsC. strategy_of ev = Control"
    "written evsC = {buf ..< buf + n}"
    by (simp_all add: fills_def)
  moreover from B s'(1) assms(3) have "ggentropy_fallback cfg buf n t = Some (True, s')"
    by (simp add: ggentropy_fallback_def)
  ultimately show ?thesis using s'(2) by (intro exI[of _ s'] exI[of _ evsC]) simp
qed


lemma ggentropy_linux_device_succeeds:
  assumes "n \<le> 256"
    and "\<not> (SYS_getrandom cfg \<and> getrandom_available s)
      \<or> (SYS_getrandom cfg \<and> getrandom_available s
          \<and> getrandom_rs s = preA @ Inl ENOSYS # restA
          \<and> no_hard_failure transient_getrandom preA
          \<and> length (concat (map answer_bytes preA)) < n)"
    and "open_rs s = replicate j (Inl EINTR) @ Inr fd # os" "fstat_rs s = Inr m # fs"
    "S_ISCHR m" "ioctl_rs s = Inr c # cs"
    and "read_rs s = pre @ rest" "no_hard_failure transient_read pre"
    "n \<le> length (concat (map answer_bytes pre))"
  shows "\<exists>s'. ggentropy_linux cfg buf n s = Some (Inr (True, s'))
      \<and> load_bytes (mem s') buf n = take n (concat (map answer_bytes pre))
      \<and> (\<forall>ev \<in> set (events_since s s'). strategy_of ev \<noteq> Control)
      \<and> written (events_since s s') = {buf ..< buf + n}"
proof -
  from ggentropy_linux_falls_back[OF assms(1,2), of buf] obtain t evsA where
    t: "ggentropy_linux cfg buf n s = map_option Inr (ggentropy_fallback cfg buf n t)"
    "trace t = trace s @ evsA" "\<forall>ev \<in> set evsA. strategy_of ev = Syscall"
    "open_rs t = open_rs s" "fstat_rs t = fstat_rs s" "ioctl_rs t = ioctl_rs s"
    "read_rs t = read_rs s"
    by blast
  have "open_rs t = replicate j (Inl EINTR) @ Inr fd # os" "fstat_rs t = Inr m # fs"
    "S_ISCHR m" "ioctl_rs t = Inr c # cs" "read_rs t = pre @ rest"
    using t(4-7) assms(3-7) by simp_all
  from ggentropy_fallback_device_succeeds[OF this assms(8,9), of cfg buf]
  obtain s' evsB where
    s': "ggentropy_fallback cfg buf n t = Some (True, s')"
    "load_bytes (mem s') buf n = take n (concat (map answer_bytes pre))"
    "trace s' = trace t @ evsB" "\<forall>ev \<in> set evsB. strategy_of ev = Device"
    by blast
  from t(1) s'(1) have run: "ggentropy_linux cfg buf n s = Some (Inr (True, s'))" by simp
  from t(2) s'(3) have "events_since s s' = evsA @ evsB"
    by (simp add: events_since_def)
  with t(3) s'(4) have "\<forall>ev \<in> set (events_since s s'). strategy_of ev \<noteq> Control"
    by auto
  moreover from ggentropy_linux_effect[OF run]
  have "written (events_since s s') = {buf ..< buf + n}"
    by (auto simp: events_since_append)
  ultimately show ?thesis using run s'(2) by blast
qed

lemma ggentropy_linux_control_succeeds:
  assumes "n \<le> 256"
    and "\<not> (SYS_getrandom cfg \<and> getrandom_available s)
      \<or> (SYS_getrandom cfg \<and> getrandom_available s
          \<and> getrandom_rs s = preA @ Inl ENOSYS # restA
          \<and> no_hard_failure transient_getrandom preA
          \<and> length (concat (map answer_bytes preA)) < n)"
    and "open_rs s = replicate j (Inl EINTR) @ Inl e # os" "e \<noteq> EINTR" "SYS__sysctl cfg"
    and "sysctl_rs s = pre @ rest" "no_hard_failure (\<lambda>r. False) pre"
    "n \<le> length (concat (map (\<lambda>r. take 16 (answer_bytes r)) pre))"
  shows "\<exists>s' evsA evsC. ggentropy_linux cfg buf n s = Some (Inr (True, s'))
      \<and> load_bytes (mem s') buf n
          = take n (concat (map (\<lambda>r. take 16 (answer_bytes r)) pre))
      \<and> events_since s s' = evsA
          @ replicate j (Ev_open ''/dev/urandom'' urandom_flags (Inl EINTR))
          @ [Ev_open ''/dev/urandom'' urandom_flags (Inl e)] @ evsC
      \<and> (\<forall>ev \<in> set evsA. strategy_of ev = Syscall)
      \<and> (\<forall>ev \<in> set evsC. strategy_of ev = Control)
      \<and> written evsC = {buf ..< buf + n}"
proof -
  from ggentropy_linux_falls_back[OF assms(1,2), of buf] obtain t evsA where
    t: "ggentropy_linux cfg buf n s = map_option Inr (ggentropy_fallback cfg buf n t)"
    "trace t = trace s @ evsA" "\<forall>ev \<in> set evsA. strategy_of ev = Syscall"
    "open_rs t = open_rs s" "sysctl_rs t = sysctl_rs s"
    by blast
  have "open_rs t = replicate j (Inl EINTR) @ Inl e # os" "e \<noteq> EINTR" "SYS__sysctl cfg"
    "sysctl_rs t = pre @ rest"
    using t(4,5) assms(3-6) by simp_all
  from ggentropy_fallback_control_succeeds[OF this assms(7,8), of buf]
  obtain s' evsC where
    s': "ggentropy_fallback cfg buf n t = Some (True, s')"
    "load_bytes (mem s') buf n = take n (concat (map (\<lambda>r. take 16 (answer_bytes r)) pre))"
    "trace s' = trace t
          @ replicate j (Ev_open ''/dev/urandom'' urandom_flags (Inl EINTR))
          @ [Ev_open ''/dev/urandom'' urandom_flags (Inl e)] @ evsC"
    "\<forall>ev \<in> set evsC. strategy_of ev = Control" "written evsC = {buf ..< buf + n}"
    by blast
  from t(1) s'(1) have run: "ggentropy_linux cfg buf n s = Some (Inr (True, s'))" by simp
  from t(2) s'(3) have "events_since s s' = evsA
          @ replicate j (Ev_open ''/dev/urandom'' urandom_flags (Inl EINTR))
          @ [Ev_open ''/dev/urandom'' urandom_flags (Inl e)] @ evsC"
    by (simp add: events_since_def)
  with run s'(2,4,5) t(3) show ?thesis by blast
qed

text \<open>A hard error of step A ends the call.\<close>

lemma ggentropy_linux_hard_error:
  assumes "n \<le> 256" "SYS_getrandom cfg" "getrandom_available s"
    and "getrandom_rs s = pre @ Inl e # rest" "no_hard_failure transient_getrandom pre"
    "length (concat (map answer_bytes pre)) < n" "e \<noteq> EINTR" "e \<noteq> ENOSYS"
  shows "\<exists>s1. ggentropy_linux cfg buf n s = Some (Inr (False, s1))
      \<and> errno s1 = e \<and> getrandom_available s1
      \<and> (\<exists>evs q k. events_since s s1 = evs @ [Ev_getrandom q k (Inl e)])
      \<and> (\<forall>ev \<in> set (events_since s s1). strategy_of ev = Syscall)
      \<and> getrandom_rs s1 = rest \<and> open_rs s1 = open_rs s \<and> fstat_rs s1 = fstat_rs s
      \<and> ioctl_rs s1 = ioctl_rs s \<and> read_rs s1 = read_rs s \<and> sysctl_rs s1 = sysctl_rs s"
proof -
  from getentropy_getrandom_hard_error[OF assms(4,5,6,7), of buf] obtain s1 where
    s1: "getentropy_getrandom buf n s = Some (- 1, s1)" "errno s1 = e"
    "getrandom_rs s1 = rest"
    "open_rs s1 = open_rs s" "fstat_rs s1 = fstat_rs s" "ioctl_rs s1 = ioctl_rs s"
    "read_rs s1 = read_rs s" "sysctl_rs s1 = sysctl_rs s"
    by blast
  from getentropy_getrandom_fills[OF s1(1)] obtain evsA where
    "fills Syscall buf n s (Inl s1) evsA"
    and last: "\<exists>evs q k. trace s1 = trace s @ evs @ [Ev_getrandom q k (Inl (errno s1))]"
    by auto
  then have A: "trace s1 = trace s @ evsA" "\<forall>ev \<in> set evsA. strategy_of ev = Syscall"
    "getrandom_available s1 = getrandom_available s"
    by (simp_all add: fills_def)
  from last s1(2) have "\<exists>evs q k. events_since s s1 = evs @ [Ev_getrandom q k (Inl e)]"
    by (auto simp: events_since_def)
  moreover from A have "\<forall>ev \<in> set (events_since s s1). strategy_of ev = Syscall"
    by (simp add: events_since_append)
  moreover from assms(1,2,3,8) s1(1,2)
  have "ggentropy_linux cfg buf n s = Some (Inr (False, s1))"
    by (simp add: ggentropy_linux_def)
  ultimately show ?thesis using s1 A(3) assms(3) by blast
qed

lemma transient_sysctl_False: "transient_sysctl = (\<lambda>r. False)"
  by (simp add: fun_eq_iff transient_sysctl_def)

lemma final_returned [simp]: "final (returned ret s) = s"
  by (simp add: returned_def)

lemma fills_events:
  assumes "fills k p n s (returned ret s') evs"
  shows "trace s' = trace s @ events_since s s'
    \<and> (\<forall>e \<in> set (events_since s s'). strategy_of e = k)"
  using assms by (auto simp: fills_def events_since_def)

lemma getentropy_getrandom_events:
  assumes "getentropy_getrandom buf n s = Some (ret, s')"
  shows "trace s' = trace s @ events_since s s'
    \<and> (\<forall>e \<in> set (events_since s s'). strategy_of e = Syscall)"
proof -
  from getentropy_getrandom_fills[OF assms] obtain evs where
    "fills Syscall buf n s (returned ret s') evs" by blast
  then show ?thesis by (rule fills_events)
qed

lemma getentropy_urandom_events:
  assumes "getentropy_urandom buf n s = Some (ret, s')"
  shows "trace s' = trace s @ events_since s s'
    \<and> (\<forall>e \<in> set (events_since s s'). strategy_of e = Device)"
proof -
  from getentropy_urandom_fills[OF assms] obtain evs where
    "fills Device buf n s (returned ret s') evs" by blast
  then show ?thesis by (rule fills_events)
qed

lemma getentropy_sysctl_events:
  assumes "getentropy_sysctl buf n s = Some (ret, s')"
  shows "trace s' = trace s @ events_since s s'
    \<and> (\<forall>e \<in> set (events_since s s'). strategy_of e = Control)"
proof -
  from getentropy_sysctl_fills[OF assms] obtain evs where
    "fills Control buf n s (returned ret s') evs" by blast
  then show ?thesis by (rule fills_events)
qed

lemma trace_trans:
  assumes "trace s1 = trace s @ xs" "trace s2 = trace s1 @ ys"
  shows "trace s2 = trace s @ events_since s s2"
  using assms by (simp add: events_since_def)

lemma events_since_trans:
  assumes "trace s1 = trace s @ xs" "trace s2 = trace s1 @ ys"
  shows "events_since s s2 = events_since s s1 @ events_since s1 s2"
  using assms by (simp add: events_since_def)

subsection \<open>The device strategy for no bytes\<close>

lemma getentropy_urandom_0_accepted:
  assumes "open_rs s = replicate j (Inl EINTR) @ Inr d # os" "fstat_rs s = Inr md # fs"
    "S_ISCHR md" "ioctl_rs s = Inr c # cs"
  shows "getentropy_urandom buf 0 s =
     Some (0, s\<lparr>open_rs := os, fstat_rs := fs, ioctl_rs := cs,
                trace := trace s
                  @ replicate j (Ev_open ''/dev/urandom'' urandom_flags (Inl EINTR))
                  @ [Ev_open ''/dev/urandom'' urandom_flags (Inr d), Ev_fstat (int d) (Inr md),
                     Ev_ioctl (int d) (Inr c), Ev_close (int d)]\<rparr>)"
proof -
  let ?t = "s\<lparr>errno := (if j = 0 then errno s else EINTR), open_rs := Inr d # os,
          trace := trace s @ replicate j (Ev_open ''/dev/urandom'' urandom_flags (Inl EINTR))\<rparr>"
  let ?s3 = "?t\<lparr>open_rs := os, fstat_rs := fs, ioctl_rs := cs,
                trace := trace ?t @ [Ev_open ''/dev/urandom'' urandom_flags (Inr d),
                                    Ev_fstat (int d) (Inr md), Ev_ioctl (int d) (Inr c)]\<rparr>"
  have "getentropy_urandom buf 0 s = getentropy_urandom_start buf 0 (errno s) ?t"
    unfolding getentropy_urandom_def by (rule getentropy_urandom_start_interrupted) (rule assms(1))
  also have "\<dots> = Some (0, (sys_close (int d) ?s3)\<lparr>errno := errno s\<rparr>)"
    using assms(2,3,4)
    by (subst getentropy_urandom_start_accepted[where fd = d and os = os and m = md
          and fs = fs and c = c and cs = cs]) (simp_all add: urandom_read_loop_finished)
  also have "(sys_close (int d) ?s3)\<lparr>errno := errno s\<rparr>
      = s\<lparr>open_rs := os, fstat_rs := fs, ioctl_rs := cs,
                trace := trace s
                  @ replicate j (Ev_open ''/dev/urandom'' urandom_flags (Inl EINTR))
                  @ [Ev_open ''/dev/urandom'' urandom_flags (Inr d), Ev_fstat (int d) (Inr md),
                     Ev_ioctl (int d) (Inr c), Ev_close (int d)]\<rparr>"
    by (cases s) (simp add: sys_close_def)
  finally show ?thesis .
qed

lemma getentropy_urandom_rejected:
  assumes "open_rs s = replicate j (Inl EINTR) @ Inr d # os"
    and "(\<exists>e fs. fstat_rs s = Inl e # fs)
       \<or> (\<exists>md fs. fstat_rs s = Inr md # fs \<and> \<not> S_ISCHR md)
       \<or> (\<exists>md fs e cs. fstat_rs s = Inr md # fs \<and> S_ISCHR md \<and> ioctl_rs s = Inl e # cs)"
  shows "\<exists>s' io. getentropy_urandom buf n s = Some (- 1, s') \<and> errno s' = EIO
      \<and> events_since s s' =
          replicate j (Ev_open ''/dev/urandom'' urandom_flags (Inl EINTR))
          @ [Ev_open ''/dev/urandom'' urandom_flags (Inr d), Ev_fstat (int d) (hd (fstat_rs s))]
          @ io @ [Ev_close (int d)]
      \<and> (io = [] \<or> (\<exists>e. io = [Ev_ioctl (int d) (Inl e)]))"
proof -
  from getentropy_urandom_start_retries[OF assms(1), of buf n "errno s"] obtain t where
    t: "getentropy_urandom_start buf n (errno s) s = getentropy_urandom_start buf n (errno s) t"
    "open_rs t = Inr d # os" "fstat_rs t = fstat_rs s" "ioctl_rs t = ioctl_rs s"
    "trace t = trace s @ replicate j (Ev_open ''/dev/urandom'' urandom_flags (Inl EINTR))"
    by blast
  from assms(2) t(3,4) have "(\<exists>e fs. fstat_rs t = Inl e # fs)
       \<or> (\<exists>m fs. fstat_rs t = Inr m # fs \<and> \<not> S_ISCHR m)
       \<or> (\<exists>m fs e is. fstat_rs t = Inr m # fs \<and> S_ISCHR m \<and> ioctl_rs t = Inl e # is)"
    by simp
  from getentropy_urandom_start_rejected[OF t(2) this, of buf n "errno s"]
  obtain s' io where
    s': "getentropy_urandom_start buf n (errno s) t = Some (- 1, s')"
    "errno s' = EIO"
    "trace s' = trace t @ [Ev_open ''/dev/urandom'' urandom_flags (Inr d),
                               Ev_fstat (int d) (hd (fstat_rs t))] @ io @ [Ev_close (int d)]"
    "io = [] \<or> (\<exists>e. io = [Ev_ioctl (int d) (Inl e)])"
    by blast
  have "getentropy_urandom buf n s = Some (- 1, s')"
    using t(1) s'(1) by (simp add: getentropy_urandom_def)
  moreover have "events_since s s' =
          replicate j (Ev_open ''/dev/urandom'' urandom_flags (Inl EINTR))
          @ [Ev_open ''/dev/urandom'' urandom_flags (Inr d), Ev_fstat (int d) (hd (fstat_rs s))]
          @ io @ [Ev_close (int d)]"
    using s'(3) t(3,5) by (simp add: events_since_def)
  ultimately show ?thesis using s'(2,4) by blast
qed

section \<open>The claims\<close>

text \<open>
  C1. For every buffer and every length \<open>n \<le> 256\<close>, if \<open>ggentropy\<close> returns true then all
  \<open>n\<close> bytes of the buffer are bytes obtained from an operating-system entropy facility
  and from nothing else. On Linux the \<open>n\<close> bytes at \<open>buf\<close> are, in order, exactly the bytes
  that the calls of one strategy stored during this call: the getrandom syscalls, or the
  reads of the device, or the sysctl calls. The device read from is /dev/urandom: the calls
  of the run follow the device protocol (a descriptor is read only after it was returned by
  \<open>open\<close> of /dev/urandom with the flags of the source, found to be a character device
  by \<open>fstat\<close> and accepted by \<open>RNDGETENTCNT\<close>, and before it is closed), so the
  descriptor of every read is the one an \<open>open\<close> of /dev/urandom returned in this call.
  On Windows and with arc4random the bytes are the first \<open>n\<close> bytes the system generator
  produced for the call.
\<close>

theorem C1_filled_from_os_entropy:
  "(ggentropy_linux cfg buf n s = Some (Inr (True, s')) \<longrightarrow>
      n \<le> 256
    \<and> (load_bytes (mem s') buf n = delivered Syscall (events_since s s')
       \<or> load_bytes (mem s') buf n = delivered Device (events_since s s')
       \<or> load_bytes (mem s') buf n = delivered Control (events_since s s'))
    \<and> device_run No_device (events_since s s') = Some No_device
    \<and> (\<forall>fd p k x. Ev_read fd p k x \<in> set (events_since s s') \<longrightarrow>
          (\<exists>d. fd = int d
             \<and> Ev_open ''/dev/urandom'' urandom_flags (Inr d) \<in> set (events_since s s'))))
 \<and> (ggentropy_windows (status, gen) buf n m = Inr (True, m') \<longrightarrow>
      n \<le> 256 \<and> load_bytes m' buf n = map gen [0 ..< n])
 \<and> (ggentropy_arc4random gen buf n m = Inr (True, m') \<longrightarrow>
      n \<le> 256 \<and> load_bytes m' buf n = map gen [0 ..< n])"
proof (intro conjI impI)
  assume run: "ggentropy_linux cfg buf n s = Some (Inr (True, s'))"
  then show "n \<le> 256" by (auto simp: ggentropy_linux_def split: if_splits)
  from ggentropy_linux_effect[OF run] obtain evs where
    "trace s' = trace s @ evs"
    "load_bytes (mem s') buf n = delivered Syscall evs
      \<or> load_bytes (mem s') buf n = delivered Device evs
      \<or> load_bytes (mem s') buf n = delivered Control evs"
    by auto
  then show "load_bytes (mem s') buf n = delivered Syscall (events_since s s')
       \<or> load_bytes (mem s') buf n = delivered Device (events_since s s')
       \<or> load_bytes (mem s') buf n = delivered Control (events_since s s')"
    by (simp add: events_since_append)
  from ggentropy_linux_protocol[OF run]
  show protocol: "device_run No_device (events_since s s') = Some No_device"
    by (auto simp: events_since_append)
  show "\<forall>fd p k x. Ev_read fd p k x \<in> set (events_since s s') \<longrightarrow>
          (\<exists>d. fd = int d
             \<and> Ev_open ''/dev/urandom'' urandom_flags (Inr d) \<in> set (events_since s s'))"
    using device_run_reads[OF protocol] by blast
next
  assume "ggentropy_windows (status, gen) buf n m = Inr (True, m')"
  from windows_effect[OF this]
  show "n \<le> 256" "load_bytes m' buf n = map gen [0 ..< n]"
    by (simp_all add: load_store_bytes_gen)
next
  assume "ggentropy_arc4random gen buf n m = Inr (True, m')"
  from arc4random_effect[OF this]
  show "n \<le> 256" "load_bytes m' buf n = map gen [0 ..< n]"
    by (simp_all add: load_store_bytes_gen)
qed

theorem C1_filled_from_os_entropy_witness:
  "let cfg = \<lparr>SYS_getrandom = True, SYS__sysctl = True\<rparr>;
       s = (initial_state (\<lambda>a. 0))
            \<lparr>getrandom_rs := [Inl EINTR, Inl ENOSYS], open_rs := [Inl EINTR, Inr 3],
              fstat_rs := [Inr 0x2180], ioctl_rs := [Inr 256],
              read_rs := [Inr [1, 2], Inl EAGAIN, Inr [3, 4]]\<rparr>;
       s' = (initial_state (\<lambda>a. 0))
          \<lparr>mem := store_bytes (store_bytes (\<lambda>a. 0) 10 [1, 2]) 12 [3],
            errno := ENOSYS, getrandom_available := False,
            trace := [Ev_getrandom 10 3 (Inl EINTR), Ev_getrandom 10 3 (Inl ENOSYS),
                      Ev_open ''/dev/urandom'' [O_RDONLY, O_NOFOLLOW, O_CLOEXEC] (Inl EINTR),
                      Ev_open ''/dev/urandom'' [O_RDONLY, O_NOFOLLOW, O_CLOEXEC] (Inr 3),
                      Ev_fstat 3 (Inr 0x2180), Ev_ioctl 3 (Inr 256),
                      Ev_read 3 10 3 (Inr [1, 2]), Ev_read 3 12 1 (Inl EAGAIN),
                      Ev_read 3 12 1 (Inr [3]), Ev_close 3]\<rparr>;
       t = (initial_state (\<lambda>a. 0))\<lparr>getrandom_rs := [Inr [1, 2], Inl EINTR, Inr [3, 4]]\<rparr>;
       t' = (initial_state (\<lambda>a. 0))
          \<lparr>mem := store_bytes (store_bytes (\<lambda>a. 0) 10 [1, 2]) 12 [3],
            trace := [Ev_getrandom 10 3 (Inr [1, 2]), Ev_getrandom 12 1 (Inl EINTR),
                      Ev_getrandom 12 1 (Inr [3])]\<rparr>;
       gen = (\<lambda>i. if i = 0 then 5 else 6);
       m' = store_bytes (\<lambda>a. 0) 10 (map gen [0 ..< 3])
   in ggentropy_linux cfg 10 3 s = Some (Inr (True, s'))
    \<and> load_bytes (mem s') 10 3 = [1, 2, 3]
    \<and> delivered Device (events_since s s') = [1, 2, 3]
    \<and> device_run No_device (events_since s s') = Some No_device
    \<and> Ev_read 3 12 1 (Inr [3]) \<in> set (events_since s s')
    \<and> (\<exists>d. (3::int) = int d
         \<and> Ev_open ''/dev/urandom'' urandom_flags (Inr d) \<in> set (events_since s s'))
    \<and> ggentropy_linux cfg 10 3 t = Some (Inr (True, t'))
    \<and> (load_bytes (mem t') 10 3 = delivered Syscall (events_since t t')
       \<or> load_bytes (mem t') 10 3 = delivered Device (events_since t t')
       \<or> load_bytes (mem t') 10 3 = delivered Control (events_since t t'))
    \<and> ggentropy_windows (0, gen) 10 3 (\<lambda>a. 0) = Inr (True, m')
    \<and> ggentropy_arc4random gen 10 3 (\<lambda>a. 0) = Inr (True, m')
    \<and> load_bytes m' 10 3 = map gen [0 ..< 3]"
proof -
  let ?cfg = "\<lparr>SYS_getrandom = True, SYS__sysctl = True\<rparr>"
  let ?s = "(initial_state (\<lambda>a. 0))
            \<lparr>getrandom_rs := [Inl EINTR, Inl ENOSYS], open_rs := [Inl EINTR, Inr 3],
              fstat_rs := [Inr 0x2180], ioctl_rs := [Inr 256],
              read_rs := [Inr [1, 2], Inl EAGAIN, Inr [3, 4]]\<rparr>"
  let ?s' = "(initial_state (\<lambda>a. 0))
          \<lparr>mem := store_bytes (store_bytes (\<lambda>a. 0) 10 [1, 2]) 12 [3],
            errno := ENOSYS, getrandom_available := False,
            trace := [Ev_getrandom 10 3 (Inl EINTR), Ev_getrandom 10 3 (Inl ENOSYS),
                      Ev_open ''/dev/urandom'' [O_RDONLY, O_NOFOLLOW, O_CLOEXEC] (Inl EINTR),
                      Ev_open ''/dev/urandom'' [O_RDONLY, O_NOFOLLOW, O_CLOEXEC] (Inr 3),
                      Ev_fstat 3 (Inr 0x2180), Ev_ioctl 3 (Inr 256),
                      Ev_read 3 10 3 (Inr [1, 2]), Ev_read 3 12 1 (Inl EAGAIN),
                      Ev_read 3 12 1 (Inr [3]), Ev_close 3]\<rparr>"
  let ?t = "(initial_state (\<lambda>a. 0))\<lparr>getrandom_rs := [Inr [1, 2], Inl EINTR, Inr [3, 4]]\<rparr>"
  let ?t' = "(initial_state (\<lambda>a. 0))
          \<lparr>mem := store_bytes (store_bytes (\<lambda>a. 0) 10 [1, 2]) 12 [3],
            trace := [Ev_getrandom 10 3 (Inr [1, 2]), Ev_getrandom 12 1 (Inl EINTR),
                      Ev_getrandom 12 1 (Inr [3])]\<rparr>"
  let ?gen = "\<lambda>i::nat. if i = 0 then 5 else (6::byte)"
  let ?m' = "store_bytes (\<lambda>a. 0) 10 (map ?gen [0 ..< 3])"
  have device: "ggentropy_linux ?cfg 10 3 ?s = Some (Inr (True, ?s'))"
    by (simp add: run_simps)
  have syscall: "ggentropy_linux ?cfg 10 3 ?t = Some (Inr (True, ?t'))"
    by (simp add: run_simps)
  have windows: "ggentropy_windows (0, ?gen) 10 3 (\<lambda>a. 0) = Inr (True, ?m')"
    by (simp add: ggentropy_windows_def BCryptGenRandom_def FAILED_def)
  have arc4: "ggentropy_arc4random ?gen 10 3 (\<lambda>a. 0) = Inr (True, ?m')"
    by (simp add: ggentropy_arc4random_def arc4random_buf_def)
  have bytes: "load_bytes (mem ?s') 10 3 = [1, 2, 3]"
    by (simp add: load_bytes_def store_bytes_def initial_state_def upt_rec)
  have dev: "delivered Device (events_since ?s ?s') = [1, 2, 3]"
    by (simp add: delivered_def events_since_def initial_state_def)
  have rd: "Ev_read 3 12 1 (Inr [3]) \<in> set (events_since ?s ?s')"
    by (simp add: events_since_def initial_state_def)
  note a = C1_filled_from_os_entropy[of ?cfg 10 3 ?s ?s' 0 ?gen "\<lambda>a. 0" ?m']
  note b = C1_filled_from_os_entropy[of ?cfg 10 3 ?t ?t' 0 ?gen "\<lambda>a. 0" ?m']
  from a device have "device_run No_device (events_since ?s ?s') = Some No_device"
    by blast
  moreover from a device rd have "\<exists>d. (3::int) = int d
         \<and> Ev_open ''/dev/urandom'' urandom_flags (Inr d) \<in> set (events_since ?s ?s')"
    by blast
  moreover from b syscall have "load_bytes (mem ?t') 10 3 = delivered Syscall (events_since ?t ?t')
       \<or> load_bytes (mem ?t') 10 3 = delivered Device (events_since ?t ?t')
       \<or> load_bytes (mem ?t') 10 3 = delivered Control (events_since ?t ?t')"
    by blast
  moreover from b windows have "load_bytes ?m' 10 3 = map ?gen [0 ..< 3]"
    by blast
  ultimately show ?thesis
    using device syscall windows arc4 bytes dev rd unfolding Let_def by blast
qed



text \<open>
  C3. In step A, a syscall error other than \<open>EINTR\<close> and \<open>ENOSYS\<close> makes \<open>ggentropy\<close>
  return false at once. When the kernel answers the getrandom syscalls of the call with
  \<open>pre\<close>, in which every failure is \<open>EINTR\<close> and which delivers fewer than \<open>n\<close> bytes, and
  then with the error \<open>e\<close>, the call returns false with \<open>errno = e\<close>; its last call
  is the failed syscall, all its calls are getrandom syscalls, the flag stays available, and
  no answer of \<open>open\<close>, \<open>fstat\<close>, \<open>ioctl\<close>, \<open>read\<close> or sysctl has been consumed: neither the device
  nor the control interface is tried. The same in terms of the helper: whenever
  \<open>getentropy_getrandom\<close> returns \<open>-1\<close> with an \<open>errno\<close> other than \<open>ENOSYS\<close>, that \<open>errno\<close> is
  not \<open>EINTR\<close>, it is the error of the last getrandom syscall, and the call returns false
  in the state the helper left.
\<close>

theorem C3_hard_error_no_fallback:
  "(n \<le> 256 \<and> SYS_getrandom cfg \<and> getrandom_available s
      \<and> getrandom_rs s = pre @ Inl e # rest \<and> no_hard_failure transient_getrandom pre
      \<and> length (concat (map answer_bytes pre)) < n \<and> e \<noteq> EINTR \<and> e \<noteq> ENOSYS \<longrightarrow>
      (\<exists>t. ggentropy_linux cfg buf n s = Some (Inr (False, t))
         \<and> errno t = e \<and> getrandom_available t
         \<and> (\<exists>evs q k. events_since s t = evs @ [Ev_getrandom q k (Inl e)])
         \<and> (\<forall>ev \<in> set (events_since s t). strategy_of ev = Syscall)
         \<and> getrandom_rs t = rest \<and> open_rs t = open_rs s \<and> fstat_rs t = fstat_rs s
         \<and> ioctl_rs t = ioctl_rs s \<and> read_rs t = read_rs s \<and> sysctl_rs t = sysctl_rs s))
 \<and> (n \<le> 256 \<and> SYS_getrandom cfg \<and> getrandom_available s
      \<and> getentropy_getrandom buf n s = Some (- 1, s1) \<and> errno s1 \<noteq> ENOSYS \<longrightarrow>
        ggentropy_linux cfg buf n s = Some (Inr (False, s1))
      \<and> (\<forall>ev \<in> set (events_since s s1). strategy_of ev = Syscall)
      \<and> errno s1 \<noteq> EINTR
      \<and> (\<exists>evs q k. events_since s s1 = evs @ [Ev_getrandom q k (Inl (errno s1))]))"
proof (intro conjI impI)
  assume "n \<le> 256 \<and> SYS_getrandom cfg \<and> getrandom_available s
      \<and> getrandom_rs s = pre @ Inl e # rest \<and> no_hard_failure transient_getrandom pre
      \<and> length (concat (map answer_bytes pre)) < n \<and> e \<noteq> EINTR \<and> e \<noteq> ENOSYS"
  then have "n \<le> 256" "SYS_getrandom cfg" "getrandom_available s"
    "getrandom_rs s = pre @ Inl e # rest" "no_hard_failure transient_getrandom pre"
    "length (concat (map answer_bytes pre)) < n" "e \<noteq> EINTR" "e \<noteq> ENOSYS"
    by simp_all
  then show "\<exists>t. ggentropy_linux cfg buf n s = Some (Inr (False, t))
         \<and> errno t = e \<and> getrandom_available t
         \<and> (\<exists>evs q k. events_since s t = evs @ [Ev_getrandom q k (Inl e)])
         \<and> (\<forall>ev \<in> set (events_since s t). strategy_of ev = Syscall)
         \<and> getrandom_rs t = rest \<and> open_rs t = open_rs s \<and> fstat_rs t = fstat_rs s
         \<and> ioctl_rs t = ioctl_rs s \<and> read_rs t = read_rs s \<and> sysctl_rs t = sysctl_rs s"
    by (rule ggentropy_linux_hard_error)
next
  assume a: "n \<le> 256 \<and> SYS_getrandom cfg \<and> getrandom_available s
      \<and> getentropy_getrandom buf n s = Some (- 1, s1) \<and> errno s1 \<noteq> ENOSYS"
  then have run: "ggentropy_linux cfg buf n s = Some (Inr (False, s1))"
    by (simp add: ggentropy_linux_def)
  from a have "getentropy_getrandom buf n s = Some (- 1, s1)" by simp
  from getentropy_getrandom_fills[OF this] obtain evsA where
    A: "fills Syscall buf n s (Inl s1) evsA" "errno s1 \<noteq> EINTR"
    "\<exists>evs q k. trace s1 = trace s @ evs @ [Ev_getrandom q k (Inl (errno s1))]"
    by auto
  from run show "ggentropy_linux cfg buf n s = Some (Inr (False, s1))" .
  from A(1) show "\<forall>ev \<in> set (events_since s s1). strategy_of ev = Syscall"
    by (auto simp: fills_def events_since_def)
  from A(2) show "errno s1 \<noteq> EINTR" .
  from A(3) show "\<exists>evs q k. events_since s s1 = evs @ [Ev_getrandom q k (Inl (errno s1))]"
    by (auto simp: events_since_def)
qed

theorem C3_hard_error_no_fallback_witness:
  "let cfg = \<lparr>SYS_getrandom = True, SYS__sysctl = True\<rparr>;
       s = (initial_state (\<lambda>a. 0))
            \<lparr>getrandom_rs := [Inr [1], Inl EINTR, Inl EFAULT, Inr [2, 3]], open_rs := [Inr 3],
              sysctl_rs := [Inr [7, 7, 7]]\<rparr>;
       s1 = s\<lparr>mem := store_bytes (\<lambda>a. 0) 10 [1], errno := EFAULT,
              getrandom_rs := [Inr [2, 3]],
              trace := [Ev_getrandom 10 3 (Inr [1]), Ev_getrandom 11 2 (Inl EINTR),
                        Ev_getrandom 11 2 (Inl EFAULT)]\<rparr>
   in (3::nat) \<le> 256 \<and> SYS_getrandom cfg \<and> getrandom_available s
    \<and> getrandom_rs s = [Inr [1], Inl EINTR] @ Inl EFAULT # [Inr [2, 3]]
    \<and> no_hard_failure transient_getrandom [Inr [1], Inl EINTR]
    \<and> length (concat (map answer_bytes [Inr [1], Inl EINTR])) < 3
    \<and> EFAULT \<noteq> EINTR \<and> EFAULT \<noteq> ENOSYS
    \<and> (\<exists>t. ggentropy_linux cfg 10 3 s = Some (Inr (False, t))
         \<and> errno t = EFAULT \<and> getrandom_available t
         \<and> (\<exists>evs q k. events_since s t = evs @ [Ev_getrandom q k (Inl EFAULT)])
         \<and> (\<forall>ev \<in> set (events_since s t). strategy_of ev = Syscall)
         \<and> getrandom_rs t = [Inr [2, 3]] \<and> open_rs t = open_rs s \<and> fstat_rs t = fstat_rs s
         \<and> ioctl_rs t = ioctl_rs s \<and> read_rs t = read_rs s \<and> sysctl_rs t = sysctl_rs s)
    \<and> ggentropy_linux cfg 10 3 s = Some (Inr (False, s1))
    \<and> getentropy_getrandom 10 3 s = Some (- 1, s1) \<and> errno s1 \<noteq> ENOSYS
    \<and> errno s1 \<noteq> EINTR"
proof -
  let ?cfg = "\<lparr>SYS_getrandom = True, SYS__sysctl = True\<rparr>"
  let ?s = "(initial_state (\<lambda>a. 0))
            \<lparr>getrandom_rs := [Inr [1], Inl EINTR, Inl EFAULT, Inr [2, 3]], open_rs := [Inr 3],
              sysctl_rs := [Inr [7, 7, 7]]\<rparr>"
  let ?s1 = "?s\<lparr>mem := store_bytes (\<lambda>a. 0) 10 [1], errno := EFAULT,
              getrandom_rs := [Inr [2, 3]],
              trace := [Ev_getrandom 10 3 (Inr [1]), Ev_getrandom 11 2 (Inl EINTR),
                        Ev_getrandom 11 2 (Inl EFAULT)]\<rparr>"
  have h: "(3::nat) \<le> 256" "SYS_getrandom ?cfg" "getrandom_available ?s"
    "getrandom_rs ?s = [Inr [1], Inl EINTR] @ Inl EFAULT # [Inr [2, 3]]"
    "no_hard_failure transient_getrandom [Inr [1], Inl EINTR]"
    "length (concat (map answer_bytes [Inr [1], Inl EINTR])) < 3"
    "EFAULT \<noteq> EINTR" "EFAULT \<noteq> ENOSYS"
    by (simp_all add: initial_state_def no_hard_failure_def transient_getrandom_def)
  have g: "getentropy_getrandom 10 3 ?s = Some (- 1, ?s1)" "errno ?s1 \<noteq> ENOSYS"
    by (simp_all add: run_simps)
  have run: "ggentropy_linux ?cfg 10 3 ?s = Some (Inr (False, ?s1))"
    by (simp add: run_simps)
  note a = C3_hard_error_no_fallback[where cfg = ?cfg and n = 3 and s = ?s and pre = "[Inr [1], Inl EINTR]"
      and e = EFAULT and rest = "[Inr [2, 3]]" and buf = 10 and ?s1.0 = ?s1]
  from a h have "\<exists>t. ggentropy_linux ?cfg 10 3 ?s = Some (Inr (False, t))
         \<and> errno t = EFAULT \<and> getrandom_available t
         \<and> (\<exists>evs q k. events_since ?s t = evs @ [Ev_getrandom q k (Inl EFAULT)])
         \<and> (\<forall>ev \<in> set (events_since ?s t). strategy_of ev = Syscall)
         \<and> getrandom_rs t = [Inr [2, 3]] \<and> open_rs t = open_rs ?s \<and> fstat_rs t = fstat_rs ?s
         \<and> ioctl_rs t = ioctl_rs ?s \<and> read_rs t = read_rs ?s \<and> sysctl_rs t = sysctl_rs ?s"
    by blast
  moreover from a h(1,2,3) g have "errno ?s1 \<noteq> EINTR" by blast
  ultimately show ?thesis
    using h g run unfolding Let_def by blast
qed

text \<open>
  C4. The strategies are tried in the order syscall, device, control interface: the calls
  of a returned run are in the order of the steps. As soon as a strategy succeeds the
  call returns true in the state that strategy left, so no later strategy is invoked:
  after a successful step A all calls are getrandom syscalls, and after a successful
  step B (entered directly, or after \<open>ENOSYS\<close> in step A) there is no sysctl call.
  When step B fails and the control interface is compiled in, \<open>getentropy_sysctl\<close> is run
  next, in the state step B left, and the call returns true exactly when it does not
  return \<open>-1\<close>; the calls are then those of step A, those of step B and those of step C,
  in this order. Where the control interface is not compiled in, the call returns false
  after step B. The same on the answers of the kernel: when the getrandom syscalls
  deliver \<open>n\<close> bytes the call returns true having made only getrandom syscalls; when step
  A is skipped or ends by \<open>ENOSYS\<close> and the device delivers \<open>n\<close> bytes, the call returns
  true without a sysctl call; when moreover \<open>open\<close> fails and the sysctl calls deliver \<open>n\<close>
  bytes, the call returns true, its calls being those of step A, the opens, and sysctl
  calls that store all \<open>n\<close> bytes.
\<close>

theorem C4_strategy_order:
  "(ggentropy_linux cfg buf n s = Some (Inr (r, s')) \<longrightarrow> in_step_order (events_since s s'))
 \<and> (n \<le> 256 \<and> SYS_getrandom cfg \<and> getrandom_available s
      \<and> getentropy_getrandom buf n s = Some (ret, s1) \<and> ret \<noteq> - 1 \<longrightarrow>
        ggentropy_linux cfg buf n s = Some (Inr (True, s1))
      \<and> (\<forall>e \<in> set (events_since s s1). strategy_of e = Syscall))
 \<and> (n \<le> 256 \<and> \<not> (SYS_getrandom cfg \<and> getrandom_available s)
      \<and> getentropy_urandom buf n s = Some (ret, s2) \<and> ret \<noteq> - 1 \<longrightarrow>
        ggentropy_linux cfg buf n s = Some (Inr (True, s2))
      \<and> (\<forall>e \<in> set (events_since s s2). strategy_of e = Device))
 \<and> (n \<le> 256 \<and> SYS_getrandom cfg \<and> getrandom_available s
      \<and> getentropy_getrandom buf n s = Some (- 1, s1) \<and> errno s1 = ENOSYS
      \<and> getentropy_urandom buf n (s1\<lparr>getrandom_available := False\<rparr>) = Some (ret, s2)
      \<and> ret \<noteq> - 1 \<longrightarrow>
        ggentropy_linux cfg buf n s = Some (Inr (True, s2))
      \<and> (\<forall>e \<in> set (events_since s s2). strategy_of e \<noteq> Control))
 \<and> (n \<le> 256 \<and> \<not> (SYS_getrandom cfg \<and> getrandom_available s)
      \<and> getentropy_urandom buf n s = Some (- 1, s2) \<and> SYS__sysctl cfg
      \<and> getentropy_sysctl buf n s2 = Some (ret', s3) \<longrightarrow>
        ggentropy_linux cfg buf n s = Some (Inr (ret' \<noteq> - 1, s3))
      \<and> events_since s s3 = events_since s s2 @ events_since s2 s3
      \<and> (\<forall>e \<in> set (events_since s s2). strategy_of e = Device)
      \<and> (\<forall>e \<in> set (events_since s2 s3). strategy_of e = Control))
 \<and> (n \<le> 256 \<and> SYS_getrandom cfg \<and> getrandom_available s
      \<and> getentropy_getrandom buf n s = Some (- 1, s1) \<and> errno s1 = ENOSYS
      \<and> getentropy_urandom buf n (s1\<lparr>getrandom_available := False\<rparr>) = Some (- 1, s2)
      \<and> SYS__sysctl cfg \<and> getentropy_sysctl buf n s2 = Some (ret', s3) \<longrightarrow>
        ggentropy_linux cfg buf n s = Some (Inr (ret' \<noteq> - 1, s3))
      \<and> events_since s s3 = events_since s s1 @ events_since s1 s2 @ events_since s2 s3
      \<and> (\<forall>e \<in> set (events_since s s1). strategy_of e = Syscall)
      \<and> (\<forall>e \<in> set (events_since s1 s2). strategy_of e = Device)
      \<and> (\<forall>e \<in> set (events_since s2 s3). strategy_of e = Control))
 \<and> (n \<le> 256 \<and> \<not> (SYS_getrandom cfg \<and> getrandom_available s)
      \<and> getentropy_urandom buf n s = Some (- 1, s2) \<and> \<not> SYS__sysctl cfg \<longrightarrow>
        ggentropy_linux cfg buf n s = Some (Inr (False, s2))
      \<and> (\<forall>e \<in> set (events_since s s2). strategy_of e = Device))
 \<and> (n \<le> 256 \<and> SYS_getrandom cfg \<and> getrandom_available s
      \<and> getrandom_rs s = pre @ rest \<and> no_hard_failure transient_getrandom pre
      \<and> n \<le> length (concat (map answer_bytes pre)) \<longrightarrow>
      (\<exists>t. ggentropy_linux cfg buf n s = Some (Inr (True, t))
         \<and> load_bytes (mem t) buf n = take n (concat (map answer_bytes pre))
         \<and> (\<forall>ev \<in> set (events_since s t). strategy_of ev = Syscall)
         \<and> written (events_since s t) = {buf ..< buf + n}))
 \<and> (n \<le> 256
      \<and> (\<not> (SYS_getrandom cfg \<and> getrandom_available s)
         \<or> (SYS_getrandom cfg \<and> getrandom_available s
             \<and> getrandom_rs s = preA @ Inl ENOSYS # restA
             \<and> no_hard_failure transient_getrandom preA
             \<and> length (concat (map answer_bytes preA)) < n))
      \<and> open_rs s = replicate j (Inl EINTR) @ Inr d # os
      \<and> fstat_rs s = Inr m # fs \<and> S_ISCHR m \<and> ioctl_rs s = Inr c # cs
      \<and> read_rs s = pre @ rest \<and> no_hard_failure transient_read pre
      \<and> n \<le> length (concat (map answer_bytes pre)) \<longrightarrow>
      (\<exists>t. ggentropy_linux cfg buf n s = Some (Inr (True, t))
         \<and> load_bytes (mem t) buf n = take n (concat (map answer_bytes pre))
         \<and> (\<forall>ev \<in> set (events_since s t). strategy_of ev \<noteq> Control)
         \<and> written (events_since s t) = {buf ..< buf + n}))
 \<and> (n \<le> 256
      \<and> (\<not> (SYS_getrandom cfg \<and> getrandom_available s)
         \<or> (SYS_getrandom cfg \<and> getrandom_available s
             \<and> getrandom_rs s = preA @ Inl ENOSYS # restA
             \<and> no_hard_failure transient_getrandom preA
             \<and> length (concat (map answer_bytes preA)) < n))
      \<and> open_rs s = replicate j (Inl EINTR) @ Inl e # os \<and> e \<noteq> EINTR
      \<and> SYS__sysctl cfg
      \<and> sysctl_rs s = pre @ rest \<and> no_hard_failure transient_sysctl pre
      \<and> n \<le> length (concat (map (\<lambda>r. take 16 (answer_bytes r)) pre)) \<longrightarrow>
      (\<exists>t evsA evsC. ggentropy_linux cfg buf n s = Some (Inr (True, t))
         \<and> load_bytes (mem t) buf n
             = take n (concat (map (\<lambda>r. take 16 (answer_bytes r)) pre))
         \<and> events_since s t = evsA
             @ replicate j (Ev_open ''/dev/urandom'' urandom_flags (Inl EINTR))
             @ [Ev_open ''/dev/urandom'' urandom_flags (Inl e)] @ evsC
         \<and> (\<forall>ev \<in> set evsA. strategy_of ev = Syscall)
         \<and> (\<forall>ev \<in> set evsC. strategy_of ev = Control)
         \<and> written evsC = {buf ..< buf + n}))"
proof (intro conjI impI)
  assume run: "ggentropy_linux cfg buf n s = Some (Inr (r, s'))"
  from ggentropy_linux_effect[OF run] show "in_step_order (events_since s s')"
    by (auto simp: events_since_append)
next
  assume a: "n \<le> 256 \<and> SYS_getrandom cfg \<and> getrandom_available s
      \<and> getentropy_getrandom buf n s = Some (ret, s1) \<and> ret \<noteq> - 1"
  then show "ggentropy_linux cfg buf n s = Some (Inr (True, s1))"
    by (simp add: ggentropy_linux_def)
  from a getentropy_getrandom_fills[of buf n s ret s1]
  show "\<forall>e \<in> set (events_since s s1). strategy_of e = Syscall"
    by (auto simp: fills_def returned_def events_since_def)
next
  assume a: "n \<le> 256 \<and> \<not> (SYS_getrandom cfg \<and> getrandom_available s)
      \<and> getentropy_urandom buf n s = Some (ret, s2) \<and> ret \<noteq> - 1"
  then show "ggentropy_linux cfg buf n s = Some (Inr (True, s2))"
    by (auto simp: ggentropy_linux_def ggentropy_fallback_def)
  from a getentropy_urandom_fills[of buf n s ret s2]
  show "\<forall>e \<in> set (events_since s s2). strategy_of e = Device"
    by (auto simp: fills_def returned_def events_since_def)
next
  assume a: "n \<le> 256 \<and> SYS_getrandom cfg \<and> getrandom_available s
      \<and> getentropy_getrandom buf n s = Some (- 1, s1) \<and> errno s1 = ENOSYS
      \<and> getentropy_urandom buf n (s1\<lparr>getrandom_available := False\<rparr>) = Some (ret, s2)
      \<and> ret \<noteq> - 1"
  then show "ggentropy_linux cfg buf n s = Some (Inr (True, s2))"
    by (auto simp: ggentropy_linux_def ggentropy_fallback_def)
  from a getentropy_getrandom_fills[of buf n s "- 1" s1] obtain evsA where
    A: "trace s1 = trace s @ evsA" "\<forall>e \<in> set evsA. strategy_of e = Syscall"
    by (auto simp: fills_def returned_def)
  from a getentropy_urandom_fills[of buf n "s1\<lparr>getrandom_available := False\<rparr>" ret s2]
  obtain evsB where B: "trace s2 = trace s1 @ evsB" "\<forall>e \<in> set evsB. strategy_of e = Device"
    by (auto simp: fills_def returned_def)
  from A B show "\<forall>e \<in> set (events_since s s2). strategy_of e \<noteq> Control"
    by (auto simp: events_since_def)
next
  assume a: "n \<le> 256 \<and> \<not> (SYS_getrandom cfg \<and> getrandom_available s)
      \<and> getentropy_urandom buf n s = Some (- 1, s2) \<and> SYS__sysctl cfg
      \<and> getentropy_sysctl buf n s2 = Some (ret', s3)"
  then show "ggentropy_linux cfg buf n s = Some (Inr (ret' \<noteq> - 1, s3))"
    by (auto simp: ggentropy_linux_def ggentropy_fallback_def)
  from a have "getentropy_urandom buf n s = Some (- 1, s2)" by simp
  from getentropy_urandom_events[OF this]
  have B: "trace s2 = trace s @ events_since s s2"
    "\<forall>e \<in> set (events_since s s2). strategy_of e = Device"
    by simp_all
  from a have "getentropy_sysctl buf n s2 = Some (ret', s3)" by simp
  from getentropy_sysctl_events[OF this]
  have C: "trace s3 = trace s2 @ events_since s2 s3"
    "\<forall>e \<in> set (events_since s2 s3). strategy_of e = Control"
    by simp_all
  from B(1) C(1) show "events_since s s3 = events_since s s2 @ events_since s2 s3"
    by (rule events_since_trans)
  from B(2) show "\<forall>e \<in> set (events_since s s2). strategy_of e = Device" .
  from C(2) show "\<forall>e \<in> set (events_since s2 s3). strategy_of e = Control" .
next
  assume a: "n \<le> 256 \<and> SYS_getrandom cfg \<and> getrandom_available s
      \<and> getentropy_getrandom buf n s = Some (- 1, s1) \<and> errno s1 = ENOSYS
      \<and> getentropy_urandom buf n (s1\<lparr>getrandom_available := False\<rparr>) = Some (- 1, s2)
      \<and> SYS__sysctl cfg \<and> getentropy_sysctl buf n s2 = Some (ret', s3)"
  then show "ggentropy_linux cfg buf n s = Some (Inr (ret' \<noteq> - 1, s3))"
    by (auto simp: ggentropy_linux_def ggentropy_fallback_def)
  from a have "getentropy_getrandom buf n s = Some (- 1, s1)" by simp
  from getentropy_getrandom_events[OF this]
  have A: "trace s1 = trace s @ events_since s s1"
    "\<forall>e \<in> set (events_since s s1). strategy_of e = Syscall"
    by simp_all
  from a have "getentropy_urandom buf n (s1\<lparr>getrandom_available := False\<rparr>) = Some (- 1, s2)"
    by simp
  from getentropy_urandom_events[OF this]
  have B: "trace s2 = trace s1 @ events_since s1 s2"
    "\<forall>e \<in> set (events_since s1 s2). strategy_of e = Device"
    by (simp_all add: events_since_def)
  from a have "getentropy_sysctl buf n s2 = Some (ret', s3)" by simp
  from getentropy_sysctl_events[OF this]
  have C: "trace s3 = trace s2 @ events_since s2 s3"
    "\<forall>e \<in> set (events_since s2 s3). strategy_of e = Control"
    by simp_all
  from B(1) C(1) have "events_since s1 s3 = events_since s1 s2 @ events_since s2 s3"
    by (rule events_since_trans)
  moreover from B(1) C(1) have "trace s3 = trace s1 @ events_since s1 s3"
    by (rule trace_trans)
  with A(1) have "events_since s s3 = events_since s s1 @ events_since s1 s3"
    by (rule events_since_trans)
  ultimately
  show "events_since s s3 = events_since s s1 @ events_since s1 s2 @ events_since s2 s3"
    by simp
  from A(2) show "\<forall>e \<in> set (events_since s s1). strategy_of e = Syscall" .
  from B(2) show "\<forall>e \<in> set (events_since s1 s2). strategy_of e = Device" .
  from C(2) show "\<forall>e \<in> set (events_since s2 s3). strategy_of e = Control" .
next
  assume a: "n \<le> 256 \<and> \<not> (SYS_getrandom cfg \<and> getrandom_available s)
      \<and> getentropy_urandom buf n s = Some (- 1, s2) \<and> \<not> SYS__sysctl cfg"
  then show "ggentropy_linux cfg buf n s = Some (Inr (False, s2))"
    by (auto simp: ggentropy_linux_def ggentropy_fallback_def)
  from a have "getentropy_urandom buf n s = Some (- 1, s2)" by simp
  from getentropy_urandom_events[OF this]
  show "\<forall>e \<in> set (events_since s s2). strategy_of e = Device"
    by simp
next
  assume "n \<le> 256 \<and> SYS_getrandom cfg \<and> getrandom_available s
      \<and> getrandom_rs s = pre @ rest \<and> no_hard_failure transient_getrandom pre
      \<and> n \<le> length (concat (map answer_bytes pre))"
  then have "n \<le> 256" "SYS_getrandom cfg" "getrandom_available s"
    "getrandom_rs s = pre @ rest" "no_hard_failure transient_getrandom pre"
    "n \<le> length (concat (map answer_bytes pre))"
    by simp_all
  then show "\<exists>t. ggentropy_linux cfg buf n s = Some (Inr (True, t))
         \<and> load_bytes (mem t) buf n = take n (concat (map answer_bytes pre))
         \<and> (\<forall>ev \<in> set (events_since s t). strategy_of ev = Syscall)
         \<and> written (events_since s t) = {buf ..< buf + n}"
    by (rule ggentropy_linux_syscall_succeeds)
next
  assume "n \<le> 256
      \<and> (\<not> (SYS_getrandom cfg \<and> getrandom_available s)
         \<or> (SYS_getrandom cfg \<and> getrandom_available s
             \<and> getrandom_rs s = preA @ Inl ENOSYS # restA
             \<and> no_hard_failure transient_getrandom preA
             \<and> length (concat (map answer_bytes preA)) < n))
      \<and> open_rs s = replicate j (Inl EINTR) @ Inr d # os
      \<and> fstat_rs s = Inr m # fs \<and> S_ISCHR m \<and> ioctl_rs s = Inr c # cs
      \<and> read_rs s = pre @ rest \<and> no_hard_failure transient_read pre
      \<and> n \<le> length (concat (map answer_bytes pre))"
  then have "n \<le> 256"
    "\<not> (SYS_getrandom cfg \<and> getrandom_available s)
         \<or> (SYS_getrandom cfg \<and> getrandom_available s
             \<and> getrandom_rs s = preA @ Inl ENOSYS # restA
             \<and> no_hard_failure transient_getrandom preA
             \<and> length (concat (map answer_bytes preA)) < n)"
    "open_rs s = replicate j (Inl EINTR) @ Inr d # os"
    "fstat_rs s = Inr m # fs" "S_ISCHR m" "ioctl_rs s = Inr c # cs"
    "read_rs s = pre @ rest" "no_hard_failure transient_read pre"
    "n \<le> length (concat (map answer_bytes pre))"
    by blast+
  then show "\<exists>t. ggentropy_linux cfg buf n s = Some (Inr (True, t))
         \<and> load_bytes (mem t) buf n = take n (concat (map answer_bytes pre))
         \<and> (\<forall>ev \<in> set (events_since s t). strategy_of ev \<noteq> Control)
         \<and> written (events_since s t) = {buf ..< buf + n}"
    by (rule ggentropy_linux_device_succeeds)
next
  assume "n \<le> 256
      \<and> (\<not> (SYS_getrandom cfg \<and> getrandom_available s)
         \<or> (SYS_getrandom cfg \<and> getrandom_available s
             \<and> getrandom_rs s = preA @ Inl ENOSYS # restA
             \<and> no_hard_failure transient_getrandom preA
             \<and> length (concat (map answer_bytes preA)) < n))
      \<and> open_rs s = replicate j (Inl EINTR) @ Inl e # os \<and> e \<noteq> EINTR
      \<and> SYS__sysctl cfg
      \<and> sysctl_rs s = pre @ rest \<and> no_hard_failure transient_sysctl pre
      \<and> n \<le> length (concat (map (\<lambda>r. take 16 (answer_bytes r)) pre))"
  then have "n \<le> 256"
    "\<not> (SYS_getrandom cfg \<and> getrandom_available s)
         \<or> (SYS_getrandom cfg \<and> getrandom_available s
             \<and> getrandom_rs s = preA @ Inl ENOSYS # restA
             \<and> no_hard_failure transient_getrandom preA
             \<and> length (concat (map answer_bytes preA)) < n)"
    "open_rs s = replicate j (Inl EINTR) @ Inl e # os" "e \<noteq> EINTR" "SYS__sysctl cfg"
    "sysctl_rs s = pre @ rest" "no_hard_failure (\<lambda>r. False) pre"
    "n \<le> length (concat (map (\<lambda>r. take 16 (answer_bytes r)) pre))"
    unfolding transient_sysctl_False by blast+
  then show "\<exists>t evsA evsC. ggentropy_linux cfg buf n s = Some (Inr (True, t))
         \<and> load_bytes (mem t) buf n
             = take n (concat (map (\<lambda>r. take 16 (answer_bytes r)) pre))
         \<and> events_since s t = evsA
             @ replicate j (Ev_open ''/dev/urandom'' urandom_flags (Inl EINTR))
             @ [Ev_open ''/dev/urandom'' urandom_flags (Inl e)] @ evsC
         \<and> (\<forall>ev \<in> set evsA. strategy_of ev = Syscall)
         \<and> (\<forall>ev \<in> set evsC. strategy_of ev = Control)
         \<and> written evsC = {buf ..< buf + n}"
    by (rule ggentropy_linux_control_succeeds)
qed


theorem C4_strategy_order_witness:
  "let cfg = \<lparr>SYS_getrandom = True, SYS__sysctl = True\<rparr>;
       s = (initial_state (\<lambda>a. 0))
            \<lparr>getrandom_rs := [Inl ENOSYS], open_rs := [Inr 3], fstat_rs := [Inr 0x2180],
              ioctl_rs := [Inr 256], read_rs := [Inr [1, 2]], sysctl_rs := [Inr [7, 7]]\<rparr>;
       s1 = s\<lparr>errno := ENOSYS, getrandom_rs := [],
              trace := [Ev_getrandom 10 2 (Inl ENOSYS)]\<rparr>;
       s2 = s\<lparr>mem := store_bytes (\<lambda>a. 0) 10 [1, 2], errno := ENOSYS,
              getrandom_available := False,
              trace := [Ev_getrandom 10 2 (Inl ENOSYS),
                        Ev_open ''/dev/urandom'' [O_RDONLY, O_NOFOLLOW, O_CLOEXEC] (Inr 3),
                        Ev_fstat 3 (Inr 0x2180), Ev_ioctl 3 (Inr 256),
                        Ev_read 3 10 2 (Inr [1, 2]), Ev_close 3],
              getrandom_rs := [], open_rs := [], fstat_rs := [], ioctl_rs := [],
              read_rs := []\<rparr>;
       t = (initial_state (\<lambda>a. 0))\<lparr>getrandom_rs := [Inr [5, 6, 7]]\<rparr>;
       t1 = t\<lparr>mem := store_bytes (\<lambda>a. 0) 10 [5, 6], getrandom_rs := [],
              trace := [Ev_getrandom 10 2 (Inr [5, 6])]\<rparr>;
       w = (initial_state (\<lambda>a. 0))
            \<lparr>getrandom_rs := [Inl ENOSYS], open_rs := [Inl EINTR, Inl EMFILE],
              sysctl_rs := [Inr [7, 8, 9]]\<rparr>;
       w1 = w\<lparr>errno := ENOSYS, getrandom_rs := [],
              trace := [Ev_getrandom 10 2 (Inl ENOSYS)]\<rparr>;
       w2 = w\<lparr>errno := EIO, getrandom_available := False, getrandom_rs := [], open_rs := [],
              trace := [Ev_getrandom 10 2 (Inl ENOSYS),
                        Ev_open ''/dev/urandom'' [O_RDONLY, O_NOFOLLOW, O_CLOEXEC] (Inl EINTR),
                        Ev_open ''/dev/urandom'' [O_RDONLY, O_NOFOLLOW, O_CLOEXEC] (Inl EMFILE)]\<rparr>;
       w3 = w\<lparr>mem := store_bytes (\<lambda>a. 0) 10 [7, 8], errno := EIO,
              getrandom_available := False, getrandom_rs := [], open_rs := [],
              sysctl_rs := [],
              trace := [Ev_getrandom 10 2 (Inl ENOSYS),
                        Ev_open ''/dev/urandom'' [O_RDONLY, O_NOFOLLOW, O_CLOEXEC] (Inl EINTR),
                        Ev_open ''/dev/urandom'' [O_RDONLY, O_NOFOLLOW, O_CLOEXEC] (Inl EMFILE),
                        Ev_sysctl 10 2 (Inr [7, 8])]\<rparr>
   in getentropy_getrandom 10 2 s = Some (- 1, s1) \<and> errno s1 = ENOSYS
    \<and> getentropy_urandom 10 2 (s1\<lparr>getrandom_available := False\<rparr>) = Some (0, s2)
    \<and> ggentropy_linux cfg 10 2 s = Some (Inr (True, s2))
    \<and> in_step_order (events_since s s2)
    \<and> ggentropy_linux cfg 10 2 (s1\<lparr>getrandom_available := False\<rparr>) = Some (Inr (True, s2))
    \<and> getentropy_getrandom 10 2 t = Some (0, t1)
    \<and> ggentropy_linux cfg 10 2 t = Some (Inr (True, t1))
    \<and> getentropy_getrandom 10 2 w = Some (- 1, w1) \<and> errno w1 = ENOSYS
    \<and> getentropy_urandom 10 2 (w1\<lparr>getrandom_available := False\<rparr>) = Some (- 1, w2)
    \<and> SYS__sysctl cfg \<and> getentropy_sysctl 10 2 w2 = Some (0, w3)
    \<and> ggentropy_linux cfg 10 2 w = Some (Inr (True, w3))
    \<and> events_since w w3 = events_since w w1 @ events_since w1 w2 @ events_since w2 w3
    \<and> events_since w2 w3 = [Ev_sysctl 10 2 (Inr [7, 8])]
    \<and> getrandom_rs w = [] @ Inl ENOSYS # []
    \<and> no_hard_failure transient_getrandom []
    \<and> length (concat (map answer_bytes [])) < (2::nat)
    \<and> open_rs w = replicate 1 (Inl EINTR) @ Inl EMFILE # [] \<and> EMFILE \<noteq> EINTR
    \<and> sysctl_rs w = [Inr [7, 8, 9]] @ [] \<and> no_hard_failure transient_sysctl [Inr [7, 8, 9]]
    \<and> 2 \<le> length (concat (map (\<lambda>r. take 16 (answer_bytes r)) [Inr [7, 8, 9 :: byte]]))
    \<and> (\<exists>t evsA evsC. ggentropy_linux cfg 10 2 w = Some (Inr (True, t))
         \<and> load_bytes (mem t) 10 2
             = take 2 (concat (map (\<lambda>r. take 16 (answer_bytes r)) [Inr [7, 8, 9]]))
         \<and> events_since w t = evsA
             @ replicate 1 (Ev_open ''/dev/urandom'' urandom_flags (Inl EINTR))
             @ [Ev_open ''/dev/urandom'' urandom_flags (Inl EMFILE)] @ evsC
         \<and> (\<forall>ev \<in> set evsA. strategy_of ev = Syscall)
         \<and> (\<forall>ev \<in> set evsC. strategy_of ev = Control)
         \<and> written evsC = {10 ..< 10 + 2})"
proof -
  let ?w = "(initial_state (\<lambda>a. 0))
            \<lparr>getrandom_rs := [Inl ENOSYS], open_rs := [Inl EINTR, Inl EMFILE],
              sysctl_rs := [Inr [7, 8, 9]]\<rparr>"
  let ?w1 = "?w\<lparr>errno := ENOSYS, getrandom_rs := [],
              trace := [Ev_getrandom 10 2 (Inl ENOSYS)]\<rparr>"
  let ?w2 = "?w\<lparr>errno := EIO, getrandom_available := False, getrandom_rs := [], open_rs := [],
              trace := [Ev_getrandom 10 2 (Inl ENOSYS),
                        Ev_open ''/dev/urandom'' [O_RDONLY, O_NOFOLLOW, O_CLOEXEC] (Inl EINTR),
                        Ev_open ''/dev/urandom'' [O_RDONLY, O_NOFOLLOW, O_CLOEXEC] (Inl EMFILE)]\<rparr>"
  let ?w3 = "?w\<lparr>mem := store_bytes (\<lambda>a. 0) 10 [7, 8], errno := EIO,
              getrandom_available := False, getrandom_rs := [], open_rs := [],
              sysctl_rs := [],
              trace := [Ev_getrandom 10 2 (Inl ENOSYS),
                        Ev_open ''/dev/urandom'' [O_RDONLY, O_NOFOLLOW, O_CLOEXEC] (Inl EINTR),
                        Ev_open ''/dev/urandom'' [O_RDONLY, O_NOFOLLOW, O_CLOEXEC] (Inl EMFILE),
                        Ev_sysctl 10 2 (Inr [7, 8])]\<rparr>"
  let ?cfg = "\<lparr>SYS_getrandom = True, SYS__sysctl = True\<rparr>"
  let ?s = "(initial_state (\<lambda>a. 0))
            \<lparr>getrandom_rs := [Inl ENOSYS], open_rs := [Inr 3], fstat_rs := [Inr 0x2180],
              ioctl_rs := [Inr 256], read_rs := [Inr [1, 2]], sysctl_rs := [Inr [7, 7]]\<rparr>"
  let ?s1 = "?s\<lparr>errno := ENOSYS, getrandom_rs := [],
              trace := [Ev_getrandom 10 2 (Inl ENOSYS)]\<rparr>"
  let ?s2 = "?s\<lparr>mem := store_bytes (\<lambda>a. 0) 10 [1, 2], errno := ENOSYS,
              getrandom_available := False,
              trace := [Ev_getrandom 10 2 (Inl ENOSYS),
                        Ev_open ''/dev/urandom'' [O_RDONLY, O_NOFOLLOW, O_CLOEXEC] (Inr 3),
                        Ev_fstat 3 (Inr 0x2180), Ev_ioctl 3 (Inr 256),
                        Ev_read 3 10 2 (Inr [1, 2]), Ev_close 3],
              getrandom_rs := [], open_rs := [], fstat_rs := [], ioctl_rs := [],
              read_rs := []\<rparr>"
  let ?t = "(initial_state (\<lambda>a. 0))\<lparr>getrandom_rs := [Inr [5, 6, 7]]\<rparr>"
  let ?t1 = "?t\<lparr>mem := store_bytes (\<lambda>a. 0) 10 [5, 6], getrandom_rs := [],
              trace := [Ev_getrandom 10 2 (Inr [5, 6])]\<rparr>"
  have a: "getentropy_getrandom 10 2 ?s = Some (- 1, ?s1)" "errno ?s1 = ENOSYS"
    "SYS_getrandom ?cfg" "getrandom_available ?s" "(2::nat) \<le> 256"
    by (simp_all add: run_simps)
  have b: "getentropy_urandom 10 2 (?s1\<lparr>getrandom_available := False\<rparr>) = Some (0, ?s2)"
    by (simp add: run_simps)
  have off: "\<not> (SYS_getrandom ?cfg \<and> getrandom_available (?s1\<lparr>getrandom_available := False\<rparr>))"
    by simp
  have c: "getentropy_getrandom 10 2 ?t = Some (0, ?t1)" "getrandom_available ?t"
    by (simp_all add: run_simps)
  have ne: "(0::int) \<noteq> - 1" by simp
  have 4: "ggentropy_linux ?cfg 10 2 ?s = Some (Inr (True, ?s2))"
    using C4_strategy_order[of ?cfg 10 2 ?s True ?s2 0 ?s1 ?s2] a b ne by blast
  have 1: "in_step_order (events_since ?s ?s2)"
    using C4_strategy_order[of ?cfg 10 2 ?s True ?s2 0 ?s1 ?s2] 4 by blast
  have 3: "ggentropy_linux ?cfg 10 2 (?s1\<lparr>getrandom_available := False\<rparr>) = Some (Inr (True, ?s2))"
    using C4_strategy_order[of ?cfg 10 2 "?s1\<lparr>getrandom_available := False\<rparr>" True ?s2 0 ?s1 ?s2]
      a(5) b off ne by blast
  have 2: "ggentropy_linux ?cfg 10 2 ?t = Some (Inr (True, ?t1))"
    using C4_strategy_order[of ?cfg 10 2 ?t True ?t1 0 ?t1 ?t1] a(3,5) c ne by blast
  have wa: "getentropy_getrandom 10 2 ?w = Some (- 1, ?w1)" "errno ?w1 = ENOSYS"
    "getrandom_available ?w"
    by (simp_all add: run_simps)
  have wb: "getentropy_urandom 10 2 (?w1\<lparr>getrandom_available := False\<rparr>) = Some (- 1, ?w2)"
    by (simp add: run_simps)
  have wc: "SYS__sysctl ?cfg" "getentropy_sysctl 10 2 ?w2 = Some (0, ?w3)"
    by (simp_all add: run_simps)
  have wrun: "ggentropy_linux ?cfg 10 2 ?w = Some (Inr (True, ?w3))"
    by (simp add: run_simps)
  have wev: "events_since ?w2 ?w3 = [Ev_sysctl 10 2 (Inr [7, 8])]"
    by (simp add: events_since_def initial_state_def)
  have ws: "getrandom_rs ?w = [] @ Inl ENOSYS # []"
    "no_hard_failure transient_getrandom []"
    "length (concat (map answer_bytes [])) < (2::nat)"
    "open_rs ?w = replicate 1 (Inl EINTR) @ Inl EMFILE # []" "EMFILE \<noteq> EINTR"
    "sysctl_rs ?w = [Inr [7, 8, 9]] @ []" "no_hard_failure transient_sysctl [Inr [7, 8, 9]]"
    "2 \<le> length (concat (map (\<lambda>r. take 16 (answer_bytes r)) [Inr [7, 8, 9 :: byte]]))"
    by (simp_all add: initial_state_def no_hard_failure_def)
  note d = C4_strategy_order[where cfg = ?cfg and buf = 10 and n = 2 and s = ?w and ?s1.0 = ?w1
      and ?s2.0 = ?w2 and ?s3.0 = ?w3 and ret' = 0 and preA = "[]" and restA = "[]"
      and j = 1 and e = EMFILE and os = "[]" and pre = "[Inr [7, 8, 9]]" and rest = "[]"]
  note d6 = d[THEN conjunct2, THEN conjunct2, THEN conjunct2, THEN conjunct2, THEN conjunct2,
      THEN conjunct1]
  note d10 = d[THEN conjunct2, THEN conjunct2, THEN conjunct2, THEN conjunct2, THEN conjunct2,
      THEN conjunct2, THEN conjunct2, THEN conjunct2, THEN conjunct2]
  have 5: "events_since ?w ?w3
      = events_since ?w ?w1 @ events_since ?w1 ?w2 @ events_since ?w2 ?w3"
    by (rule d6[THEN mp, THEN conjunct2, THEN conjunct1]) (intro conjI; fact)
  have 6: "\<exists>t evsA evsC. ggentropy_linux ?cfg 10 2 ?w = Some (Inr (True, t))
         \<and> load_bytes (mem t) 10 2
             = take 2 (concat (map (\<lambda>r. take 16 (answer_bytes r)) [Inr [7, 8, 9]]))
         \<and> events_since ?w t = evsA
             @ replicate 1 (Ev_open ''/dev/urandom'' urandom_flags (Inl EINTR))
             @ [Ev_open ''/dev/urandom'' urandom_flags (Inl EMFILE)] @ evsC
         \<and> (\<forall>ev \<in> set evsA. strategy_of ev = Syscall)
         \<and> (\<forall>ev \<in> set evsC. strategy_of ev = Control)
         \<and> written evsC = {10 ..< 10 + 2}"
    by (rule d10[THEN mp]) (intro conjI disjI2; fact)
  from a(1,2) b 4 1 3 c(1) 2 wa(1,2) wb wc wrun 5 wev ws 6 show ?thesis
    unfolding Let_def by blast
qed

text \<open>
  C5. In step B, if the opened node is not a character special device (or \<open>fstat\<close>
  fails), or the \<open>RNDGETENTCNT\<close> query fails, the strategy closes the descriptor, reads
  nothing (the calls are the opens, the \<open>fstat\<close>, perhaps the \<open>ioctl\<close>, and the \<open>close\<close>;
  memory and the answers to \<open>read\<close> are untouched) and returns \<open>-1\<close> with \<open>EIO\<close>, which is
  what it returns when the open fails; \<open>ggentropy\<close> then goes on to step C where that is
  compiled in, and returns false where it is not.
\<close>

theorem C5_device_integrity:
  "(open_rs s = replicate k (Inl EINTR) @ Inr fd # os
    \<and> ((\<exists>e fs. fstat_rs s = Inl e # fs) \<or> (\<exists>m fs. fstat_rs s = Inr m # fs \<and> \<not> S_ISCHR m)
       \<or> (\<exists>m fs e is. fstat_rs s = Inr m # fs \<and> S_ISCHR m \<and> ioctl_rs s = Inl e # is)) \<longrightarrow>
    (\<exists>s' io. getentropy_urandom buf len s = Some (- 1, s')
      \<and> errno s' = EIO \<and> mem s' = mem s \<and> read_rs s' = read_rs s
      \<and> events_since s s' =
          replicate k (Ev_open ''/dev/urandom'' urandom_flags (Inl EINTR))
          @ [Ev_open ''/dev/urandom'' urandom_flags (Inr fd), Ev_fstat (int fd) (hd (fstat_rs s))]
          @ io @ [Ev_close (int fd)]
      \<and> (io = [] \<or> (\<exists>e. io = [Ev_ioctl (int fd) (Inl e)]))
      \<and> ggentropy_fallback cfg buf len s =
          (if SYS__sysctl cfg
           then (case getentropy_sysctl buf len s' of
                   None \<Rightarrow> None | Some (ret, s3) \<Rightarrow> Some (ret \<noteq> - 1, s3))
           else Some (False, s'))))
 \<and> (open_rs s = replicate k (Inl EINTR) @ Inl e # os \<and> e \<noteq> EINTR \<longrightarrow>
    (\<exists>s'. getentropy_urandom buf len s = Some (- 1, s')
      \<and> errno s' = EIO \<and> mem s' = mem s \<and> read_rs s' = read_rs s
      \<and> events_since s s' =
          replicate k (Ev_open ''/dev/urandom'' urandom_flags (Inl EINTR))
          @ [Ev_open ''/dev/urandom'' urandom_flags (Inl e)]
      \<and> ggentropy_fallback cfg buf len s =
          (if SYS__sysctl cfg
           then (case getentropy_sysctl buf len s' of
                   None \<Rightarrow> None | Some (ret, s3) \<Rightarrow> Some (ret \<noteq> - 1, s3))
           else Some (False, s'))))"
proof (intro conjI impI)
  assume a: "open_rs s = replicate k (Inl EINTR) @ Inr fd # os
    \<and> ((\<exists>e fs. fstat_rs s = Inl e # fs) \<or> (\<exists>m fs. fstat_rs s = Inr m # fs \<and> \<not> S_ISCHR m)
       \<or> (\<exists>m fs e is. fstat_rs s = Inr m # fs \<and> S_ISCHR m \<and> ioctl_rs s = Inl e # is))"
  then have "open_rs s = replicate k (Inl EINTR) @ Inr fd # os" ..
  from getentropy_urandom_start_retries[OF this, of buf len "errno s"] obtain t where
    t: "getentropy_urandom_start buf len (errno s) s = getentropy_urandom_start buf len (errno s) t"
    "open_rs t = Inr fd # os" "mem t = mem s" "fstat_rs t = fstat_rs s" "ioctl_rs t = ioctl_rs s"
    "read_rs t = read_rs s"
    "trace t = trace s @ replicate k (Ev_open ''/dev/urandom'' urandom_flags (Inl EINTR))"
    by blast
  from a t(4,5) have "(\<exists>e fs. fstat_rs t = Inl e # fs)
       \<or> (\<exists>m fs. fstat_rs t = Inr m # fs \<and> \<not> S_ISCHR m)
       \<or> (\<exists>m fs e is. fstat_rs t = Inr m # fs \<and> S_ISCHR m \<and> ioctl_rs t = Inl e # is)"
    by simp
  from getentropy_urandom_start_rejected[OF t(2) this, of buf len "errno s"]
  obtain s' io where
    s': "getentropy_urandom_start buf len (errno s) t = Some (- 1, s')"
    "errno s' = EIO" "mem s' = mem t" "read_rs s' = read_rs t"
    "trace s' = trace t @ [Ev_open ''/dev/urandom'' urandom_flags (Inr fd),
                               Ev_fstat (int fd) (hd (fstat_rs t))] @ io @ [Ev_close (int fd)]"
    "io = [] \<or> (\<exists>e. io = [Ev_ioctl (int fd) (Inl e)])"
    by blast
  have run: "getentropy_urandom buf len s = Some (- 1, s')"
    using t(1) s'(1) by (simp add: getentropy_urandom_def)
  have ev: "events_since s s' =
          replicate k (Ev_open ''/dev/urandom'' urandom_flags (Inl EINTR))
          @ [Ev_open ''/dev/urandom'' urandom_flags (Inr fd), Ev_fstat (int fd) (hd (fstat_rs s))]
          @ io @ [Ev_close (int fd)]"
    using s'(5) t(4,7) by (simp add: events_since_def)
  have fb: "ggentropy_fallback cfg buf len s =
          (if SYS__sysctl cfg
           then (case getentropy_sysctl buf len s' of
                   None \<Rightarrow> None | Some (ret, s3) \<Rightarrow> Some (ret \<noteq> - 1, s3))
           else Some (False, s'))"
    by (auto simp: ggentropy_fallback_def run split: option.splits)
  show "\<exists>s' io. getentropy_urandom buf len s = Some (- 1, s')
      \<and> errno s' = EIO \<and> mem s' = mem s \<and> read_rs s' = read_rs s
      \<and> events_since s s' =
          replicate k (Ev_open ''/dev/urandom'' urandom_flags (Inl EINTR))
          @ [Ev_open ''/dev/urandom'' urandom_flags (Inr fd), Ev_fstat (int fd) (hd (fstat_rs s))]
          @ io @ [Ev_close (int fd)]
      \<and> (io = [] \<or> (\<exists>e. io = [Ev_ioctl (int fd) (Inl e)]))
      \<and> ggentropy_fallback cfg buf len s =
          (if SYS__sysctl cfg
           then (case getentropy_sysctl buf len s' of
                   None \<Rightarrow> None | Some (ret, s3) \<Rightarrow> Some (ret \<noteq> - 1, s3))
           else Some (False, s'))"
    using run s'(2,3,4,6) t(3,6) ev fb by (intro exI[of _ s'] exI[of _ io]) simp
next
  assume a: "open_rs s = replicate k (Inl EINTR) @ Inl e # os \<and> e \<noteq> EINTR"
  then have "open_rs s = replicate k (Inl EINTR) @ Inl e # os" ..
  from getentropy_urandom_start_retries[OF this, of buf len "errno s"] obtain t where
    t: "getentropy_urandom_start buf len (errno s) s = getentropy_urandom_start buf len (errno s) t"
    "open_rs t = Inl e # os" "mem t = mem s" "read_rs t = read_rs s"
    "trace t = trace s @ replicate k (Ev_open ''/dev/urandom'' urandom_flags (Inl EINTR))"
    by blast
  from a have "e \<noteq> EINTR" ..
  from getentropy_urandom_start_open_failed[OF t(2) this, of buf len "errno s"]
  obtain s' where
    s': "getentropy_urandom_start buf len (errno s) t = Some (- 1, s')"
    "errno s' = EIO" "mem s' = mem t" "read_rs s' = read_rs t"
    "trace s' = trace t @ [Ev_open ''/dev/urandom'' urandom_flags (Inl e)]"
    by blast
  have run: "getentropy_urandom buf len s = Some (- 1, s')"
    using t(1) s'(1) by (simp add: getentropy_urandom_def)
  have ev: "events_since s s' =
          replicate k (Ev_open ''/dev/urandom'' urandom_flags (Inl EINTR))
          @ [Ev_open ''/dev/urandom'' urandom_flags (Inl e)]"
    using s'(5) t(5) by (simp add: events_since_def)
  have fb: "ggentropy_fallback cfg buf len s =
          (if SYS__sysctl cfg
           then (case getentropy_sysctl buf len s' of
                   None \<Rightarrow> None | Some (ret, s3) \<Rightarrow> Some (ret \<noteq> - 1, s3))
           else Some (False, s'))"
    by (auto simp: ggentropy_fallback_def run split: option.splits)
  show "\<exists>s'. getentropy_urandom buf len s = Some (- 1, s')
      \<and> errno s' = EIO \<and> mem s' = mem s \<and> read_rs s' = read_rs s
      \<and> events_since s s' =
          replicate k (Ev_open ''/dev/urandom'' urandom_flags (Inl EINTR))
          @ [Ev_open ''/dev/urandom'' urandom_flags (Inl e)]
      \<and> ggentropy_fallback cfg buf len s =
          (if SYS__sysctl cfg
           then (case getentropy_sysctl buf len s' of
                   None \<Rightarrow> None | Some (ret, s3) \<Rightarrow> Some (ret \<noteq> - 1, s3))
           else Some (False, s'))"
    using run s'(2,3,4) t(3,4) ev fb by (intro exI[of _ s']) simp
qed


theorem C5_device_integrity_witness:
  "let cfg = \<lparr>SYS_getrandom = True, SYS__sysctl = False\<rparr>;
       s = (initial_state (\<lambda>a. 0))
            \<lparr>getrandom_available := False, open_rs := [Inl EINTR, Inr 3],
              fstat_rs := [Inr 0x8180], ioctl_rs := [Inr 256], read_rs := [Inr [1, 2]]\<rparr>;
       t = (initial_state (\<lambda>a. 0))
            \<lparr>getrandom_available := False, open_rs := [Inl EINTR, Inl ENOENT]\<rparr>
   in open_rs s = replicate 1 (Inl EINTR) @ Inr 3 # []
    \<and> fstat_rs s = Inr 0x8180 # [] \<and> \<not> S_ISCHR 0x8180
    \<and> (\<exists>s' io. getentropy_urandom 10 2 s = Some (- 1, s')
          \<and> errno s' = EIO \<and> mem s' = mem s \<and> read_rs s' = read_rs s
          \<and> events_since s s' =
              replicate 1 (Ev_open ''/dev/urandom'' urandom_flags (Inl EINTR))
              @ [Ev_open ''/dev/urandom'' urandom_flags (Inr 3), Ev_fstat 3 (hd (fstat_rs s))]
              @ io @ [Ev_close 3]
          \<and> ggentropy_fallback cfg 10 2 s = Some (False, s'))
    \<and> open_rs t = replicate 1 (Inl EINTR) @ Inl ENOENT # [] \<and> ENOENT \<noteq> EINTR
    \<and> (\<exists>s'. getentropy_urandom 10 2 t = Some (- 1, s') \<and> errno s' = EIO
          \<and> ggentropy_fallback cfg 10 2 t = Some (False, s'))"
proof -
  let ?cfg = "\<lparr>SYS_getrandom = True, SYS__sysctl = False\<rparr>"
  let ?s = "(initial_state (\<lambda>a. 0))
            \<lparr>getrandom_available := False, open_rs := [Inl EINTR, Inr 3],
              fstat_rs := [Inr 0x8180], ioctl_rs := [Inr 256], read_rs := [Inr [1, 2]]\<rparr>"
  let ?t = "(initial_state (\<lambda>a. 0))
            \<lparr>getrandom_available := False, open_rs := [Inl EINTR, Inl ENOENT]\<rparr>"
  have s: "open_rs ?s = replicate 1 (Inl EINTR) @ Inr 3 # []"
    "fstat_rs ?s = Inr 0x8180 # []" "\<not> S_ISCHR 0x8180"
    by (simp_all add: initial_state_def S_ISCHR_def)
  have t: "open_rs ?t = replicate 1 (Inl EINTR) @ Inl ENOENT # []" "ENOENT \<noteq> EINTR"
    by (simp_all add: initial_state_def)
  have cfg: "\<not> SYS__sysctl ?cfg" by simp
  from s have rej: "(\<exists>e fs. fstat_rs ?s = Inl e # fs)
      \<or> (\<exists>m fs. fstat_rs ?s = Inr m # fs \<and> \<not> S_ISCHR m)
      \<or> (\<exists>m fs e is. fstat_rs ?s = Inr m # fs \<and> S_ISCHR m \<and> ioctl_rs ?s = Inl e # is)"
    by blast
  from C5_device_integrity[of ?s 1 3 "[]" 10 2 ?cfg ENOENT] s(1) rej cfg
  have 1: "\<exists>s' io. getentropy_urandom 10 2 ?s = Some (- 1, s')
          \<and> errno s' = EIO \<and> mem s' = mem ?s \<and> read_rs s' = read_rs ?s
          \<and> events_since ?s s' =
              replicate 1 (Ev_open ''/dev/urandom'' urandom_flags (Inl EINTR))
              @ [Ev_open ''/dev/urandom'' urandom_flags (Inr 3), Ev_fstat 3 (hd (fstat_rs ?s))]
              @ io @ [Ev_close 3]
          \<and> ggentropy_fallback ?cfg 10 2 ?s = Some (False, s')"
    by (simp only: simp_thms if_False of_nat_numeral) blast
  from C5_device_integrity[of ?t 1 3 "[]" 10 2 ?cfg ENOENT] t cfg
  have 2: "\<exists>s'. getentropy_urandom 10 2 ?t = Some (- 1, s') \<and> errno s' = EIO
          \<and> ggentropy_fallback ?cfg 10 2 ?t = Some (False, s')"
    by (simp only: simp_thms if_False) blast
  from s t 1 2 show ?thesis unfolding Let_def by blast
qed

text \<open>
  C6. A transient interruption is never surfaced. After a getrandom syscall that fails
  with \<open>EINTR\<close>, and after a read that fails with \<open>EAGAIN\<close> or \<open>EINTR\<close>, the loop goes on
  with the same pointer and the same count. So the interruptions change nothing a caller
  can see: a call returns the same result, memory, \<open>errno\<close> and flag as the call made
  with a kernel that gives the same answers without them (and does not return if that one
  does not); when that one returns true, so does the interrupted call, with all \<open>n\<close>
  bytes stored. And an interrupted call does complete. In step A: when the answers \<open>pre\<close>
  to the getrandom syscalls fail only with \<open>EINTR\<close>, any number of times, and deliver
  \<open>n\<close> bytes or more, the call returns true and the buffer holds the first \<open>n\<close> bytes
  delivered. In step B (step A skipped, or ended by \<open>ENOSYS\<close>): when \<open>open\<close> succeeds after
  any number of \<open>EINTR\<close>, \<open>fstat\<close> finds a character device, the \<open>ioctl\<close> succeeds, and
  the answers \<open>pre\<close> to the reads fail only with \<open>EAGAIN\<close> or \<open>EINTR\<close> and deliver \<open>n\<close>
  bytes or more, the call returns true and the buffer holds the first \<open>n\<close> bytes read.
\<close>

theorem C6_interruptions_are_retried:
  "outcome (ggentropy_linux cfg buf n s) = outcome (ggentropy_linux cfg buf n (uninterrupted s))
 \<and> (ggentropy_linux cfg buf n (uninterrupted s) = Some (Inr (True, t)) \<longrightarrow>
      (\<exists>s'. ggentropy_linux cfg buf n s = Some (Inr (True, s')) \<and> mem s' = mem t
         \<and> written (events_since s s') = {buf ..< buf + n}))
 \<and> (0 < left \<and> getrandom_rs s = Inl EINTR # rs \<longrightarrow>
      getrandom_loop p left s =
      getrandom_loop p left
        (s\<lparr>errno := EINTR, getrandom_rs := rs,
           trace := trace s @ [Ev_getrandom p (nat left) (Inl EINTR)]\<rparr>))
 \<and> (i < len \<and> read_rs s = Inl e # rs \<and> (e = EAGAIN \<or> e = EINTR) \<longrightarrow>
      urandom_read_loop fd buf len i s =
      urandom_read_loop fd buf len i
        (s\<lparr>errno := e, read_rs := rs,
           trace := trace s @ [Ev_read fd (buf + i) (len - i) (Inl e)]\<rparr>))
 \<and> (n \<le> 256 \<and> SYS_getrandom cfg \<and> getrandom_available s
      \<and> getrandom_rs s = pre @ rest \<and> no_hard_failure transient_getrandom pre
      \<and> n \<le> length (concat (map answer_bytes pre)) \<longrightarrow>
      (\<exists>s'. ggentropy_linux cfg buf n s = Some (Inr (True, s'))
         \<and> load_bytes (mem s') buf n = take n (concat (map answer_bytes pre))
         \<and> (\<forall>ev \<in> set (events_since s s'). strategy_of ev = Syscall)
         \<and> written (events_since s s') = {buf ..< buf + n}))
 \<and> (n \<le> 256
      \<and> (\<not> (SYS_getrandom cfg \<and> getrandom_available s)
         \<or> (SYS_getrandom cfg \<and> getrandom_available s
             \<and> getrandom_rs s = preA @ Inl ENOSYS # restA
             \<and> no_hard_failure transient_getrandom preA
             \<and> length (concat (map answer_bytes preA)) < n))
      \<and> open_rs s = replicate j (Inl EINTR) @ Inr d # os
      \<and> fstat_rs s = Inr m # fs \<and> S_ISCHR m \<and> ioctl_rs s = Inr c # cs
      \<and> read_rs s = pre @ rest \<and> no_hard_failure transient_read pre
      \<and> n \<le> length (concat (map answer_bytes pre)) \<longrightarrow>
      (\<exists>s'. ggentropy_linux cfg buf n s = Some (Inr (True, s'))
         \<and> load_bytes (mem s') buf n = take n (concat (map answer_bytes pre))
         \<and> (\<forall>ev \<in> set (events_since s s'). strategy_of ev \<noteq> Control)
         \<and> written (events_since s s') = {buf ..< buf + n}))"
proof (intro conjI impI)
  show eq: "outcome (ggentropy_linux cfg buf n s)
      = outcome (ggentropy_linux cfg buf n (uninterrupted s))"
    by (intro ggentropy_linux_sim interrupts_apart_uninterrupted) simp
  {
    assume "ggentropy_linux cfg buf n (uninterrupted s) = Some (Inr (True, t))"
    with eq have "outcome (ggentropy_linux cfg buf n s) = outcome (Some (Inr (True, t)))"
      by simp
    from outcome_returned[OF this] obtain s' where
      s': "ggentropy_linux cfg buf n s = Some (Inr (True, s'))" "mem s' = mem t"
      by blast
    from ggentropy_linux_effect[OF s'(1)] obtain evs where
      "trace s' = trace s @ evs" "written evs = {buf ..< buf + n}"
      by auto
    then have "written (events_since s s') = {buf ..< buf + n}"
      by (simp add: events_since_append)
    with s' show "\<exists>s'. ggentropy_linux cfg buf n s = Some (Inr (True, s')) \<and> mem s' = mem t
         \<and> written (events_since s s') = {buf ..< buf + n}"
      by blast
  }
next
  assume "0 < left \<and> getrandom_rs s = Inl EINTR # rs"
  then show "getrandom_loop p left s =
      getrandom_loop p left
        (s\<lparr>errno := EINTR, getrandom_rs := rs,
           trace := trace s @ [Ev_getrandom p (nat left) (Inl EINTR)]\<rparr>)"
    by (simp add: getrandom_loop.simps[of p left s] sys_getrandom_def)
next
  assume "i < len \<and> read_rs s = Inl e # rs \<and> (e = EAGAIN \<or> e = EINTR)"
  then show "urandom_read_loop fd buf len i s =
      urandom_read_loop fd buf len i
        (s\<lparr>errno := e, read_rs := rs,
           trace := trace s @ [Ev_read fd (buf + i) (len - i) (Inl e)]\<rparr>)"
    by (auto simp: urandom_read_loop.simps[of fd buf len i s] sys_read_def)
next
  assume "n \<le> 256 \<and> SYS_getrandom cfg \<and> getrandom_available s
      \<and> getrandom_rs s = pre @ rest \<and> no_hard_failure transient_getrandom pre
      \<and> n \<le> length (concat (map answer_bytes pre))"
  then have "n \<le> 256" "SYS_getrandom cfg" "getrandom_available s"
    "getrandom_rs s = pre @ rest" "no_hard_failure transient_getrandom pre"
    "n \<le> length (concat (map answer_bytes pre))"
    by simp_all
  then show "\<exists>s'. ggentropy_linux cfg buf n s = Some (Inr (True, s'))
         \<and> load_bytes (mem s') buf n = take n (concat (map answer_bytes pre))
         \<and> (\<forall>ev \<in> set (events_since s s'). strategy_of ev = Syscall)
         \<and> written (events_since s s') = {buf ..< buf + n}"
    by (rule ggentropy_linux_syscall_succeeds)
next
  assume "n \<le> 256
      \<and> (\<not> (SYS_getrandom cfg \<and> getrandom_available s)
         \<or> (SYS_getrandom cfg \<and> getrandom_available s
             \<and> getrandom_rs s = preA @ Inl ENOSYS # restA
             \<and> no_hard_failure transient_getrandom preA
             \<and> length (concat (map answer_bytes preA)) < n))
      \<and> open_rs s = replicate j (Inl EINTR) @ Inr d # os
      \<and> fstat_rs s = Inr m # fs \<and> S_ISCHR m \<and> ioctl_rs s = Inr c # cs
      \<and> read_rs s = pre @ rest \<and> no_hard_failure transient_read pre
      \<and> n \<le> length (concat (map answer_bytes pre))"
  then have "n \<le> 256"
    "\<not> (SYS_getrandom cfg \<and> getrandom_available s)
         \<or> (SYS_getrandom cfg \<and> getrandom_available s
             \<and> getrandom_rs s = preA @ Inl ENOSYS # restA
             \<and> no_hard_failure transient_getrandom preA
             \<and> length (concat (map answer_bytes preA)) < n)"
    "open_rs s = replicate j (Inl EINTR) @ Inr d # os"
    "fstat_rs s = Inr m # fs" "S_ISCHR m" "ioctl_rs s = Inr c # cs"
    "read_rs s = pre @ rest" "no_hard_failure transient_read pre"
    "n \<le> length (concat (map answer_bytes pre))"
    by blast+
  then show "\<exists>s'. ggentropy_linux cfg buf n s = Some (Inr (True, s'))
         \<and> load_bytes (mem s') buf n = take n (concat (map answer_bytes pre))
         \<and> (\<forall>ev \<in> set (events_since s s'). strategy_of ev \<noteq> Control)
         \<and> written (events_since s s') = {buf ..< buf + n}"
    by (rule ggentropy_linux_device_succeeds)
qed

theorem C6_interruptions_are_retried_witness:
  "let cfg = \<lparr>SYS_getrandom = True, SYS__sysctl = True\<rparr>;
       s = (initial_state (\<lambda>a. 0))
            \<lparr>getrandom_rs := [Inl EINTR, Inr [1], Inl EINTR, Inr [2, 3]],
              read_rs := [Inl EAGAIN, Inr [4]]\<rparr>;
       t = (initial_state (\<lambda>a. 0))
            \<lparr>mem := store_bytes (store_bytes (\<lambda>a. 0) 10 [1]) 11 [2, 3],
              trace := [Ev_getrandom 10 3 (Inr [1]), Ev_getrandom 11 2 (Inr [2, 3])],
              read_rs := [Inr [4]]\<rparr>;
       u = (initial_state (\<lambda>a. 0))
            \<lparr>getrandom_rs := [Inl EINTR, Inl ENOSYS], open_rs := [Inl EINTR, Inr 3],
              fstat_rs := [Inr 0x2180], ioctl_rs := [Inr 256],
              read_rs := [Inl EAGAIN, Inr [4], Inl EINTR, Inl EINTR, Inr [5, 6, 7], Inl EIO]\<rparr>;
       u' = (initial_state (\<lambda>a. 0))
            \<lparr>mem := store_bytes (store_bytes (\<lambda>a. 0) 10 [4]) 11 [5, 6],
              errno := ENOSYS, getrandom_available := False,
              trace := [Ev_getrandom 10 3 (Inl EINTR), Ev_getrandom 10 3 (Inl ENOSYS),
                        Ev_open ''/dev/urandom'' [O_RDONLY, O_NOFOLLOW, O_CLOEXEC] (Inl EINTR),
                        Ev_open ''/dev/urandom'' [O_RDONLY, O_NOFOLLOW, O_CLOEXEC] (Inr 3),
                        Ev_fstat 3 (Inr 0x2180), Ev_ioctl 3 (Inr 256),
                        Ev_read 3 10 3 (Inl EAGAIN), Ev_read 3 10 3 (Inr [4]),
                        Ev_read 3 11 2 (Inl EINTR), Ev_read 3 11 2 (Inl EINTR),
                        Ev_read 3 11 2 (Inr [5, 6]), Ev_close 3],
              read_rs := [Inl EIO]\<rparr>
   in ggentropy_linux cfg 10 3 (uninterrupted s) = Some (Inr (True, t))
    \<and> (\<exists>s'. ggentropy_linux cfg 10 3 s = Some (Inr (True, s')) \<and> mem s' = mem t
          \<and> written (events_since s s') = {10 ..< 10 + 3})
    \<and> (0::int) < 3 \<and> getrandom_rs s = Inl EINTR # [Inr [1], Inl EINTR, Inr [2, 3]]
    \<and> getrandom_loop 10 3 s =
        getrandom_loop 10 3
          (s\<lparr>errno := EINTR, getrandom_rs := [Inr [1], Inl EINTR, Inr [2, 3]],
             trace := trace s @ [Ev_getrandom 10 (nat 3) (Inl EINTR)]\<rparr>)
    \<and> (0::nat) < 1 \<and> read_rs s = Inl EAGAIN # [Inr [4]]
    \<and> urandom_read_loop 3 10 1 0 s =
        urandom_read_loop 3 10 1 0
          (s\<lparr>errno := EAGAIN, read_rs := [Inr [4]],
             trace := trace s @ [Ev_read 3 (10 + 0) (1 - 0) (Inl EAGAIN)]\<rparr>)
    \<and> (3::nat) \<le> 256 \<and> SYS_getrandom cfg \<and> getrandom_available s
    \<and> getrandom_rs s = [Inl EINTR, Inr [1], Inl EINTR, Inr [2, 3]] @ []
    \<and> no_hard_failure transient_getrandom [Inl EINTR, Inr [1], Inl EINTR, Inr [2, 3]]
    \<and> 3 \<le> length (concat (map answer_bytes [Inl EINTR, Inr [1], Inl EINTR, Inr [2, 3]]))
    \<and> (\<exists>s'. ggentropy_linux cfg 10 3 s = Some (Inr (True, s'))
         \<and> load_bytes (mem s') 10 3
             = take 3 (concat (map answer_bytes [Inl EINTR, Inr [1], Inl EINTR, Inr [2, 3]]))
         \<and> (\<forall>ev \<in> set (events_since s s'). strategy_of ev = Syscall)
         \<and> written (events_since s s') = {10 ..< 10 + 3})
    \<and> SYS_getrandom cfg \<and> getrandom_available u
    \<and> getrandom_rs u = [Inl EINTR] @ Inl ENOSYS # []
    \<and> no_hard_failure transient_getrandom [Inl EINTR]
    \<and> length (concat (map answer_bytes [Inl EINTR])) < 3
    \<and> open_rs u = replicate 1 (Inl EINTR) @ Inr 3 # []
    \<and> fstat_rs u = Inr 0x2180 # [] \<and> S_ISCHR 0x2180 \<and> ioctl_rs u = Inr 256 # []
    \<and> read_rs u = [Inl EAGAIN, Inr [4], Inl EINTR, Inl EINTR, Inr [5, 6, 7]] @ [Inl EIO]
    \<and> no_hard_failure transient_read [Inl EAGAIN, Inr [4], Inl EINTR, Inl EINTR, Inr [5, 6, 7]]
    \<and> 3 \<le> length (concat (map answer_bytes
               [Inl EAGAIN, Inr [4], Inl EINTR, Inl EINTR, Inr [5, 6, 7]]))
    \<and> (\<exists>s'. ggentropy_linux cfg 10 3 u = Some (Inr (True, s'))
         \<and> load_bytes (mem s') 10 3
             = take 3 (concat (map answer_bytes
                 [Inl EAGAIN, Inr [4], Inl EINTR, Inl EINTR, Inr [5, 6, 7]]))
         \<and> (\<forall>ev \<in> set (events_since u s'). strategy_of ev \<noteq> Control)
         \<and> written (events_since u s') = {10 ..< 10 + 3})
    \<and> ggentropy_linux cfg 10 3 u = Some (Inr (True, u'))
    \<and> load_bytes (mem u') 10 3 = [4, 5, 6]"
proof -
  let ?cfg = "\<lparr>SYS_getrandom = True, SYS__sysctl = True\<rparr>"
  let ?s = "(initial_state (\<lambda>a. 0))
            \<lparr>getrandom_rs := [Inl EINTR, Inr [1], Inl EINTR, Inr [2, 3]],
              read_rs := [Inl EAGAIN, Inr [4]]\<rparr>"
  let ?t = "(initial_state (\<lambda>a. 0))
            \<lparr>mem := store_bytes (store_bytes (\<lambda>a. 0) 10 [1]) 11 [2, 3],
              trace := [Ev_getrandom 10 3 (Inr [1]), Ev_getrandom 11 2 (Inr [2, 3])],
              read_rs := [Inr [4]]\<rparr>"
  let ?u = "(initial_state (\<lambda>a. 0))
            \<lparr>getrandom_rs := [Inl EINTR, Inl ENOSYS], open_rs := [Inl EINTR, Inr 3],
              fstat_rs := [Inr 0x2180], ioctl_rs := [Inr 256],
              read_rs := [Inl EAGAIN, Inr [4], Inl EINTR, Inl EINTR, Inr [5, 6, 7], Inl EIO]\<rparr>"
  let ?u' = "(initial_state (\<lambda>a. 0))
            \<lparr>mem := store_bytes (store_bytes (\<lambda>a. 0) 10 [4]) 11 [5, 6],
              errno := ENOSYS, getrandom_available := False,
              trace := [Ev_getrandom 10 3 (Inl EINTR), Ev_getrandom 10 3 (Inl ENOSYS),
                        Ev_open ''/dev/urandom'' [O_RDONLY, O_NOFOLLOW, O_CLOEXEC] (Inl EINTR),
                        Ev_open ''/dev/urandom'' [O_RDONLY, O_NOFOLLOW, O_CLOEXEC] (Inr 3),
                        Ev_fstat 3 (Inr 0x2180), Ev_ioctl 3 (Inr 256),
                        Ev_read 3 10 3 (Inl EAGAIN), Ev_read 3 10 3 (Inr [4]),
                        Ev_read 3 11 2 (Inl EINTR), Ev_read 3 11 2 (Inl EINTR),
                        Ev_read 3 11 2 (Inr [5, 6]), Ev_close 3],
              read_rs := [Inl EIO]\<rparr>"
  let ?preS = "[Inl EINTR, Inr [1], Inl EINTR, Inr [2, 3]] :: (errno + byte list) list"
  let ?preU = "[Inl EAGAIN, Inr [4], Inl EINTR, Inl EINTR, Inr [5, 6, 7]] :: (errno + byte list) list"
  have run: "ggentropy_linux ?cfg 10 3 (uninterrupted ?s) = Some (Inr (True, ?t))"
    by (simp add: run_simps uninterrupted_def transient_getrandom_def transient_read_def)
  have g: "(0::int) < 3" "getrandom_rs ?s = Inl EINTR # [Inr [1], Inl EINTR, Inr [2, 3]]"
    by simp_all
  have r: "(0::nat) < 1" "read_rs ?s = Inl EAGAIN # [Inr [4]]" "EAGAIN = EAGAIN \<or> EAGAIN = EINTR"
    by simp_all
  have hs: "(3::nat) \<le> 256" "SYS_getrandom ?cfg" "getrandom_available ?s"
    "getrandom_rs ?s = ?preS @ []"
    "no_hard_failure transient_getrandom ?preS"
    "3 \<le> length (concat (map answer_bytes ?preS))"
    by (simp_all add: initial_state_def no_hard_failure_def transient_getrandom_def)
  have hu: "getrandom_available ?u"
    "getrandom_rs ?u = [Inl EINTR] @ Inl ENOSYS # []"
    "no_hard_failure transient_getrandom [Inl EINTR]"
    "length (concat (map answer_bytes [Inl EINTR])) < 3"
    "open_rs ?u = replicate 1 (Inl EINTR) @ Inr 3 # []"
    "fstat_rs ?u = Inr 0x2180 # []" "S_ISCHR 0x2180" "ioctl_rs ?u = Inr 256 # []"
    "read_rs ?u = ?preU @ [Inl EIO]"
    "no_hard_failure transient_read ?preU"
    "3 \<le> length (concat (map answer_bytes ?preU))"
    by (simp_all add: initial_state_def no_hard_failure_def transient_getrandom_def
        transient_read_def S_ISCHR_def)
  have runu: "ggentropy_linux ?cfg 10 3 ?u = Some (Inr (True, ?u'))"
    by (simp add: run_simps)
  have bytes: "load_bytes (mem ?u') 10 3 = [4, 5, 6]"
    by (simp add: load_bytes_def store_bytes_def initial_state_def upt_rec)
  note a = C6_interruptions_are_retried[where cfg = ?cfg and buf = 10 and n = 3 and s = ?s and t = ?t
      and left = 3 and rs = "[Inr [1], Inl EINTR, Inr [2, 3]]" and p = 10 and i = 0
      and len = 1 and e = EAGAIN and fd = 3 and pre = ?preS and rest = "[]"]
  note b = C6_interruptions_are_retried[where cfg = ?cfg and buf = 10 and n = 3 and s = ?s and t = ?t
      and left = 3 and rs = "[Inr [4]]" and p = 10 and i = 0
      and len = 1 and e = EAGAIN and fd = 3]
  note c = C6_interruptions_are_retried[where cfg = ?cfg and buf = 10 and n = 3 and s = ?u
      and preA = "[Inl EINTR]" and restA = "[]" and j = 1 and d = 3 and os = "[]"
      and m = "0x2180" and fs = "[]" and c = 256 and cs = "[]" and pre = ?preU
      and rest = "[Inl EIO]"]
  from a run have 1: "\<exists>s'. ggentropy_linux ?cfg 10 3 ?s = Some (Inr (True, s')) \<and> mem s' = mem ?t
          \<and> written (events_since ?s s') = {10 ..< 10 + 3}"
    by blast
  from a g have 2: "getrandom_loop 10 3 ?s =
        getrandom_loop 10 3
          (?s\<lparr>errno := EINTR, getrandom_rs := [Inr [1], Inl EINTR, Inr [2, 3]],
             trace := trace ?s @ [Ev_getrandom 10 (nat 3) (Inl EINTR)]\<rparr>)"
    by blast
  from b r have 3: "urandom_read_loop 3 10 1 0 ?s =
        urandom_read_loop 3 10 1 0
          (?s\<lparr>errno := EAGAIN, read_rs := [Inr [4]],
             trace := trace ?s @ [Ev_read 3 (10 + 0) (1 - 0) (Inl EAGAIN)]\<rparr>)"
    by blast
  from a hs have 4: "\<exists>s'. ggentropy_linux ?cfg 10 3 ?s = Some (Inr (True, s'))
         \<and> load_bytes (mem s') 10 3 = take 3 (concat (map answer_bytes ?preS))
         \<and> (\<forall>ev \<in> set (events_since ?s s'). strategy_of ev = Syscall)
         \<and> written (events_since ?s s') = {10 ..< 10 + 3}"
    by blast
  from c hs(1,2) hu have 5: "\<exists>s'. ggentropy_linux ?cfg 10 3 ?u = Some (Inr (True, s'))
         \<and> load_bytes (mem s') 10 3 = take 3 (concat (map answer_bytes ?preU))
         \<and> (\<forall>ev \<in> set (events_since ?u s'). strategy_of ev \<noteq> Control)
         \<and> written (events_since ?u s') = {10 ..< 10 + 3}"
    by blast
  from 1 2 3 4 5 show ?thesis
    using run g r(1,2) hs hu runu bytes unfolding Let_def by blast
qed

text \<open>
  C7. For every length \<open>0 \<le> n \<le> 256\<close>, a call that returns true has stored to exactly the
  first \<open>n\<close> bytes of the buffer, and every byte outside them holds the value it held
  before the call.
\<close>

theorem C7_exactly_the_first_n_bytes:
  "(ggentropy_linux cfg buf n s = Some (Inr (True, s')) \<longrightarrow>
      n \<le> 256 \<and> written (events_since s s') = {buf ..< buf + n}
    \<and> (\<forall>a. a < buf \<or> buf + n \<le> a \<longrightarrow> mem s' a = mem s a))
 \<and> (ggentropy_windows (status, gen) buf n m = Inr (True, m') \<longrightarrow>
      n \<le> 256 \<and> m' = store_bytes m buf (map gen [0 ..< n])
    \<and> (\<forall>a. a < buf \<or> buf + n \<le> a \<longrightarrow> m' a = m a))
 \<and> (ggentropy_arc4random gen buf n m = Inr (True, m') \<longrightarrow>
      n \<le> 256 \<and> m' = store_bytes m buf (map gen [0 ..< n])
    \<and> (\<forall>a. a < buf \<or> buf + n \<le> a \<longrightarrow> m' a = m a))"
proof (intro conjI impI)
  assume run: "ggentropy_linux cfg buf n s = Some (Inr (True, s'))"
  then show "n \<le> 256" by (auto simp: ggentropy_linux_def split: if_splits)
  from ggentropy_linux_effect[OF run] obtain evs where
    evs: "trace s' = trace s @ evs" "written evs = {buf ..< buf + n}"
    "\<forall>a. a < buf \<or> buf + n \<le> a \<longrightarrow> mem s' a = mem s a"
    by auto
  from evs(1,2) show "written (events_since s s') = {buf ..< buf + n}"
    by (simp add: events_since_append)
  from evs(3) show "\<forall>a. a < buf \<or> buf + n \<le> a \<longrightarrow> mem s' a = mem s a" .
next
  assume "ggentropy_windows (status, gen) buf n m = Inr (True, m')"
  from windows_effect[OF this]
  show "n \<le> 256" "m' = store_bytes m buf (map gen [0 ..< n])"
    "\<forall>a. a < buf \<or> buf + n \<le> a \<longrightarrow> m' a = m a"
    by (simp_all add: store_bytes_outside)
next
  assume "ggentropy_arc4random gen buf n m = Inr (True, m')"
  from arc4random_effect[OF this]
  show "n \<le> 256" "m' = store_bytes m buf (map gen [0 ..< n])"
    "\<forall>a. a < buf \<or> buf + n \<le> a \<longrightarrow> m' a = m a"
    by (simp_all add: store_bytes_outside)
qed

theorem C7_exactly_the_first_n_bytes_witness:
  "let cfg = \<lparr>SYS_getrandom = True, SYS__sysctl = True\<rparr>;
       s = (initial_state (\<lambda>a. 9))\<lparr>getrandom_rs := [Inr [1, 2], Inl EINTR, Inr [3, 4]]\<rparr>;
       s' = (initial_state (\<lambda>a. 9))
          \<lparr>mem := store_bytes (store_bytes (\<lambda>a. 9) 10 [1, 2]) 12 [3],
            trace := [Ev_getrandom 10 3 (Inr [1, 2]), Ev_getrandom 12 1 (Inl EINTR),
                      Ev_getrandom 12 1 (Inr [3])]\<rparr>;
       gen = (\<lambda>i. if i = 0 then 5 else 6);
       m' = store_bytes (\<lambda>a. 9) 10 (map gen [0 ..< 3])
   in ggentropy_linux cfg 10 3 s = Some (Inr (True, s'))
    \<and> written (events_since s s') = {10 ..< 13}
    \<and> mem s' 13 = mem s 13 \<and> mem s' 9 = mem s 9
    \<and> ggentropy_windows (0, gen) 10 3 (\<lambda>a. 9) = Inr (True, m')
    \<and> ggentropy_arc4random gen 10 3 (\<lambda>a. 9) = Inr (True, m')
    \<and> m' 13 = 9 \<and> m' 9 = 9"
proof -
  let ?cfg = "\<lparr>SYS_getrandom = True, SYS__sysctl = True\<rparr>"
  let ?s = "(initial_state (\<lambda>a. 9))\<lparr>getrandom_rs := [Inr [1, 2], Inl EINTR, Inr [3, 4]]\<rparr>"
  let ?s' = "(initial_state (\<lambda>a. 9))
          \<lparr>mem := store_bytes (store_bytes (\<lambda>a. 9) 10 [1, 2]) 12 [3],
            trace := [Ev_getrandom 10 3 (Inr [1, 2]), Ev_getrandom 12 1 (Inl EINTR),
                      Ev_getrandom 12 1 (Inr [3])]\<rparr>"
  let ?gen = "\<lambda>i::nat. if i = 0 then 5 else (6::byte)"
  let ?m' = "store_bytes (\<lambda>a. 9) 10 (map ?gen [0 ..< 3])"
  have linux: "ggentropy_linux ?cfg 10 3 ?s = Some (Inr (True, ?s'))"
    by (simp add: ggentropy_linux_def getentropy_getrandom_def getrandom_loop.simps
        sys_getrandom_def initial_state_def Let_def)
  have windows: "ggentropy_windows (0, ?gen) 10 3 (\<lambda>a. 9) = Inr (True, ?m')"
    by (simp add: ggentropy_windows_def BCryptGenRandom_def FAILED_def)
  have arc4: "ggentropy_arc4random ?gen 10 3 (\<lambda>a. 9) = Inr (True, ?m')"
    by (simp add: ggentropy_arc4random_def arc4random_buf_def)
  have same: "mem ?s 13 = 9" "mem ?s 9 = 9"
    by (simp_all add: initial_state_def)
  from C7_exactly_the_first_n_bytes[of ?cfg 10 3 ?s ?s' 0 ?gen "\<lambda>a. 9" ?m'] linux windows arc4
  have "written (events_since ?s ?s') = {10 ..< 10 + 3}"
    "\<forall>a. a < 10 \<or> 10 + 3 \<le> a \<longrightarrow> mem ?s' a = mem ?s a"
    "\<forall>a. a < 10 \<or> 10 + 3 \<le> a \<longrightarrow> ?m' a = 9"
    by blast+
  then have "written (events_since ?s ?s') = {10 ..< 13}"
    "mem ?s' 13 = mem ?s 13" "mem ?s' 9 = mem ?s 9" "?m' 13 = 9" "?m' 9 = 9"
    by simp_all
  with linux windows arc4 show ?thesis unfolding Let_def by blast
qed

text \<open>
  C8, as stated: a call with \<open>n = 0\<close> always returns true and writes nothing, on every
  platform, whatever the flag and the outcomes of the OS operations. It does not hold on
  Linux where \<open>SYS__sysctl\<close> is not defined. A process whose first call met \<open>ENOSYS\<close> has
  the flag unavailable; its next call, with \<open>n = 0\<close>, still opens /dev/urandom, and when
  that open fails (\<open>EMFILE\<close>: descriptors exhausted) the call returns false.
\<close>

theorem C8_counterexample:
  "ggentropy_linux \<lparr>SYS_getrandom = True, SYS__sysctl = False\<rparr> 10 2
     ((initial_state (\<lambda>a. 0))
        \<lparr>getrandom_rs := [Inl ENOSYS], open_rs := [Inr 3, Inl EMFILE],
          fstat_rs := [Inr 0x2180], ioctl_rs := [Inr 256], read_rs := [Inr [1, 2]]\<rparr>)
   = Some (Inr (True,
       (initial_state (\<lambda>a. 0))
        \<lparr>mem := store_bytes (\<lambda>a. 0) 10 [1, 2], errno := ENOSYS,
          getrandom_available := False,
          trace := [Ev_getrandom 10 2 (Inl ENOSYS),
                    Ev_open ''/dev/urandom'' [O_RDONLY, O_NOFOLLOW, O_CLOEXEC] (Inr 3),
                    Ev_fstat 3 (Inr 0x2180), Ev_ioctl 3 (Inr 256),
                    Ev_read 3 10 2 (Inr [1, 2]), Ev_close 3],
          open_rs := [Inl EMFILE]\<rparr>))
 \<and> ggentropy_linux \<lparr>SYS_getrandom = True, SYS__sysctl = False\<rparr> 10 0
     ((initial_state (\<lambda>a. 0))
        \<lparr>mem := store_bytes (\<lambda>a. 0) 10 [1, 2], errno := ENOSYS,
          getrandom_available := False,
          trace := [Ev_getrandom 10 2 (Inl ENOSYS),
                    Ev_open ''/dev/urandom'' [O_RDONLY, O_NOFOLLOW, O_CLOEXEC] (Inr 3),
                    Ev_fstat 3 (Inr 0x2180), Ev_ioctl 3 (Inr 256),
                    Ev_read 3 10 2 (Inr [1, 2]), Ev_close 3],
          open_rs := [Inl EMFILE]\<rparr>)
   = Some (Inr (False,
       (initial_state (\<lambda>a. 0))
        \<lparr>mem := store_bytes (\<lambda>a. 0) 10 [1, 2], errno := EIO,
          getrandom_available := False,
          trace := [Ev_getrandom 10 2 (Inl ENOSYS),
                    Ev_open ''/dev/urandom'' [O_RDONLY, O_NOFOLLOW, O_CLOEXEC] (Inr 3),
                    Ev_fstat 3 (Inr 0x2180), Ev_ioctl 3 (Inr 256),
                    Ev_read 3 10 2 (Inr [1, 2]), Ev_close 3,
                    Ev_open ''/dev/urandom'' [O_RDONLY, O_NOFOLLOW, O_CLOEXEC] (Inl EMFILE)]\<rparr>))"
  by (simp add: run_simps)

text \<open>
  C8, amended. A call with \<open>n = 0\<close> never writes to the buffer. It returns true with
  arc4random; on Windows exactly when \<open>BCryptGenRandom\<close> does not fail; on Linux, when
  step A is tried (compiled in, flag available), it returns true without any OS call.
  Otherwise it runs the device strategy: its result is that of \<open>getentropy_urandom\<close> for no
  bytes, in the state that helper left, true when the helper succeeds or the control
  interface is compiled in; its first call opens /dev/urandom and all its calls are calls
  on the device. So it is false when the device strategy fails and the control interface
  is not compiled in, and only then. On the answers of the kernel: when \<open>open\<close> fails, and
  when the node opened is rejected (\<open>fstat\<close> fails, not a character device, or the \<open>ioctl\<close>
  fails), the call returns true where the control interface is compiled in and false where
  it is not; when the node is accepted the call returns true, having opened, checked and
  closed the device without a read.
\<close>

theorem C8_zero_length:
  "(ggentropy_linux cfg buf 0 s = Some (Inr (r, s')) \<longrightarrow>
      mem s' = mem s \<and> written (events_since s s') = {})
 \<and> (SYS_getrandom cfg \<and> getrandom_available s \<longrightarrow>
      ggentropy_linux cfg buf 0 s = Some (Inr (True, s)))
 \<and> (ggentropy_linux cfg buf 0 s = Some (Inr (r, s')) \<and> SYS__sysctl cfg \<longrightarrow> r)
 \<and> (ggentropy_linux cfg buf 0 s = Some (Inr (False, s')) \<longrightarrow>
      \<not> SYS__sysctl cfg \<and> \<not> (SYS_getrandom cfg \<and> getrandom_available s)
    \<and> getentropy_urandom buf 0 s = Some (- 1, s'))
 \<and> (\<not> (SYS_getrandom cfg \<and> getrandom_available s) \<longrightarrow>
      ggentropy_linux cfg buf 0 s =
        (case getentropy_urandom buf 0 s of
           None \<Rightarrow> None
         | Some (ret, s2) \<Rightarrow> Some (Inr (ret \<noteq> - 1 \<or> SYS__sysctl cfg, s2))))
 \<and> (\<not> (SYS_getrandom cfg \<and> getrandom_available s)
      \<and> ggentropy_linux cfg buf 0 s = Some (Inr (r, s')) \<longrightarrow>
      (\<exists>res evs. events_since s s' = Ev_open ''/dev/urandom'' urandom_flags res # evs)
      \<and> (\<forall>ev \<in> set (events_since s s'). strategy_of ev = Device))
 \<and> (\<not> (SYS_getrandom cfg \<and> getrandom_available s) \<and> \<not> SYS__sysctl cfg
      \<and> getentropy_urandom buf 0 s = Some (- 1, s2) \<longrightarrow>
      ggentropy_linux cfg buf 0 s = Some (Inr (False, s2)))
 \<and> (\<not> (SYS_getrandom cfg \<and> getrandom_available s)
      \<and> open_rs s = replicate j (Inl EINTR) @ Inl e # os \<and> e \<noteq> EINTR \<longrightarrow>
      ggentropy_linux cfg buf 0 s =
        Some (Inr (SYS__sysctl cfg,
          s\<lparr>errno := EIO, open_rs := os,
            trace := trace s
              @ replicate j (Ev_open ''/dev/urandom'' urandom_flags (Inl EINTR))
              @ [Ev_open ''/dev/urandom'' urandom_flags (Inl e)]\<rparr>)))
 \<and> (\<not> (SYS_getrandom cfg \<and> getrandom_available s)
      \<and> open_rs s = replicate j (Inl EINTR) @ Inr d # os
      \<and> ((\<exists>e fs. fstat_rs s = Inl e # fs)
         \<or> (\<exists>md fs. fstat_rs s = Inr md # fs \<and> \<not> S_ISCHR md)
         \<or> (\<exists>md fs e cs. fstat_rs s = Inr md # fs \<and> S_ISCHR md \<and> ioctl_rs s = Inl e # cs))
      \<longrightarrow>
      (\<exists>t io. ggentropy_linux cfg buf 0 s = Some (Inr (SYS__sysctl cfg, t))
         \<and> errno t = EIO
         \<and> events_since s t =
             replicate j (Ev_open ''/dev/urandom'' urandom_flags (Inl EINTR))
             @ [Ev_open ''/dev/urandom'' urandom_flags (Inr d),
                Ev_fstat (int d) (hd (fstat_rs s))]
             @ io @ [Ev_close (int d)]
         \<and> (io = [] \<or> (\<exists>e. io = [Ev_ioctl (int d) (Inl e)]))))
 \<and> (\<not> (SYS_getrandom cfg \<and> getrandom_available s)
      \<and> open_rs s = replicate j (Inl EINTR) @ Inr d # os
      \<and> fstat_rs s = Inr md # fs \<and> S_ISCHR md \<and> ioctl_rs s = Inr c # cs \<longrightarrow>
      ggentropy_linux cfg buf 0 s =
        Some (Inr (True,
          s\<lparr>open_rs := os, fstat_rs := fs, ioctl_rs := cs,
            trace := trace s
              @ replicate j (Ev_open ''/dev/urandom'' urandom_flags (Inl EINTR))
              @ [Ev_open ''/dev/urandom'' urandom_flags (Inr d), Ev_fstat (int d) (Inr md),
                 Ev_ioctl (int d) (Inr c), Ev_close (int d)]\<rparr>)))
 \<and> ggentropy_windows (status, gen) buf 0 m = Inr (\<not> FAILED status, m)
 \<and> ggentropy_arc4random gen buf 0 m = Inr (True, m)"
proof (intro conjI impI)
  assume run: "ggentropy_linux cfg buf 0 s = Some (Inr (r, s'))"
  from ggentropy_linux_effect[OF run] obtain evs where
    evs: "trace s' = trace s @ evs" "written evs \<subseteq> {buf ..< buf + 0}"
    "\<forall>a. a < buf \<or> buf + 0 \<le> a \<longrightarrow> mem s' a = mem s a"
    by blast
  from evs(3) show "mem s' = mem s" by (intro ext) (metis add_0_right not_le_imp_less)
  from evs(1,2) show "written (events_since s s') = {}"
    by (simp add: events_since_append)
next
  assume "SYS_getrandom cfg \<and> getrandom_available s"
  then show "ggentropy_linux cfg buf 0 s = Some (Inr (True, s))"
    by (simp add: ggentropy_linux_def getentropy_getrandom_0)
next
  assume "ggentropy_linux cfg buf 0 s = Some (Inr (r, s')) \<and> SYS__sysctl cfg"
  then show r
    by (auto simp: ggentropy_linux_def ggentropy_fallback_def getentropy_getrandom_0
        getentropy_sysctl_0 split: if_splits option.splits)
next
  assume run: "ggentropy_linux cfg buf 0 s = Some (Inr (False, s'))"
  then show "\<not> SYS__sysctl cfg" "\<not> (SYS_getrandom cfg \<and> getrandom_available s)"
    "getentropy_urandom buf 0 s = Some (- 1, s')"
    by (auto simp: ggentropy_linux_def ggentropy_fallback_def getentropy_getrandom_0
        getentropy_sysctl_0 split: if_splits option.splits)
next
  assume skip: "\<not> (SYS_getrandom cfg \<and> getrandom_available s)"
  then have fb: "ggentropy_linux cfg buf 0 s = map_option Inr (ggentropy_fallback cfg buf 0 s)"
    by (auto simp: ggentropy_linux_def)
  show "ggentropy_linux cfg buf 0 s =
        (case getentropy_urandom buf 0 s of
           None \<Rightarrow> None
         | Some (ret, s2) \<Rightarrow> Some (Inr (ret \<noteq> - 1 \<or> SYS__sysctl cfg, s2)))"
    unfolding fb
    by (auto simp: ggentropy_fallback_def getentropy_sysctl_0 split: option.splits)
next
  assume a: "\<not> (SYS_getrandom cfg \<and> getrandom_available s)
      \<and> ggentropy_linux cfg buf 0 s = Some (Inr (r, s'))"
  then have fb: "ggentropy_fallback cfg buf 0 s = Some (r, s')"
    by (auto simp: ggentropy_linux_def)
  from ggentropy_fallback_opens[OF fb]
  show "\<exists>res evs. events_since s s' = Ev_open ''/dev/urandom'' urandom_flags res # evs"
    by (auto simp: events_since_def)
  from fb obtain ret where "getentropy_urandom buf 0 s = Some (ret, s')"
    by (auto simp: ggentropy_fallback_def getentropy_sysctl_0 split: option.splits if_splits)
  from getentropy_urandom_events[OF this]
  show "\<forall>ev \<in> set (events_since s s'). strategy_of ev = Device"
    by simp
next
  assume "\<not> (SYS_getrandom cfg \<and> getrandom_available s) \<and> \<not> SYS__sysctl cfg
      \<and> getentropy_urandom buf 0 s = Some (- 1, s2)"
  then show "ggentropy_linux cfg buf 0 s = Some (Inr (False, s2))"
    by (auto simp: ggentropy_linux_def ggentropy_fallback_def)
next
  assume a: "\<not> (SYS_getrandom cfg \<and> getrandom_available s)
      \<and> open_rs s = replicate j (Inl EINTR) @ Inl e # os \<and> e \<noteq> EINTR"
  then have "open_rs s = replicate j (Inl EINTR) @ Inl e # os" "e \<noteq> EINTR" by simp_all
  from getentropy_urandom_open_fails[OF this, of buf 0] a
  show "ggentropy_linux cfg buf 0 s =
        Some (Inr (SYS__sysctl cfg,
          s\<lparr>errno := EIO, open_rs := os,
            trace := trace s
              @ replicate j (Ev_open ''/dev/urandom'' urandom_flags (Inl EINTR))
              @ [Ev_open ''/dev/urandom'' urandom_flags (Inl e)]\<rparr>))"
    by (auto simp: ggentropy_linux_def ggentropy_fallback_def getentropy_sysctl_0)
next
  assume a: "\<not> (SYS_getrandom cfg \<and> getrandom_available s)
      \<and> open_rs s = replicate j (Inl EINTR) @ Inr d # os
      \<and> ((\<exists>e fs. fstat_rs s = Inl e # fs)
         \<or> (\<exists>md fs. fstat_rs s = Inr md # fs \<and> \<not> S_ISCHR md)
         \<or> (\<exists>md fs e cs. fstat_rs s = Inr md # fs \<and> S_ISCHR md \<and> ioctl_rs s = Inl e # cs))"
  then have "open_rs s = replicate j (Inl EINTR) @ Inr d # os"
    "(\<exists>e fs. fstat_rs s = Inl e # fs)
         \<or> (\<exists>md fs. fstat_rs s = Inr md # fs \<and> \<not> S_ISCHR md)
         \<or> (\<exists>md fs e cs. fstat_rs s = Inr md # fs \<and> S_ISCHR md \<and> ioctl_rs s = Inl e # cs)"
    by blast+
  from getentropy_urandom_rejected[OF this, of buf 0] obtain t io where
    t: "getentropy_urandom buf 0 s = Some (- 1, t)" "errno t = EIO"
    "events_since s t =
             replicate j (Ev_open ''/dev/urandom'' urandom_flags (Inl EINTR))
             @ [Ev_open ''/dev/urandom'' urandom_flags (Inr d),
                Ev_fstat (int d) (hd (fstat_rs s))]
             @ io @ [Ev_close (int d)]"
    "io = [] \<or> (\<exists>e. io = [Ev_ioctl (int d) (Inl e)])"
    by blast
  from a t(1) have "ggentropy_linux cfg buf 0 s = Some (Inr (SYS__sysctl cfg, t))"
    by (auto simp: ggentropy_linux_def ggentropy_fallback_def getentropy_sysctl_0)
  with t(2,3,4)
  show "\<exists>t io. ggentropy_linux cfg buf 0 s = Some (Inr (SYS__sysctl cfg, t))
         \<and> errno t = EIO
         \<and> events_since s t =
             replicate j (Ev_open ''/dev/urandom'' urandom_flags (Inl EINTR))
             @ [Ev_open ''/dev/urandom'' urandom_flags (Inr d),
                Ev_fstat (int d) (hd (fstat_rs s))]
             @ io @ [Ev_close (int d)]
         \<and> (io = [] \<or> (\<exists>e. io = [Ev_ioctl (int d) (Inl e)]))"
    by blast
next
  assume a: "\<not> (SYS_getrandom cfg \<and> getrandom_available s)
      \<and> open_rs s = replicate j (Inl EINTR) @ Inr d # os
      \<and> fstat_rs s = Inr md # fs \<and> S_ISCHR md \<and> ioctl_rs s = Inr c # cs"
  then have "open_rs s = replicate j (Inl EINTR) @ Inr d # os"
    "fstat_rs s = Inr md # fs" "S_ISCHR md" "ioctl_rs s = Inr c # cs"
    by simp_all
  from getentropy_urandom_0_accepted[OF this, of buf] a
  show "ggentropy_linux cfg buf 0 s =
        Some (Inr (True,
          s\<lparr>open_rs := os, fstat_rs := fs, ioctl_rs := cs,
            trace := trace s
              @ replicate j (Ev_open ''/dev/urandom'' urandom_flags (Inl EINTR))
              @ [Ev_open ''/dev/urandom'' urandom_flags (Inr d), Ev_fstat (int d) (Inr md),
                 Ev_ioctl (int d) (Inr c), Ev_close (int d)]\<rparr>))"
    by (auto simp: ggentropy_linux_def ggentropy_fallback_def)
next
  show "ggentropy_windows (status, gen) buf 0 m = Inr (\<not> FAILED status, m)"
    by (simp add: ggentropy_windows_def BCryptGenRandom_def)
next
  show "ggentropy_arc4random gen buf 0 m = Inr (True, m)"
    by (simp add: ggentropy_arc4random_def arc4random_buf_def)
qed


theorem C8_zero_length_witness:
  "let cfg1 = \<lparr>SYS_getrandom = True, SYS__sysctl = False\<rparr>;
       cfg2 = \<lparr>SYS_getrandom = True, SYS__sysctl = True\<rparr>;
       i = initial_state (\<lambda>a. 0);
       u = (initial_state (\<lambda>a. 0))\<lparr>getrandom_available := False, open_rs := [Inl EMFILE]\<rparr>;
       u' = u\<lparr>errno := EIO, open_rs := [],
              trace := [Ev_open ''/dev/urandom'' [O_RDONLY, O_NOFOLLOW, O_CLOEXEC] (Inl EMFILE)]\<rparr>;
       v = (initial_state (\<lambda>a. 0))
             \<lparr>getrandom_available := False, open_rs := [Inl EINTR, Inr 3],
               fstat_rs := [Inr 0x2180], ioctl_rs := [Inr 256], read_rs := [Inr [1]]\<rparr>
   in ggentropy_linux cfg1 10 0 u = Some (Inr (False, u'))
    \<and> mem u' = mem u \<and> written (events_since u u') = {}
    \<and> \<not> SYS__sysctl cfg1 \<and> getentropy_urandom 10 0 u = Some (- 1, u')
    \<and> SYS_getrandom cfg1 \<and> getrandom_available i
    \<and> ggentropy_linux cfg1 10 0 i = Some (Inr (True, i))
    \<and> ggentropy_linux cfg2 10 0 u = Some (Inr (True, u')) \<and> SYS__sysctl cfg2
    \<and> \<not> (SYS_getrandom cfg1 \<and> getrandom_available u)
    \<and> open_rs u = replicate 0 (Inl EINTR) @ Inl EMFILE # [] \<and> EMFILE \<noteq> EINTR
    \<and> ggentropy_linux cfg1 10 0 u =
        Some (Inr (SYS__sysctl cfg1,
          u\<lparr>errno := EIO, open_rs := [],
            trace := trace u
              @ replicate 0 (Ev_open ''/dev/urandom'' urandom_flags (Inl EINTR))
              @ [Ev_open ''/dev/urandom'' urandom_flags (Inl EMFILE)]\<rparr>))
    \<and> (\<exists>res evs. events_since u u' = Ev_open ''/dev/urandom'' urandom_flags res # evs)
    \<and> \<not> (SYS_getrandom cfg2 \<and> getrandom_available v)
    \<and> open_rs v = replicate 1 (Inl EINTR) @ Inr 3 # []
    \<and> fstat_rs v = Inr 0x2180 # [] \<and> S_ISCHR 0x2180 \<and> ioctl_rs v = Inr 256 # []
    \<and> ggentropy_linux cfg2 10 0 v =
        Some (Inr (True,
          v\<lparr>open_rs := [], fstat_rs := [], ioctl_rs := [],
            trace := trace v
              @ replicate 1 (Ev_open ''/dev/urandom'' urandom_flags (Inl EINTR))
              @ [Ev_open ''/dev/urandom'' urandom_flags (Inr 3), Ev_fstat (int 3) (Inr 0x2180),
                 Ev_ioctl (int 3) (Inr 256), Ev_close (int 3)]\<rparr>))"
proof -
  let ?cfg1 = "\<lparr>SYS_getrandom = True, SYS__sysctl = False\<rparr>"
  let ?cfg2 = "\<lparr>SYS_getrandom = True, SYS__sysctl = True\<rparr>"
  let ?i = "initial_state (\<lambda>a. 0)"
  let ?u = "(initial_state (\<lambda>a. 0))\<lparr>getrandom_available := False, open_rs := [Inl EMFILE]\<rparr>"
  let ?u' = "?u\<lparr>errno := EIO, open_rs := [],
              trace := [Ev_open ''/dev/urandom'' [O_RDONLY, O_NOFOLLOW, O_CLOEXEC] (Inl EMFILE)]\<rparr>"
  let ?v = "(initial_state (\<lambda>a. 0))
             \<lparr>getrandom_available := False, open_rs := [Inl EINTR, Inr 3],
               fstat_rs := [Inr 0x2180], ioctl_rs := [Inr 256], read_rs := [Inr [1]]\<rparr>"
  have 1: "ggentropy_linux ?cfg1 10 0 ?u = Some (Inr (False, ?u'))"
    by (simp add: run_simps)
  have 2: "ggentropy_linux ?cfg2 10 0 ?u = Some (Inr (True, ?u'))"
    by (simp add: run_simps)
  have c: "SYS_getrandom ?cfg1" "getrandom_available ?i" "SYS__sysctl ?cfg2"
    by (simp_all add: initial_state_def)
  have ci: "SYS_getrandom ?cfg1 \<and> getrandom_available ?i"
    using c by simp
  have hu: "\<not> (SYS_getrandom ?cfg1 \<and> getrandom_available ?u)"
    "open_rs ?u = replicate 0 (Inl EINTR) @ Inl EMFILE # []" "EMFILE \<noteq> EINTR"
    by (simp_all add: initial_state_def)
  have hv: "\<not> (SYS_getrandom ?cfg2 \<and> getrandom_available ?v)"
    "open_rs ?v = replicate 1 (Inl EINTR) @ Inr 3 # []"
    "fstat_rs ?v = Inr 0x2180 # []" "S_ISCHR 0x2180" "ioctl_rs ?v = Inr 256 # []"
    by (simp_all add: initial_state_def S_ISCHR_def)
  note a = C8_zero_length[where cfg = ?cfg1 and buf = 10 and s = ?u and r = False and s' = ?u'
      and j = 0 and e = EMFILE and os = "[]"]
  note b = C8_zero_length[where cfg = ?cfg1 and buf = 10 and s = ?i]
  note d = C8_zero_length[where cfg = ?cfg2 and buf = 10 and s = ?v and j = 1 and d = 3
      and os = "[]" and md = "0x2180" and fs = "[]" and c = 256 and cs = "[]"]
  have "mem ?u' = mem ?u \<and> written (events_since ?u ?u') = {}"
    by (rule a[THEN conjunct1, THEN mp]) (rule 1)
  then have 3: "mem ?u' = mem ?u" and 4: "written (events_since ?u ?u') = {}"
    by blast+
  have "\<not> SYS__sysctl ?cfg1 \<and> \<not> (SYS_getrandom ?cfg1 \<and> getrandom_available ?u)
    \<and> getentropy_urandom 10 0 ?u = Some (- 1, ?u')"
    by (rule a[THEN conjunct2, THEN conjunct2, THEN conjunct2, THEN conjunct1, THEN mp])
       (rule 1)
  then have 5: "\<not> SYS__sysctl ?cfg1" and 6: "getentropy_urandom 10 0 ?u = Some (- 1, ?u')"
    by blast+
  have 7: "ggentropy_linux ?cfg1 10 0 ?i = Some (Inr (True, ?i))"
    by (rule b[THEN conjunct2, THEN conjunct1, THEN mp]) (rule ci)
  have 8: "ggentropy_linux ?cfg1 10 0 ?u =
        Some (Inr (SYS__sysctl ?cfg1,
          ?u\<lparr>errno := EIO, open_rs := [],
            trace := trace ?u
              @ replicate 0 (Ev_open ''/dev/urandom'' urandom_flags (Inl EINTR))
              @ [Ev_open ''/dev/urandom'' urandom_flags (Inl EMFILE)]\<rparr>))"
    by (rule a[THEN conjunct2, THEN conjunct2, THEN conjunct2, THEN conjunct2,
          THEN conjunct2, THEN conjunct2, THEN conjunct2, THEN conjunct1, THEN mp])
       (intro conjI; fact)
  have "(\<exists>res evs. events_since ?u ?u' = Ev_open ''/dev/urandom'' urandom_flags res # evs)
      \<and> (\<forall>ev \<in> set (events_since ?u ?u'). strategy_of ev = Device)"
    by (rule a[THEN conjunct2, THEN conjunct2, THEN conjunct2, THEN conjunct2,
          THEN conjunct2, THEN conjunct1, THEN mp])
       (intro conjI; fact)
  then have 9: "\<exists>res evs. events_since ?u ?u' = Ev_open ''/dev/urandom'' urandom_flags res # evs"
    by (rule conjunct1)
  have 10: "ggentropy_linux ?cfg2 10 0 ?v =
        Some (Inr (True,
          ?v\<lparr>open_rs := [], fstat_rs := [], ioctl_rs := [],
            trace := trace ?v
              @ replicate 1 (Ev_open ''/dev/urandom'' urandom_flags (Inl EINTR))
              @ [Ev_open ''/dev/urandom'' urandom_flags (Inr 3), Ev_fstat (int 3) (Inr 0x2180),
                 Ev_ioctl (int 3) (Inr 256), Ev_close (int 3)]\<rparr>))"
    by (rule d[THEN conjunct2, THEN conjunct2, THEN conjunct2, THEN conjunct2,
          THEN conjunct2, THEN conjunct2, THEN conjunct2, THEN conjunct2, THEN conjunct2,
          THEN conjunct1, THEN mp])
       (intro conjI; fact)
  from 1 3 4 5 6 c(1,2) 7 2 c(3) hu 8 9 hv 10 show ?thesis
    unfolding Let_def by blast
qed

text \<open>
  C9. The precondition \<open>n \<le> 256\<close> is an assertion in every platform body: a call with
  \<open>n > 256\<close> (257, say) fails the assertion, it neither truncates nor returns true, and
  with \<open>n \<le> 256\<close> the assertion does not fire.
\<close>

theorem C9_length_assertion:
  "(256 < n \<longrightarrow>
      ggentropy_linux cfg buf n s = Some (Inl Assertion_failed)
    \<and> ggentropy_windows r buf n m = Inl Assertion_failed
    \<and> ggentropy_arc4random gen buf n m = Inl Assertion_failed)
 \<and> (n \<le> 256 \<longrightarrow>
      ggentropy_linux cfg buf n s \<noteq> Some (Inl Assertion_failed)
    \<and> ggentropy_windows r buf n m \<noteq> Inl Assertion_failed
    \<and> ggentropy_arc4random gen buf n m \<noteq> Inl Assertion_failed)"
  by (auto simp: ggentropy_linux_def ggentropy_windows_def ggentropy_arc4random_def
      split: option.splits prod.splits)

theorem C9_length_assertion_witness:
  "(256::nat) < 257
   \<and> ggentropy_linux \<lparr>SYS_getrandom = True, SYS__sysctl = True\<rparr> 0 257 (initial_state (\<lambda>a. 0))
       = Some (Inl Assertion_failed)
   \<and> ggentropy_windows (0, \<lambda>i. 7) 0 257 (\<lambda>a. 0) = Inl Assertion_failed
   \<and> ggentropy_arc4random (\<lambda>i. 7) 0 257 (\<lambda>a. 0) = Inl Assertion_failed
   \<and> (256::nat) \<le> 256
   \<and> ggentropy_linux \<lparr>SYS_getrandom = True, SYS__sysctl = True\<rparr> 0 256 (initial_state (\<lambda>a. 0))
       \<noteq> Some (Inl Assertion_failed)
   \<and> ggentropy_windows (0, \<lambda>i. 7) 0 256 (\<lambda>a. 0) \<noteq> Inl Assertion_failed
   \<and> ggentropy_arc4random (\<lambda>i. 7) 0 256 (\<lambda>a. 0) \<noteq> Inl Assertion_failed"
  using C9_length_assertion[of 257 "\<lparr>SYS_getrandom = True, SYS__sysctl = True\<rparr>" 0
      "initial_state (\<lambda>a. 0)" "(0, \<lambda>i. 7)" "\<lambda>a. 0" "\<lambda>i. 7"]
    C9_length_assertion[of 256 "\<lparr>SYS_getrandom = True, SYS__sysctl = True\<rparr>" 0
      "initial_state (\<lambda>a. 0)" "(0, \<lambda>i. 7)" "\<lambda>a. 0" "\<lambda>i. 7"]
  by simp

text \<open>
  C10. The three Linux loops terminate because the OS primitives make progress. If every
  successful getrandom (read, sysctl) answers with at least one byte, and the kernel
  answers as many calls that are not interruptions as there are bytes left, the loop
  returns, after at most that many successful calls. A primitive that keeps succeeding
  with zero bytes makes the loop call it again for ever: on every script of such answers,
  however long, the loop has made every call and has not returned.
\<close>

theorem C10_loops_need_progress:
  "((\<forall>bs. Inr bs \<in> set (getrandom_rs s) \<longrightarrow> bs \<noteq> [])
      \<and> nat left \<le> length (filter (\<lambda>r. r \<noteq> Inl EINTR) (getrandom_rs s)) \<longrightarrow>
    (\<exists>r. getrandom_loop p left s = Some r
        \<and> length (filter transfer (events_since s (final r))) \<le> nat left))
 \<and> ((\<forall>bs. Inr bs \<in> set (read_rs s) \<longrightarrow> bs \<noteq> [])
      \<and> len - i \<le> length (filter (\<lambda>r. r \<noteq> Inl EAGAIN \<and> r \<noteq> Inl EINTR) (read_rs s)) \<longrightarrow>
    (\<exists>r. urandom_read_loop fd buf len i s = Some r
        \<and> length (filter transfer (events_since s (final r))) \<le> len - i))
 \<and> ((\<forall>bs. Inr bs \<in> set (sysctl_rs s) \<longrightarrow> bs \<noteq> [])
      \<and> len - i \<le> length (sysctl_rs s) \<longrightarrow>
    (\<exists>r. sysctl_loop buf len i s = Some r
        \<and> length (filter transfer (events_since s (final r))) \<le> len - i))
 \<and> (0 < left \<and> set (getrandom_rs s) \<subseteq> {Inr []} \<longrightarrow> getrandom_loop p left s = None)
 \<and> (i < len \<and> set (read_rs s) \<subseteq> {Inr []} \<longrightarrow> urandom_read_loop fd buf len i s = None)
 \<and> (i < len \<and> set (sysctl_rs s) \<subseteq> {Inr []} \<longrightarrow> sysctl_loop buf len i s = None)"
proof (intro conjI impI)
  assume "(\<forall>bs. Inr bs \<in> set (getrandom_rs s) \<longrightarrow> bs \<noteq> [])
      \<and> nat left \<le> length (filter (\<lambda>r. r \<noteq> Inl EINTR) (getrandom_rs s))"
  with getrandom_loop_terminates[OF refl, of s left p]
  show "\<exists>r. getrandom_loop p left s = Some r
        \<and> length (filter transfer (events_since s (final r))) \<le> nat left"
    by (auto simp: events_since_def)
next
  assume "(\<forall>bs. Inr bs \<in> set (read_rs s) \<longrightarrow> bs \<noteq> [])
      \<and> len - i \<le> length (filter (\<lambda>r. r \<noteq> Inl EAGAIN \<and> r \<noteq> Inl EINTR) (read_rs s))"
  with urandom_read_loop_terminates[OF refl, of s len i fd buf]
  show "\<exists>r. urandom_read_loop fd buf len i s = Some r
        \<and> length (filter transfer (events_since s (final r))) \<le> len - i"
    by (auto simp: events_since_def)
next
  assume "(\<forall>bs. Inr bs \<in> set (sysctl_rs s) \<longrightarrow> bs \<noteq> [])
      \<and> len - i \<le> length (sysctl_rs s)"
  with sysctl_loop_terminates[OF refl, of s len i buf]
  show "\<exists>r. sysctl_loop buf len i s = Some r
        \<and> length (filter transfer (events_since s (final r))) \<le> len - i"
    by (auto simp: events_since_def)
next
  assume "0 < left \<and> set (getrandom_rs s) \<subseteq> {Inr []}"
  then show "getrandom_loop p left s = None"
    using getrandom_loop_diverges[OF refl, of s left p] by blast
next
  assume "i < len \<and> set (read_rs s) \<subseteq> {Inr []}"
  then show "urandom_read_loop fd buf len i s = None"
    using urandom_read_loop_diverges[OF refl, of s i len fd buf] by blast
next
  assume "i < len \<and> set (sysctl_rs s) \<subseteq> {Inr []}"
  then show "sysctl_loop buf len i s = None"
    using sysctl_loop_diverges[OF refl, of s i len buf] by blast
qed


theorem C10_loops_need_progress_witness:
  "let s = (initial_state (\<lambda>a. 0))
            \<lparr>getrandom_rs := [Inr [1], Inl EINTR, Inr [2, 3], Inr [4]],
              read_rs := [Inr [1], Inl EAGAIN, Inr [2, 3], Inr [4]],
              sysctl_rs := [Inr [1, 2], Inr [3], Inr [4]]\<rparr>;
       z = (initial_state (\<lambda>a. 0))
            \<lparr>getrandom_rs := [Inr [], Inr []], read_rs := [Inr [], Inr []],
              sysctl_rs := [Inr [], Inr []]\<rparr>
   in nat 3 \<le> length (filter (\<lambda>r. r \<noteq> Inl EINTR) (getrandom_rs s))
    \<and> (\<exists>r. getrandom_loop 10 3 s = Some r
          \<and> length (filter transfer (events_since s (final r))) \<le> nat 3)
    \<and> 3 - 0 \<le> length (filter (\<lambda>r. r \<noteq> Inl EAGAIN \<and> r \<noteq> Inl EINTR) (read_rs s))
    \<and> (\<exists>r. urandom_read_loop 3 10 3 0 s = Some r
          \<and> length (filter transfer (events_since s (final r))) \<le> 3 - 0)
    \<and> 3 - 0 \<le> length (sysctl_rs s)
    \<and> (\<exists>r. sysctl_loop 10 3 0 s = Some r
          \<and> length (filter transfer (events_since s (final r))) \<le> 3 - 0)
    \<and> set (getrandom_rs z) \<subseteq> {Inr []} \<and> getrandom_loop 10 3 z = None
    \<and> set (read_rs z) \<subseteq> {Inr []} \<and> urandom_read_loop 3 10 3 0 z = None
    \<and> set (sysctl_rs z) \<subseteq> {Inr []} \<and> sysctl_loop 10 3 0 z = None"
proof -
  let ?s = "(initial_state (\<lambda>a. 0))
            \<lparr>getrandom_rs := [Inr [1], Inl EINTR, Inr [2, 3], Inr [4]],
              read_rs := [Inr [1], Inl EAGAIN, Inr [2, 3], Inr [4]],
              sysctl_rs := [Inr [1, 2], Inr [3], Inr [4]]\<rparr>"
  let ?z = "(initial_state (\<lambda>a. 0))
            \<lparr>getrandom_rs := [Inr [], Inr []], read_rs := [Inr [], Inr []],
              sysctl_rs := [Inr [], Inr []]\<rparr>"
  have g: "\<forall>bs. Inr bs \<in> set (getrandom_rs ?s) \<longrightarrow> bs \<noteq> []"
    "nat 3 \<le> length (filter (\<lambda>r. r \<noteq> Inl EINTR) (getrandom_rs ?s))"
    by auto
  have r: "\<forall>bs. Inr bs \<in> set (read_rs ?s) \<longrightarrow> bs \<noteq> []"
    "3 - 0 \<le> length (filter (\<lambda>r. r \<noteq> Inl EAGAIN \<and> r \<noteq> Inl EINTR) (read_rs ?s))"
    by auto
  have c: "\<forall>bs. Inr bs \<in> set (sysctl_rs ?s) \<longrightarrow> bs \<noteq> []"
    "3 - 0 \<le> length (sysctl_rs ?s)"
    by auto
  have z: "(0::int) < 3" "(0::nat) < 3" "set (getrandom_rs ?z) \<subseteq> {Inr []}"
    "set (read_rs ?z) \<subseteq> {Inr []}" "set (sysctl_rs ?z) \<subseteq> {Inr []}"
    by simp_all
  note a = C10_loops_need_progress[of ?s 3 10 3 0 3 10]
  note b = C10_loops_need_progress[of ?z 3 10 3 0 3 10]
  from a g have "\<exists>r. getrandom_loop 10 3 ?s = Some r
          \<and> length (filter transfer (events_since ?s (final r))) \<le> nat 3"
    by blast
  moreover from a r have "\<exists>r. urandom_read_loop 3 10 3 0 ?s = Some r
          \<and> length (filter transfer (events_since ?s (final r))) \<le> 3 - 0"
    by blast
  moreover from a c have "\<exists>r. sysctl_loop 10 3 0 ?s = Some r
          \<and> length (filter transfer (events_since ?s (final r))) \<le> 3 - 0"
    by blast
  moreover from b z have "getrandom_loop 10 3 ?z = None" "urandom_read_loop 3 10 3 0 ?z = None"
    "sysctl_loop 10 3 0 ?z = None"
    by blast+
  ultimately show ?thesis
    using g(2) r(2) c(2) z(3-5) unfolding Let_def by blast
qed

end
